theory Spec2Isabelle
  imports Main
begin

section \<open>promise.hpp: the settlement state, chaining and the combinators\<close>

text \<open>
  The development embeds \<^verbatim>\<open>promise<T>\<close> and \<^verbatim>\<open>promise<void>\<close> of
  \<^verbatim>\<open>promise.hpp\<close>, together with \<^verbatim>\<open>make_promise\<close>, \<^verbatim>\<open>make_resolved_promise\<close>,
  \<^verbatim>\<open>make_rejected_promise\<close>, \<^verbatim>\<open>make_all_promise\<close> and \<^verbatim>\<open>make_any_promise\<close>.

  \<^item> A \<^verbatim>\<open>promise\<close> handle is a \<^verbatim>\<open>shared_ptr<state>\<close>: here an address into a store of
    states (a list, allocation appends). Copies of a handle are the same address.
  \<^item> The two classes differ in the payload only; the store holds both, with the payloads in one
    universal type \<open>val\<close> in which \<open>VUnit\<close> is the payload of \<^verbatim>\<open>promise<void>\<close>.
  \<^item> \<^verbatim>\<open>std::exception_ptr\<close> is the type \<open>exception_ptr\<close>; \<open>nullptr\<close> is its initial value.
  \<^item> Handlers are closures stored in the state they wait on and acting on other states, so they
    are first-order data here: \<open>resolve_h\<close> and \<open>reject_h\<close> are the two lambdas built by
    \<^verbatim>\<open>state::attach\<close> with their captures, \<open>resolve_f\<close> and \<open>reject_f\<close> are the callables handed to
    \<^verbatim>\<open>then\<close>: a callback of the user (a function that returns or raises), or one of the lambdas
    that \<^verbatim>\<open>then\<close>, \<^verbatim>\<open>fail\<close>, \<^verbatim>\<open>make_all_promise\<close> and \<^verbatim>\<open>make_any_promise\<close> write themselves.
  \<^item> Calls nest: \<^verbatim>\<open>resolve\<close> runs handlers, which call \<^verbatim>\<open>resolve\<close> on the next promise.
    The call stack is explicit: \<open>run\<close> executes a list of pending calls, the first one first,
    and a call puts the calls of its body in front of the list. \<open>run\<close> is total.
  \<^item> A callback of the user is a pure function of its argument that returns a value or raises:
    it does not call back into the promises. Under this reading no mutex is ever requested
    twice by one thread, and the mutex is not part of the model (one thread throughout).
  \<^item> The field \<open>trace\<close> of the store is not in the source: it records every invocation of a
    callback of the user, named by the promise \<^verbatim>\<open>next\<close> that the invoking closure captured
    (each \<^verbatim>\<open>then\<close> allocates its own), so that "is invoked once" and "is never invoked" can be
    stated.
  \<^item> The overloads of \<^verbatim>\<open>then\<close> for callbacks that return a promise, \<^verbatim>\<open>then_all\<close> and
    \<^verbatim>\<open>then_any\<close> are not embedded.
  Names of the source that end in an underscore lose it (\<open>handlers_\<close> is \<open>st_handlers\<close>,
  \<open>add_handlers_\<close> is \<open>add_handlers\<close>); \<^verbatim>\<open>then\<close> is \<open>then1\<close> and \<open>then2\<close> by its number
  of arguments.
\<close>

subsection \<open>Data\<close>

type_synonym addr = nat

datatype status = pending | resolved | rejected

datatype 'e exception_ptr = nullptr | logic_error string | thrown 'e

datatype 'a val = VUnit | VAtom 'a | VVec "'a val list"

text \<open>The callables passed to \<^verbatim>\<open>then(on_resolve, on_reject)\<close>. A callback of the user returns
  \<open>Inr r\<close> or raises (\<open>Inl c\<close>); a reject callback returns nothing (\<open>None\<close>) or raises
  (\<open>Some c\<close>).\<close>

datatype ('a, 'e) resolve_f =
    user_resolve "'a val \<Rightarrow> 'e exception_ptr + 'a val"
  | fail_identity
      \<comment> \<open>\<^verbatim>\<open>[](const T& value) { return value; }\<close> and \<^verbatim>\<open>[]{}\<close> of \<^verbatim>\<open>fail\<close>\<close>
  | all_resolve nat addr nat
      \<comment> \<open>\<^verbatim>\<open>[context, resolver, result_index]\<close> of \<^verbatim>\<open>make_all_promise\<close>\<close>
  | any_resolve addr
      \<comment> \<open>\<^verbatim>\<open>[resolver](const child_promise_value_t& v) { resolver(v); }\<close>\<close>

datatype ('a, 'e) reject_f =
    user_reject "'e exception_ptr \<Rightarrow> 'e exception_ptr option"
  | then_default
      \<comment> \<open>\<^verbatim>\<open>[](std::exception_ptr){}\<close> of the one-argument \<^verbatim>\<open>then\<close>\<close>
  | forward_reject addr
      \<comment> \<open>\<^verbatim>\<open>[rejector](std::exception_ptr e) { rejector(e); }\<close>\<close>

text \<open>The closures of \<^verbatim>\<open>state::attach\<close>: \<^verbatim>\<open>reject_h = [n, f]\<close> and
  \<^verbatim>\<open>resolve_h = [n, f, j = reject_h]\<close>.\<close>

datatype ('a, 'e) reject_h = reject_h addr "('a, 'e) reject_f"

datatype ('a, 'e) resolve_h = resolve_h addr "('a, 'e) resolve_f" "('a, 'e) reject_h"

record ('a, 'e) handler =
  h_resolve :: "('a, 'e) resolve_h"
  h_reject :: "('a, 'e) reject_h"

record ('a, 'e) state =
  st_storage :: "'a val option"
  st_status :: status
  st_exception :: "'e exception_ptr"
  st_handlers :: "('a, 'e) handler list"

text \<open>\<^verbatim>\<open>context_t\<close> of \<^verbatim>\<open>make_all_promise\<close>.\<close>

record 'a context_t =
  results :: "'a val list"
  counter :: nat

datatype ('a, 'e) event = resolve_called addr "'a val" | reject_called addr "'e exception_ptr"

record ('a, 'e) heap =
  states :: "('a, 'e) state list"
  contexts :: "'a context_t list"
  trace :: "('a, 'e) event list"

text \<open>The calls that can be pending on the stack.\<close>

datatype ('a, 'e) call =
    call_resolve addr "'a val"
  | call_reject addr "'e exception_ptr"
  | call_resolve_h "('a, 'e) resolve_h" "'a val"
  | call_reject_h "('a, 'e) reject_h" "'e exception_ptr"
  | call_clear addr

subsection \<open>The settlement state\<close>

definition new_state :: "('a, 'e) state" where
  "new_state = \<lparr>st_storage = None, st_status = pending, st_exception = nullptr, st_handlers = []\<rparr>"

definition empty_heap :: "('a, 'e) heap" where
  "empty_heap = \<lparr>states = [], contexts = [], trace = []\<rparr>"

text \<open>\<^verbatim>\<open>promise()\<close>: \<^verbatim>\<open>state_(std::make_shared<state>())\<close>.\<close>

definition new_promise :: "('a, 'e) heap \<Rightarrow> addr \<times> ('a, 'e) heap" where
  "new_promise h = (length (states h), h\<lparr>states := states h @ [new_state]\<rparr>)"

definition upd_state ::
  "addr \<Rightarrow> (('a, 'e) state \<Rightarrow> ('a, 'e) state) \<Rightarrow> ('a, 'e) heap \<Rightarrow> ('a, 'e) heap" where
  "upd_state p f h = h\<lparr>states := (states h)[p := f (states h ! p)]\<rparr>"

definition log_event :: "('a, 'e) event \<Rightarrow> ('a, 'e) heap \<Rightarrow> ('a, 'e) heap" where
  "log_event ev h = h\<lparr>trace := trace h @ [ev]\<rparr>"

definition is_pending :: "('a, 'e) heap \<Rightarrow> addr \<Rightarrow> bool" where
  "is_pending h p = (p < length (states h) \<and> st_status (states h ! p) = pending)"

text \<open>\<^verbatim>\<open>invoke_resolve_handlers_\<close> and \<^verbatim>\<open>invoke_reject_handlers_\<close>: the calls of the loop over
  \<^verbatim>\<open>handlers_\<close>, then \<^verbatim>\<open>handlers_.clear()\<close>. \<^verbatim>\<open>storage_.value()\<close> asserts that the storage is
  initialised.\<close>

definition invoke_resolve_handlers :: "addr \<Rightarrow> ('a, 'e) heap \<Rightarrow> ('a, 'e) call list" where
  "invoke_resolve_handlers p h =
     (case st_storage (states h ! p) of
        None \<Rightarrow> []
      | Some v \<Rightarrow>
          map (\<lambda>x. call_resolve_h (h_resolve x) v) (st_handlers (states h ! p)) @ [call_clear p])"

definition invoke_reject_handlers :: "addr \<Rightarrow> ('a, 'e) heap \<Rightarrow> ('a, 'e) call list" where
  "invoke_reject_handlers p h =
     map (\<lambda>x. call_reject_h (h_reject x) (st_exception (states h ! p)))
       (st_handlers (states h ! p)) @ [call_clear p]"

text \<open>\<^verbatim>\<open>state::resolve\<close> and \<^verbatim>\<open>state::reject\<close> up to the invocation of the handlers: the
  returned flag, the calls that the body still makes, and the store. A handle always owns a
  state; an address outside the store is answered like a settled state.\<close>

definition resolve_enter ::
  "addr \<Rightarrow> 'a val \<Rightarrow> ('a, 'e) heap \<Rightarrow> bool \<times> ('a, 'e) call list \<times> ('a, 'e) heap" where
  "resolve_enter p v h =
     (if \<not> is_pending h p then (False, [], h)
      else
        let h1 = upd_state p (\<lambda>s. s\<lparr>st_storage := Some v\<rparr>) h;
            h2 = upd_state p (\<lambda>s. s\<lparr>st_status := resolved\<rparr>) h1
        in (True, invoke_resolve_handlers p h2, h2))"

definition reject_enter ::
  "addr \<Rightarrow> 'e exception_ptr \<Rightarrow> ('a, 'e) heap \<Rightarrow> bool \<times> ('a, 'e) call list \<times> ('a, 'e) heap" where
  "reject_enter p e h =
     (if \<not> is_pending h p then (False, [], h)
      else
        let h1 = upd_state p (\<lambda>s. s\<lparr>st_exception := e\<rparr>) h;
            h2 = upd_state p (\<lambda>s. s\<lparr>st_status := rejected\<rparr>) h1
        in (True, invoke_reject_handlers p h2, h2))"

text \<open>\<^verbatim>\<open>context_t::apply_result\<close>:
  \<^verbatim>\<open>results[index] = value; return ++counter == results.size();\<close>\<close>

definition apply_result ::
  "nat \<Rightarrow> nat \<Rightarrow> 'a val \<Rightarrow> ('a, 'e) heap \<Rightarrow> bool \<times> ('a, 'e) heap" where
  "apply_result c index v h =
     (let ctx = contexts h ! c;
          ctx1 = ctx\<lparr>results := (results ctx)[index := v]\<rparr>;
          ctx2 = ctx1\<lparr>counter := Suc (counter ctx1)\<rparr>
      in (counter ctx2 = length (results ctx2), h\<lparr>contexts := (contexts h)[c := ctx2]\<rparr>))"

text \<open>The body of \<^verbatim>\<open>reject_h\<close>:
  \<^verbatim>\<open>try { f(e); n.reject(e); } catch (...) { n.reject(std::current_exception()); }\<close>\<close>

fun invoke_reject_h ::
  "('a, 'e) reject_h \<Rightarrow> 'e exception_ptr \<Rightarrow> ('a, 'e) heap \<Rightarrow> ('a, 'e) call list \<times> ('a, 'e) heap"
  where
  "invoke_reject_h (reject_h n (user_reject g)) e h =
     (let h1 = log_event (reject_called n e) h
      in case g e of
           None \<Rightarrow> ([call_reject n e], h1)
         | Some c \<Rightarrow> ([call_reject n c], h1))"
| "invoke_reject_h (reject_h n then_default) e h = ([call_reject n e], h)"
| "invoke_reject_h (reject_h n (forward_reject res)) e h =
     ([call_reject res e, call_reject n e], h)"

text \<open>The body of \<^verbatim>\<open>resolve_h\<close>:
  \<^verbatim>\<open>try { auto r = f(v); n.resolve(std::move(r)); } catch (...) { j(std::current_exception()); }\<close>
  and, where \<^verbatim>\<open>f\<close> returns nothing, \<^verbatim>\<open>try { f(v); n.resolve(); } catch ...\<close>.
  The lambda of \<^verbatim>\<open>make_all_promise\<close> is
  \<^verbatim>\<open>if ( context->apply_result(result_index, v) ) { resolver(std::move(context->results)); }\<close>;
  what the moved-from vector holds afterwards is never read and is left as it was.\<close>

fun invoke_resolve_h ::
  "('a, 'e) resolve_h \<Rightarrow> 'a val \<Rightarrow> ('a, 'e) heap \<Rightarrow> ('a, 'e) call list \<times> ('a, 'e) heap"
  where
  "invoke_resolve_h (resolve_h n (user_resolve g) j) v h =
     (let h1 = log_event (resolve_called n v) h
      in case g v of
           Inr r \<Rightarrow> ([call_resolve n r], h1)
         | Inl c \<Rightarrow> ([call_reject_h j c], h1))"
| "invoke_resolve_h (resolve_h n fail_identity j) v h = ([call_resolve n v], h)"
| "invoke_resolve_h (resolve_h n (all_resolve c res index) j) v h =
     (let (filled, h1) = apply_result c index v h
      in if filled
         then ([call_resolve res (VVec (results (contexts h1 ! c))), call_resolve n VUnit], h1)
         else ([call_resolve n VUnit], h1))"
| "invoke_resolve_h (resolve_h n (any_resolve res) j) v h =
     ([call_resolve res v, call_resolve n VUnit], h)"

text \<open>One call: the calls of its body, and the store.\<close>

fun step :: "('a, 'e) call \<Rightarrow> ('a, 'e) heap \<Rightarrow> ('a, 'e) call list \<times> ('a, 'e) heap" where
  "step (call_resolve p v) h = snd (resolve_enter p v h)"
| "step (call_reject p e) h = snd (reject_enter p e h)"
| "step (call_resolve_h rh v) h = invoke_resolve_h rh v h"
| "step (call_reject_h jh e) h = invoke_reject_h jh e h"
| "step (call_clear p) h = ([], upd_state p (\<lambda>s. s\<lparr>st_handlers := []\<rparr>) h)"

fun weight :: "('a, 'e) call \<Rightarrow> nat" where
  "weight (call_resolve_h rh v) = 4"
| "weight (call_reject_h jh e) = 3"
| "weight c = 1"

definition pending_count :: "('a, 'e) heap \<Rightarrow> nat" where
  "pending_count h = length (filter (\<lambda>s. st_status s = pending) (states h))"

lemma states_upd_state: "states (upd_state p f h) = (states h)[p := f (states h ! p)]"
  and length_states_upd_state [simp]: "length (states (upd_state p f h)) = length (states h)"
  and contexts_upd_state [simp]: "contexts (upd_state p f h) = contexts h"
  and trace_upd_state [simp]: "trace (upd_state p f h) = trace h"
  by (simp_all add: upd_state_def)

lemma nth_states_upd_state:
  "states (upd_state p f h) ! q
     = (if q = p \<and> p < length (states h) then f (states h ! p) else states h ! q)"
  by (cases "p < length (states h)")
     (auto simp: states_upd_state nth_list_update list_update_beyond)

lemma nth_states_upd_state_same [simp]:
  "p < length (states h) \<Longrightarrow> states (upd_state p f h) ! p = f (states h ! p)"
  by (simp add: nth_states_upd_state)

lemma nth_states_upd_state_other [simp]:
  "q \<noteq> p \<Longrightarrow> states (upd_state p f h) ! q = states h ! q"
  by (simp add: nth_states_upd_state)

lemma upd_state_twice: "upd_state p f (upd_state p g h) = upd_state p (\<lambda>s. f (g s)) h"
  by (cases "p < length (states h)") (simp_all add: upd_state_def list_update_beyond)

lemma states_log_event [simp]: "states (log_event ev h) = states h"
  and contexts_log_event [simp]: "contexts (log_event ev h) = contexts h"
  and trace_log_event [simp]: "trace (log_event ev h) = trace h @ [ev]"
  by (simp_all add: log_event_def)

lemma states_apply_result [simp]: "states (snd (apply_result c i v h)) = states h"
  and trace_apply_result [simp]: "trace (snd (apply_result c i v h)) = trace h"
  by (simp_all add: apply_result_def Let_def)

lemma pending_count_status:
  "pending_count h = length (filter (\<lambda>t. t = pending) (map st_status (states h)))"
proof -
  have "length (filter (\<lambda>s. st_status s = pending) xs)
        = length (filter (\<lambda>t. t = pending) (map st_status xs))" for xs :: "('a, 'b) state list"
    by (induction xs) auto
  then show ?thesis by (simp add: pending_count_def)
qed

lemma pending_count_same_status:
  "map st_status (states h') = map st_status (states h) \<Longrightarrow> pending_count h' = pending_count h"
  by (simp add: pending_count_status)

lemma map_status_upd_other:
  assumes "st_status (f (states h ! p)) = st_status (states h ! p)"
  shows "map st_status (states (upd_state p f h)) = map st_status (states h)"
proof (cases "p < length (states h)")
  case True
  then show ?thesis
    using assms by (simp add: states_upd_state map_update list_update_same_conv)
next
  case False
  then show ?thesis by (simp add: states_upd_state list_update_beyond)
qed

lemma pending_count_settle:
  assumes "p < length (states h)" "st_status (states h ! p) = pending" "st \<noteq> pending"
  shows "pending_count (upd_state p (\<lambda>s. s\<lparr>st_status := st\<rparr>) h) < pending_count h"
proof -
  let ?xs = "map st_status (states h)"
  have len: "p < length ?xs" using assms(1) by simp
  have split: "?xs = take p ?xs @ pending # drop (Suc p) ?xs"
    using assms(1,2) id_take_nth_drop[OF len] by simp
  have upd: "map st_status (states (upd_state p (\<lambda>s. s\<lparr>st_status := st\<rparr>) h))
               = take p ?xs @ st # drop (Suc p) ?xs"
    using assms(1) upd_conv_take_nth_drop[OF len, of st]
    by (simp add: states_upd_state map_update)
  have "length (filter (\<lambda>t. t = pending) (take p ?xs @ st # drop (Suc p) ?xs))
        < length (filter (\<lambda>t. t = pending) (take p ?xs @ pending # drop (Suc p) ?xs))"
    using assms(3) by simp
  then show ?thesis
    unfolding pending_count_status upd using split by simp
qed

lemma resolve_enter_decreases:
  assumes "is_pending h p"
  shows "pending_count (snd (snd (resolve_enter p v h))) < pending_count h"
proof -
  let ?h1 = "upd_state p (\<lambda>s. s\<lparr>st_storage := Some v\<rparr>) h"
  have same: "pending_count ?h1 = pending_count h"
    by (rule pending_count_same_status, rule map_status_upd_other) simp
  have "pending_count (upd_state p (\<lambda>s. s\<lparr>st_status := resolved\<rparr>) ?h1) < pending_count ?h1"
    using assms by (intro pending_count_settle) (simp_all add: is_pending_def)
  then show ?thesis
    using assms same by (simp add: resolve_enter_def Let_def)
qed

lemma reject_enter_decreases:
  assumes "is_pending h p"
  shows "pending_count (snd (snd (reject_enter p e h))) < pending_count h"
proof -
  let ?h1 = "upd_state p (\<lambda>s. s\<lparr>st_exception := e\<rparr>) h"
  have same: "pending_count ?h1 = pending_count h"
    by (rule pending_count_same_status, rule map_status_upd_other) simp
  have "pending_count (upd_state p (\<lambda>s. s\<lparr>st_status := rejected\<rparr>) ?h1) < pending_count ?h1"
    using assms by (intro pending_count_settle) (simp_all add: is_pending_def)
  then show ?thesis
    using assms same by (simp add: reject_enter_def Let_def)
qed

lemma step_decreases:
  assumes "step c h = (cs, h')"
  shows "pending_count h' < pending_count h
         \<or> (pending_count h' = pending_count h \<and> sum_list (map weight cs) < weight c)"
proof (cases c)
  case (call_resolve p v)
  show ?thesis
  proof (cases "is_pending h p")
    case True
    then show ?thesis
      using assms call_resolve resolve_enter_decreases[of h p v] by simp
  next
    case False
    then show ?thesis using assms call_resolve by (auto simp: resolve_enter_def)
  qed
next
  case (call_reject p e)
  show ?thesis
  proof (cases "is_pending h p")
    case True
    then show ?thesis
      using assms call_reject reject_enter_decreases[of h p e] by simp
  next
    case False
    then show ?thesis using assms call_reject by (auto simp: reject_enter_def)
  qed
next
  case (call_resolve_h rh v)
  obtain n f j where rh: "rh = resolve_h n f j" by (cases rh)
  show ?thesis
    using assms call_resolve_h rh
    by (cases f)
       (auto simp: Let_def log_event_def apply_result_def pending_count_def
             split: sum.splits if_splits prod.splits)
next
  case (call_reject_h jh e)
  obtain n f where jh: "jh = reject_h n f" by (cases jh)
  show ?thesis
    using assms call_reject_h jh
    by (cases f) (auto simp: Let_def log_event_def pending_count_def split: option.splits)
next
  case (call_clear p)
  have "pending_count (upd_state p (\<lambda>s. s\<lparr>st_handlers := []\<rparr>) h) = pending_count h"
    by (rule pending_count_same_status, rule map_status_upd_other) simp
  then show ?thesis using assms call_clear by auto
qed

text \<open>The call stack: the first call runs, the calls of its body come before the rest.\<close>

function run :: "('a, 'e) call list \<Rightarrow> ('a, 'e) heap \<Rightarrow> ('a, 'e) heap" where
  "run [] h = h"
| "run (c # cs) h = (case step c h of (body, h') \<Rightarrow> run (body @ cs) h')"
  by pat_completeness auto
termination
proof (relation "measures [\<lambda>(cs, h). pending_count h, \<lambda>(cs, h). sum_list (map weight cs)]",
    goal_cases)
  case 1
  show ?case by simp
next
  case (2 c cs h body h')
  then have "step c h = (body, h')" by simp
  from step_decreases[OF this] show ?case by auto
qed

subsection \<open>The operations of a promise\<close>

text \<open>\<^verbatim>\<open>promise::resolve\<close> and \<^verbatim>\<open>promise::reject\<close> delegate to the state: the guard, the
  stores, the handlers (run to completion), and the flag.\<close>

definition resolve :: "addr \<Rightarrow> 'a val \<Rightarrow> ('a, 'e) heap \<Rightarrow> bool \<times> ('a, 'e) heap" where
  "resolve p v h = (case resolve_enter p v h of (ok, body, h') \<Rightarrow> (ok, run body h'))"

definition reject :: "addr \<Rightarrow> 'e exception_ptr \<Rightarrow> ('a, 'e) heap \<Rightarrow> bool \<times> ('a, 'e) heap" where
  "reject p e h = (case reject_enter p e h of (ok, body, h') \<Rightarrow> (ok, run body h'))"

text \<open>\<^verbatim>\<open>add_handlers_\<close>: a settled state invokes the matching closure at once, a pending one
  appends the pair to \<^verbatim>\<open>handlers_\<close>.\<close>

definition add_handlers ::
  "addr \<Rightarrow> ('a, 'e) resolve_h \<Rightarrow> ('a, 'e) reject_h \<Rightarrow> ('a, 'e) heap \<Rightarrow> ('a, 'e) heap" where
  "add_handlers p rh jh h =
     (let s = states h ! p
      in if st_status s = resolved then
           (case st_storage s of None \<Rightarrow> h | Some v \<Rightarrow> run [call_resolve_h rh v] h)
         else if st_status s = rejected then run [call_reject_h jh (st_exception s)] h
         else upd_state p
                (\<lambda>s. s\<lparr>st_handlers := st_handlers s @ [\<lparr>h_resolve = rh, h_reject = jh\<rparr>]\<rparr>) h)"

text \<open>\<^verbatim>\<open>state::attach(next, resolve, reject)\<close>: builds \<^verbatim>\<open>reject_h\<close> and \<^verbatim>\<open>resolve_h\<close> (which
  holds a copy of \<^verbatim>\<open>reject_h\<close>) and adds them.\<close>

definition attach ::
  "addr \<Rightarrow> addr \<Rightarrow> ('a, 'e) resolve_f \<Rightarrow> ('a, 'e) reject_f \<Rightarrow> ('a, 'e) heap \<Rightarrow> ('a, 'e) heap"
  where
  "attach p n f r h = add_handlers p (resolve_h n f (reject_h n r)) (reject_h n r) h"

text \<open>\<^verbatim>\<open>then(on_resolve, on_reject)\<close>, \<^verbatim>\<open>then(on_resolve)\<close> and \<^verbatim>\<open>fail(on_reject)\<close>.\<close>

definition then2 ::
  "addr \<Rightarrow> ('a, 'e) resolve_f \<Rightarrow> ('a, 'e) reject_f \<Rightarrow> ('a, 'e) heap \<Rightarrow> addr \<times> ('a, 'e) heap"
  where
  "then2 p on_resolve on_reject h =
     (case new_promise h of (next, h1) \<Rightarrow> (next, attach p next on_resolve on_reject h1))"

definition then1 ::
  "addr \<Rightarrow> ('a, 'e) resolve_f \<Rightarrow> ('a, 'e) heap \<Rightarrow> addr \<times> ('a, 'e) heap" where
  "then1 p on_resolve h = then2 p on_resolve then_default h"

definition fail ::
  "addr \<Rightarrow> ('a, 'e) reject_f \<Rightarrow> ('a, 'e) heap \<Rightarrow> addr \<times> ('a, 'e) heap" where
  "fail p on_reject h = then2 p fail_identity on_reject h"

subsection \<open>Factories and combinators\<close>

text \<open>\<^verbatim>\<open>make_promise(f)\<close>. The initiator receives \<^verbatim>\<open>resolver\<close> and \<^verbatim>\<open>rejector\<close>, two closures
  over \<^verbatim>\<open>result\<close>: here it receives the address of \<^verbatim>\<open>result\<close>. It returns \<open>Some c\<close> when it
  raises \<open>c\<close>.\<close>

definition make_promise ::
  "(addr \<Rightarrow> ('a, 'e) heap \<Rightarrow> 'e exception_ptr option \<times> ('a, 'e) heap) \<Rightarrow> ('a, 'e) heap
   \<Rightarrow> addr \<times> ('a, 'e) heap" where
  "make_promise f h =
     (case new_promise h of
        (result, h1) \<Rightarrow>
          (case f result h1 of
             (None, h2) \<Rightarrow> (result, h2)
           | (Some c, h2) \<Rightarrow> (result, snd (reject result c h2))))"

text \<open>An initiator that calls \<^verbatim>\<open>resolver\<close> and \<^verbatim>\<open>rejector\<close> some number of times, and then
  returns or raises.\<close>

datatype ('a, 'e) action = do_resolve "'a val" | do_reject "'e exception_ptr"

fun perform :: "('a, 'e) action list \<Rightarrow> addr \<Rightarrow> ('a, 'e) heap \<Rightarrow> ('a, 'e) heap" where
  "perform [] result h = h"
| "perform (do_resolve v # as) result h = perform as result (snd (resolve result v h))"
| "perform (do_reject e # as) result h = perform as result (snd (reject result e h))"

definition initiator ::
  "('a, 'e) action list \<Rightarrow> 'e exception_ptr option \<Rightarrow> addr \<Rightarrow> ('a, 'e) heap
   \<Rightarrow> 'e exception_ptr option \<times> ('a, 'e) heap" where
  "initiator as raised result h = (raised, perform as result h)"

definition make_resolved_promise :: "'a val \<Rightarrow> ('a, 'e) heap \<Rightarrow> addr \<times> ('a, 'e) heap" where
  "make_resolved_promise v h =
     (case new_promise h of (result, h1) \<Rightarrow> (result, snd (resolve result v h1)))"

definition make_rejected_promise ::
  "'e exception_ptr \<Rightarrow> ('a, 'e) heap \<Rightarrow> addr \<times> ('a, 'e) heap" where
  "make_rejected_promise e h =
     (case new_promise h of (result, h1) \<Rightarrow> (result, snd (reject result e h1)))"

text \<open>\<^verbatim>\<open>std::make_shared<context_t>(count)\<close>: \<^verbatim>\<open>results(count)\<close> holds \<open>count\<close> values
  made by the default constructor of the payload type, which is the parameter \<open>dflt\<close>.\<close>

definition new_context :: "nat \<Rightarrow> 'a val \<Rightarrow> ('a, 'e) heap \<Rightarrow> nat \<times> ('a, 'e) heap" where
  "new_context count dflt h =
     (length (contexts h),
      h\<lparr>contexts := contexts h @ [\<lparr>results = replicate count dflt, counter = 0\<rparr>]\<rparr>)"

text \<open>The loop of \<^verbatim>\<open>make_all_promise\<close> over the inputs:
  \<^verbatim>\<open>(*iter).then([context, resolver, result_index](v) {...}).fail([rejector](e) {...})\<close>.\<close>

fun make_all_loop ::
  "nat \<Rightarrow> addr \<Rightarrow> nat \<Rightarrow> addr list \<Rightarrow> ('a, 'e) heap \<Rightarrow> ('a, 'e) heap" where
  "make_all_loop context res result_index [] h = h"
| "make_all_loop context res result_index (p # ps) h =
     (case then1 p (all_resolve context res result_index) h of
        (n1, h1) \<Rightarrow>
          (case fail n1 (forward_reject res) h1 of
             (n2, h2) \<Rightarrow> make_all_loop context res (Suc result_index) ps h2))"

definition make_all_promise ::
  "'a val \<Rightarrow> addr list \<Rightarrow> ('a, 'e) heap \<Rightarrow> addr \<times> ('a, 'e) heap" where
  "make_all_promise dflt ps h =
     (if ps = [] then make_resolved_promise (VVec []) h
      else make_promise
             (\<lambda>res h0. case new_context (length ps) dflt h0 of
                          (context, h1) \<Rightarrow> (None, make_all_loop context res 0 ps h1)) h)"

text \<open>The loop of \<^verbatim>\<open>make_any_promise\<close>:
  \<^verbatim>\<open>(*iter).then([resolver](v) { resolver(v); }).fail([rejector](e) { rejector(e); })\<close>.\<close>

fun make_any_loop :: "addr \<Rightarrow> addr list \<Rightarrow> ('a, 'e) heap \<Rightarrow> ('a, 'e) heap" where
  "make_any_loop res [] h = h"
| "make_any_loop res (p # ps) h =
     (case then1 p (any_resolve res) h of
        (n1, h1) \<Rightarrow>
          (case fail n1 (forward_reject res) h1 of
             (n2, h2) \<Rightarrow> make_any_loop res ps h2))"

text \<open>\<^verbatim>\<open>make_any_promise\<close> throws \<^verbatim>\<open>std::logic_error\<close> to its caller on an empty range.\<close>

definition make_any_promise ::
  "addr list \<Rightarrow> ('a, 'e) heap \<Rightarrow> 'e exception_ptr + addr \<times> ('a, 'e) heap" where
  "make_any_promise ps h =
     (if ps = []
      then Inl (logic_error ''at least one input promise must be provided for make_any_promise'')
      else Inr (make_promise (\<lambda>res h0. (None, make_any_loop res ps h0)) h))"

subsection \<open>Observations, references and well-formed stores\<close>

text \<open>What a caller can observe of a promise: its status, the stored value and the stored
  error.\<close>

definition outcome ::
  "('a, 'e) heap \<Rightarrow> addr \<Rightarrow> status \<times> 'a val option \<times> 'e exception_ptr" where
  "outcome h p = (st_status (states h ! p), st_storage (states h ! p), st_exception (states h ! p))"

text \<open>The states and contexts that a closure or a pending call holds a handle to.\<close>

datatype ref = State addr | Ctx nat

fun reject_f_refs :: "('a, 'e) reject_f \<Rightarrow> ref list" where
  "reject_f_refs (forward_reject res) = [State res]"
| "reject_f_refs (user_reject g) = []"
| "reject_f_refs then_default = []"

fun reject_h_refs :: "('a, 'e) reject_h \<Rightarrow> ref list" where
  "reject_h_refs (reject_h n f) = State n # reject_f_refs f"

fun resolve_f_refs :: "('a, 'e) resolve_f \<Rightarrow> ref list" where
  "resolve_f_refs (all_resolve c res i) = [Ctx c, State res]"
| "resolve_f_refs (any_resolve res) = [State res]"
| "resolve_f_refs (user_resolve g) = []"
| "resolve_f_refs fail_identity = []"

fun resolve_h_refs :: "('a, 'e) resolve_h \<Rightarrow> ref list" where
  "resolve_h_refs (resolve_h n f j) = State n # resolve_f_refs f @ reject_h_refs j"

definition handler_refs :: "('a, 'e) handler \<Rightarrow> ref list" where
  "handler_refs x = resolve_h_refs (h_resolve x) @ reject_h_refs (h_reject x)"

fun call_refs :: "('a, 'e) call \<Rightarrow> ref list" where
  "call_refs (call_resolve p v) = [State p]"
| "call_refs (call_reject p e) = [State p]"
| "call_refs (call_resolve_h rh v) = resolve_h_refs rh"
| "call_refs (call_reject_h jh e) = reject_h_refs jh"
| "call_refs (call_clear p) = [State p]"

fun ev_addr :: "('a, 'e) event \<Rightarrow> addr" where
  "ev_addr (resolve_called n v) = n"
| "ev_addr (reject_called n e) = n"

text \<open>A store is well formed when the handlers queued on its pending states hold handles to
  states and contexts of the store only, and the trace names states of the store only. The
  empty store is well formed and every operation keeps a store well formed.\<close>

definition ref_ok :: "('a, 'e) heap \<Rightarrow> ref \<Rightarrow> bool" where
  "ref_ok h r = (case r of State p \<Rightarrow> p < length (states h) | Ctx c \<Rightarrow> c < length (contexts h))"

definition wf_heap :: "('a, 'e) heap \<Rightarrow> bool" where
  "wf_heap h =
     ((\<forall>p < length (states h). st_status (states h ! p) = pending \<longrightarrow>
         (\<forall>x \<in> set (st_handlers (states h ! p)). \<forall>r \<in> set (handler_refs x). ref_ok h r))
      \<and> (\<forall>ev \<in> set (trace h). ev_addr ev < length (states h)))"

text \<open>Framing: a set \<open>A\<close> of references that neither the pending calls nor the handlers
  queued on pending states outside \<open>A\<close> hold is not touched by running the calls.\<close>

definition heap_avoids :: "ref set \<Rightarrow> ('a, 'e) heap \<Rightarrow> bool" where
  "heap_avoids A h =
     (\<forall>p < length (states h). State p \<notin> A \<longrightarrow> st_status (states h ! p) = pending \<longrightarrow>
        (\<forall>x \<in> set (st_handlers (states h ! p)). \<forall>r \<in> set (handler_refs x). r \<notin> A))"

definition calls_avoid :: "ref set \<Rightarrow> ('a, 'e) call list \<Rightarrow> bool" where
  "calls_avoid A cs = (\<forall>c \<in> set cs. \<forall>r \<in> set (call_refs c). r \<notin> A)"

definition untouched :: "ref set \<Rightarrow> ('a, 'e) heap \<Rightarrow> ('a, 'e) heap \<Rightarrow> bool" where
  "untouched A h h' =
     ((\<forall>p. State p \<in> A \<longrightarrow> states h' ! p = states h ! p)
      \<and> (\<forall>c. Ctx c \<in> A \<longrightarrow> contexts h' ! c = contexts h ! c)
      \<and> (\<exists>evs. trace h' = trace h @ evs \<and> (\<forall>ev \<in> set evs. State (ev_addr ev) \<notin> A)))"

text \<open>A store with one fresh promise, at address 0, for the examples.\<close>

definition one_promise :: "(int, string) heap" where
  "one_promise = snd (new_promise empty_heap)"

definition events_of :: "addr \<Rightarrow> ('a, 'e) heap \<Rightarrow> ('a, 'e) event list" where
  "events_of n h = filter (\<lambda>ev. ev_addr ev = n) (trace h)"

definition then_handler ::
  "addr \<Rightarrow> ('a, 'e) resolve_f \<Rightarrow> ('a, 'e) reject_f \<Rightarrow> ('a, 'e) handler" where
  "then_handler n f g = \<lparr>h_resolve = resolve_h n f (reject_h n g), h_reject = reject_h n g\<rparr>"

definition fresh_at :: "addr \<Rightarrow> ('a, 'e) heap \<Rightarrow> bool" where
  "fresh_at n h = (n < length (states h) \<and> states h ! n = new_state \<and> events_of n h = [])"

definition same_at :: "addr \<Rightarrow> ('a, 'e) heap \<Rightarrow> ('a, 'e) heap \<Rightarrow> bool" where
  "same_at n h h' = (outcome h n = outcome h' n \<and> events_of n h = events_of n h')"

definition resolved_promise :: "(int, string) heap" where
  "resolved_promise = snd (resolve 0 (VAtom 7) one_promise)"

definition rejected_promise :: "(int, string) heap" where
  "rejected_promise = snd (reject 0 (thrown ''boom'') one_promise)"

text \<open>A sequence of \<open>then(on_resolve, on_reject)\<close> on one promise, with callbacks of the user.\<close>

type_synonym ('a, 'e) callbacks =
  "('a val \<Rightarrow> 'e exception_ptr + 'a val) \<times> ('e exception_ptr \<Rightarrow> 'e exception_ptr option)"

fun then2_all ::
  "addr \<Rightarrow> ('a, 'e) callbacks list \<Rightarrow> ('a, 'e) heap \<Rightarrow> addr list \<times> ('a, 'e) heap" where
  "then2_all p [] h = ([], h)"
| "then2_all p ((f, g) # cbs) h =
     (case then2 p (user_resolve f) (user_reject g) h of
        (n, h1) \<Rightarrow> (case then2_all p cbs h1 of (ns, h2) \<Rightarrow> (n # ns, h2)))"

text \<open>The calls of callbacks that one continuation makes when it fires: with a value,
  \<open>on_resolve\<close> is called and, if it raises, \<open>on_reject\<close> after it; with an error,
  \<open>on_reject\<close> is called.\<close>

fun fired_on_resolve :: "'a val \<Rightarrow> addr \<times> ('a, 'e) callbacks \<Rightarrow> ('a, 'e) event list" where
  "fired_on_resolve v (n, f, g) =
     resolve_called n v # (case f v of Inl c \<Rightarrow> [reject_called n c] | Inr r \<Rightarrow> [])"

fun fired_on_reject :: "'e exception_ptr \<Rightarrow> addr \<times> ('a, 'e) callbacks \<Rightarrow> ('a, 'e) event list"
  where
  "fired_on_reject e (n, f, g) = [reject_called n e]"

text \<open>The calls of the callbacks of the continuations created at address \<open>k\<close> or later.\<close>

definition events_from :: "addr \<Rightarrow> ('a, 'e) heap \<Rightarrow> ('a, 'e) event list" where
  "events_from k h = filter (\<lambda>ev. k \<le> ev_addr ev) (trace h)"

fun queued :: "addr \<Rightarrow> ('a, 'e) callbacks list \<Rightarrow> ('a, 'e) handler list" where
  "queued k [] = []"
| "queued k ((f, g) # cbs) = then_handler k (user_resolve f) (user_reject g) # queued (Suc k) cbs"

definition two_callbacks :: "(int, string) callbacks list" where
  "two_callbacks = [(\<lambda>v. Inr v, \<lambda>e. None), (\<lambda>v. Inl (thrown ''bad''), \<lambda>e. None)]"

text \<open>The inputs of a combinator are settled only by calls of \<open>resolve\<close> and \<open>reject\<close> on
  them: no handler queued on a pending state holds a handle to an input.\<close>

definition no_handler_refers :: "('a, 'e) heap \<Rightarrow> addr list \<Rightarrow> bool" where
  "no_handler_refers h ps =
     (\<forall>q < length (states h). st_status (states h ! q) = pending \<longrightarrow>
        (\<forall>x \<in> set (st_handlers (states h ! q)). \<forall>r \<in> set (handler_refs x).
           r \<notin> State ` set ps))"

text \<open>The two loops are one loop, over the callback handed to \<open>then\<close> in round \<open>i\<close>.\<close>

fun rounds ::
  "(nat \<Rightarrow> ('a, 'e) resolve_f) \<Rightarrow> addr \<Rightarrow> nat \<Rightarrow> addr list \<Rightarrow> ('a, 'e) heap \<Rightarrow> ('a, 'e) heap"
  where
  "rounds F res i [] h = h"
| "rounds F res i (p # ps) h =
     rounds F res (Suc i) ps
       (snd (fail (fst (then1 p (F i) h)) (forward_reject res) (snd (then1 p (F i) h))))"

text \<open>The handlers that the loop appends to the queue of \<open>q\<close>, and the states it allocates,
  when every input is pending: round \<open>i\<close> allocates \<open>n1\<close> at \<open>L\<close> and \<open>n2\<close> at \<open>L + 1\<close>.\<close>

fun attached ::
  "(nat \<Rightarrow> ('a, 'e) resolve_f) \<Rightarrow> addr \<Rightarrow> nat \<Rightarrow> addr \<Rightarrow> addr list \<Rightarrow> ('a, 'e) handler list"
  where
  "attached F q i L [] = []"
| "attached F q i L (p # ps) =
     (if p = q then [then_handler L (F i) then_default] else [])
     @ attached F q (Suc i) (Suc (Suc L)) ps"

fun fresh_pairs :: "addr \<Rightarrow> addr \<Rightarrow> nat \<Rightarrow> ('a, 'e) state list" where
  "fresh_pairs res L 0 = []"
| "fresh_pairs res L (Suc m) =
     [new_state\<lparr>st_handlers := [then_handler (Suc L) fail_identity (forward_reject res)]\<rparr>,
      new_state] @ fresh_pairs res (Suc (Suc L)) m"

text \<open>What belongs to a combinator called on the inputs \<open>ps\<close> in the store \<open>h\<close>: the inputs, and
  every state and context allocated after \<open>h\<close>.\<close>

definition private_refs :: "('a, 'e) heap \<Rightarrow> addr list \<Rightarrow> ref set" where
  "private_refs h ps = {r. \<not> ref_ok h r} \<union> State ` set ps"

text \<open>A store with two fresh promises, at 0 and 1; and the store in which promise 1 has been
  rejected first and promise 0 resolved after it.\<close>

definition two_promises :: "(int, string) heap" where
  "two_promises = snd (new_promise one_promise)"

definition settled_pair :: "(int, string) heap" where
  "settled_pair = snd (resolve 0 (VAtom 7) (snd (reject 1 (thrown ''boom'') two_promises)))"

text \<open>The state of a join between calls: \<open>R\<close> is the set of the inputs (by position) that have
  resolved so far, input \<open>i\<close> with the value \<open>vs ! i\<close>. \<open>h0\<close> is the store in which
  \<open>make_all_promise\<close> was called.\<close>

definition all_inv ::
  "('a, 'e) heap \<Rightarrow> 'a val \<Rightarrow> addr list \<Rightarrow> 'a val list \<Rightarrow> nat set \<Rightarrow> ('a, 'e) heap \<Rightarrow> bool"
  where
  "all_inv h0 dflt ps vs R h =
     (length (states h) = Suc (length (states h0)) + 2 * length ps
      \<and> length (contexts h0) < length (contexts h)
      \<and> contexts h ! length (contexts h0)
          = \<lparr>results = map (\<lambda>i. if i \<in> R then vs ! i else dflt) [0 ..< length ps],
             counter = card R\<rparr>
      \<and> heap_avoids (private_refs h0 ps) h
      \<and> (\<forall>i < length ps. i \<notin> R \<longrightarrow>
            states h ! (ps ! i)
              = (states h0 ! (ps ! i))\<lparr>st_handlers := st_handlers (states h0 ! (ps ! i))
                  @ [then_handler (Suc (length (states h0)) + 2 * i)
                       (all_resolve (length (contexts h0)) (length (states h0)) i) then_default]\<rparr>
          \<and> states h ! (Suc (length (states h0)) + 2 * i)
              = new_state\<lparr>st_handlers :=
                  [then_handler (Suc (Suc (length (states h0)) + 2 * i)) fail_identity
                     (forward_reject (length (states h0)))]\<rparr>
          \<and> states h ! Suc (Suc (length (states h0)) + 2 * i) = new_state)
      \<and> (if R = {..< length ps}
          then outcome h (length (states h0)) = (resolved, Some (VVec vs), nullptr)
          else states h ! length (states h0) = new_state))"

text \<open>The inputs resolve one after the other, in the order \<open>ord\<close> of their positions, input
  \<open>i\<close> with \<open>vs ! i\<close>.\<close>

fun resolve_all :: "addr list \<Rightarrow> 'a val list \<Rightarrow> nat list \<Rightarrow> ('a, 'e) heap \<Rightarrow> ('a, 'e) heap" where
  "resolve_all ps vs [] h = h"
| "resolve_all ps vs (i # ord) h = resolve_all ps vs ord (snd (resolve (ps ! i) (vs ! i) h))"

text \<open>The join of \<open>make_all_promise\<close> in a store that other promises share. The call was made
  in a store of \<open>k\<close> states and \<open>c\<close> contexts: the output is the state \<open>k\<close>, the context is
  \<open>c\<close>, round \<open>j\<close> allocated the states \<open>k + 1 + 2 * j\<close> and \<open>k + 2 + 2 * j\<close>. What the store held
  before is old.\<close>

definition old_ref :: "nat \<Rightarrow> nat \<Rightarrow> ref \<Rightarrow> bool" where
  "old_ref k c r = (case r of State p \<Rightarrow> p < k | Ctx c' \<Rightarrow> c' < c)"

text \<open>The pair of closures that round \<open>j\<close> queues on its input when the input is pending.\<close>

definition join_handler :: "nat \<Rightarrow> nat \<Rightarrow> nat \<Rightarrow> ('a, 'e) handler" where
  "join_handler k c j = then_handler (Suc k + 2 * j) (all_resolve c k j) then_default"

text \<open>The calls of these closures, once the input is settled.\<close>

fun is_entry :: "nat \<Rightarrow> nat \<Rightarrow> nat \<Rightarrow> ('a, 'e) call \<Rightarrow> bool" where
  "is_entry k c j (call_resolve_h rh v) = (rh = h_resolve (join_handler k c j))"
| "is_entry k c j (call_reject_h jh e) = (jh = h_reject (join_handler k c j))"
| "is_entry k c j (call_resolve p v) = False"
| "is_entry k c j (call_reject p e) = False"
| "is_entry k c j (call_clear p) = False"

text \<open>How often the closures of round \<open>j\<close> are still to run: queued on the pending input, or
  called on the stack.\<close>

definition tok ::
  "nat \<Rightarrow> nat \<Rightarrow> addr list \<Rightarrow> nat \<Rightarrow> ('a, 'e) call list \<Rightarrow> ('a, 'e) heap \<Rightarrow> nat" where
  "tok k c ps j cs h =
     length (filter (is_entry k c j) cs)
     + (if is_pending h (ps ! j) then count_list (st_handlers (states h ! (ps ! j))) (join_handler k c j)
        else 0)"

text \<open>Round \<open>j\<close> waits for its input: its closures are to run once, with the outcome of the
  input if they are on the stack, and its two states are as the round left them.\<close>

definition waiting ::
  "nat \<Rightarrow> nat \<Rightarrow> addr list \<Rightarrow> nat \<Rightarrow> ('a, 'e) call list \<Rightarrow> ('a, 'e) heap \<Rightarrow> bool" where
  "waiting k c ps j cs h =
     (tok k c ps j cs h = 1
      \<and> states h ! (Suc k + 2 * j)
          = new_state\<lparr>st_handlers :=
              [then_handler (Suc (Suc k + 2 * j)) fail_identity (forward_reject k)]\<rparr>
      \<and> states h ! Suc (Suc k + 2 * j) = new_state
      \<and> (\<forall>v. call_resolve_h (h_resolve (join_handler k c j)) v \<in> set cs \<longrightarrow>
            st_status (states h ! (ps ! j)) = resolved \<and> st_storage (states h ! (ps ! j)) = Some v)
      \<and> (\<forall>e. call_reject_h (h_reject (join_handler k c j)) e \<in> set cs \<longrightarrow>
            st_status (states h ! (ps ! j)) = rejected \<and> st_exception (states h ! (ps ! j)) = e))"

text \<open>The state of the join after \<open>m\<close> rounds, with the calls \<open>cs\<close> on the stack: \<open>R\<close> are the
  rounds whose input has resolved and whose value is in the buffer, \<open>D\<close> the rounds whose input
  has rejected and has been forwarded to the output. Every other round waits, or its input was
  resolved without a value at the call. The calls on the stack and the handlers queued on the
  pending old states are old, or closures of the join.\<close>

definition join_inv ::
  "nat \<Rightarrow> nat \<Rightarrow> addr list \<Rightarrow> nat \<Rightarrow> nat set \<Rightarrow> nat set \<Rightarrow> ('a, 'e) call list \<Rightarrow> ('a, 'e) heap
   \<Rightarrow> bool" where
  "join_inv k c ps m R D cs h =
     (m \<le> length ps \<and> R \<subseteq> {..< m} \<and> D \<subseteq> {..< m} \<and> R \<inter> D = {}
      \<and> length (states h) = Suc k + 2 * m \<and> c < length (contexts h)
      \<and> (\<forall>x \<in> set cs. (\<forall>r \<in> set (call_refs x). old_ref k c r) \<or> (\<exists>j < m. is_entry k c j x))
      \<and> (\<forall>p. call_clear p \<in> set cs \<longrightarrow> \<not> is_pending h p)
      \<and> (\<forall>q < k. is_pending h q \<longrightarrow>
            (\<forall>x \<in> set (st_handlers (states h ! q)).
               (\<forall>r \<in> set (handler_refs x). old_ref k c r)
               \<or> (\<exists>j < m. x = join_handler k c j \<and> ps ! j = q)))
      \<and> length (results (contexts h ! c)) = length ps \<and> counter (contexts h ! c) = card R
      \<and> (\<forall>j \<in> R. st_status (states h ! (ps ! j)) = resolved
                  \<and> st_storage (states h ! (ps ! j)) = Some (results (contexts h ! c) ! j)
                  \<and> tok k c ps j cs h = 0)
      \<and> (\<forall>j \<in> D. st_status (states h ! (ps ! j)) = rejected \<and> tok k c ps j cs h = 0)
      \<and> (\<forall>j < m. j \<notin> R \<longrightarrow> j \<notin> D \<longrightarrow>
            waiting k c ps j cs h
            \<or> (st_status (states h ! (ps ! j)) = resolved \<and> st_storage (states h ! (ps ! j)) = None
               \<and> tok k c ps j cs h = 0))
      \<and> (if D \<noteq> {}
          then st_status (states h ! k) = rejected \<and> st_storage (states h ! k) = None
               \<and> (\<exists>j \<in> D. st_exception (states h ! k) = st_exception (states h ! (ps ! j)))
          else if R = {..< length ps}
          then outcome h k = (resolved, Some (VVec (results (contexts h ! c))), nullptr)
          else states h ! k = new_state))"

text \<open>Calls of \<open>resolve\<close> and \<open>reject\<close> on promises of the store, one after the other.\<close>

fun settle_calls :: "(addr \<times> ('a, 'e) action) list \<Rightarrow> ('a, 'e) heap \<Rightarrow> ('a, 'e) heap" where
  "settle_calls [] h = h"
| "settle_calls ((p, do_resolve v) # ops) h = settle_calls ops (snd (resolve p v h))"
| "settle_calls ((p, do_reject e) # ops) h = settle_calls ops (snd (reject p e h))"

text \<open>A store with promise 0 resolved and promise 1 fresh; and a store in which promise 1 is
  the result of \<open>then\<close> on the pending promise 0.\<close>

definition half_settled :: "(int, string) heap" where
  "half_settled = snd (new_promise resolved_promise)"

definition chained :: "(int, string) heap" where
  "chained = snd (then1 0 (user_resolve (\<lambda>v. Inr (VVec [v]))) one_promise)"

section \<open>Lemmas\<close>

subsection \<open>The call stack\<close>

lemma run_append: "run (cs @ ds) h = run ds (run cs h)"
proof (induction cs h rule: run.induct)
  case (1 h)
  show ?case by simp
next
  case (2 c cs h)
  obtain body h' where st: "step c h = (body, h')" by (cases "step c h")
  from 2[OF st [symmetric]] st show ?case by simp
qed

lemma length_resolve_enter [simp]:
  "length (states (snd (snd (resolve_enter p v h)))) = length (states h)"
  "contexts (snd (snd (resolve_enter p v h))) = contexts h"
  "trace (snd (snd (resolve_enter p v h))) = trace h"
  by (simp_all add: resolve_enter_def Let_def)

lemma length_reject_enter [simp]:
  "length (states (snd (snd (reject_enter p e h)))) = length (states h)"
  "contexts (snd (snd (reject_enter p e h))) = contexts h"
  "trace (snd (snd (reject_enter p e h))) = trace h"
  by (simp_all add: reject_enter_def Let_def)

lemma length_contexts_apply_result [simp]:
  "length (contexts (snd (apply_result c i v h))) = length (contexts h)"
  by (simp add: apply_result_def Let_def)

lemma states_invoke_resolve_h [simp]: "states (snd (invoke_resolve_h rh v h)) = states h"
  by (induction rh v h rule: invoke_resolve_h.induct)
     (simp_all add: Let_def split: sum.splits prod.splits, (metis snd_conv states_apply_result(1))+)

lemma states_invoke_reject_h [simp]: "states (snd (invoke_reject_h jh e h)) = states h"
  by (induction jh e h rule: invoke_reject_h.induct) (simp_all add: Let_def split: option.splits)

lemma length_states_step: "length (states (snd (step c h))) = length (states h)"
  by (cases c) (simp_all add: split_beta)

lemma length_states_run [simp]: "length (states (run cs h)) = length (states h)"
proof (induction cs h rule: run.induct)
  case (1 h)
  show ?case by simp
next
  case (2 c cs h)
  obtain body h' where st: "step c h = (body, h')" by (cases "step c h")
  from 2[OF st [symmetric]] st length_states_step[of c h] show ?case by simp
qed

lemma untouched_refl [simp]: "untouched A h h"
  by (simp add: untouched_def)

lemma untouched_trans:
  assumes "untouched A h h1" "untouched A h1 h2"
  shows "untouched A h h2"
proof -
  obtain evs1 where 1: "trace h1 = trace h @ evs1" "\<forall>ev \<in> set evs1. State (ev_addr ev) \<notin> A"
    using assms(1) unfolding untouched_def by blast
  obtain evs2 where 2: "trace h2 = trace h1 @ evs2" "\<forall>ev \<in> set evs2. State (ev_addr ev) \<notin> A"
    using assms(2) unfolding untouched_def by blast
  have "trace h2 = trace h @ (evs1 @ evs2) \<and> (\<forall>ev \<in> set (evs1 @ evs2). State (ev_addr ev) \<notin> A)"
    using 1 2 by auto
  then have "\<exists>evs. trace h2 = trace h @ evs \<and> (\<forall>ev \<in> set evs. State (ev_addr ev) \<notin> A)"
    by blast
  moreover have "\<forall>p. State p \<in> A \<longrightarrow> states h2 ! p = states h ! p"
    using assms unfolding untouched_def by simp
  moreover have "\<forall>c. Ctx c \<in> A \<longrightarrow> contexts h2 ! c = contexts h ! c"
    using assms unfolding untouched_def by simp
  ultimately show ?thesis unfolding untouched_def by blast
qed

lemma calls_avoid_simps [simp]:
  "calls_avoid A []"
  "calls_avoid A (c # cs) = ((\<forall>r \<in> set (call_refs c). r \<notin> A) \<and> calls_avoid A cs)"
  "calls_avoid A (cs @ ds) = (calls_avoid A cs \<and> calls_avoid A ds)"
  by (auto simp: calls_avoid_def)

lemma resolve_enter_pending:
  assumes "is_pending h p"
  shows "resolve_enter p v h =
           (True,
            map (\<lambda>x. call_resolve_h (h_resolve x) v) (st_handlers (states h ! p)) @ [call_clear p],
            upd_state p (\<lambda>s. s\<lparr>st_storage := Some v, st_status := resolved\<rparr>) h)"
  using assms
  by (simp add: resolve_enter_def Let_def invoke_resolve_handlers_def upd_state_twice is_pending_def)

lemma reject_enter_pending:
  assumes "is_pending h p"
  shows "reject_enter p e h =
           (True,
            map (\<lambda>x. call_reject_h (h_reject x) e) (st_handlers (states h ! p)) @ [call_clear p],
            upd_state p (\<lambda>s. s\<lparr>st_exception := e, st_status := rejected\<rparr>) h)"
  using assms
  by (simp add: reject_enter_def Let_def invoke_reject_handlers_def upd_state_twice is_pending_def)

lemma resolve_enter_settled: "\<not> is_pending h p \<Longrightarrow> resolve_enter p v h = (False, [], h)"
  by (simp add: resolve_enter_def)

lemma reject_enter_settled: "\<not> is_pending h p \<Longrightarrow> reject_enter p e h = (False, [], h)"
  by (simp add: reject_enter_def)

lemma heap_avoids_settle:
  assumes "heap_avoids A h" "st_status (f (states h ! p)) \<noteq> pending"
  shows "heap_avoids A (upd_state p f h)"
  unfolding heap_avoids_def
proof (intro allI impI)
  fix q
  assume q: "q < length (states (upd_state p f h))" "State q \<notin> A"
    "st_status (states (upd_state p f h) ! q) = pending"
  have "q \<noteq> p" using q(1,3) assms(2) by (auto simp: nth_states_upd_state)
  then have "states (upd_state p f h) ! q = states h ! q"
    by (simp add: nth_states_upd_state)
  then show "\<forall>x \<in> set (st_handlers (states (upd_state p f h) ! q)).
               \<forall>r \<in> set (handler_refs x). r \<notin> A"
    using assms(1) q unfolding heap_avoids_def by simp
qed

lemma untouched_upd_state:
  assumes "State p \<notin> A"
  shows "untouched A h (upd_state p f h)"
proof -
  have "q \<noteq> p" if "State q \<in> A" for q using that assms by auto
  then have "\<forall>q. State q \<in> A \<longrightarrow> states (upd_state p f h) ! q = states h ! q"
    by simp
  then show ?thesis unfolding untouched_def by simp
qed

lemma pending_handlers_avoid:
  assumes "heap_avoids A h" "is_pending h p" "State p \<notin> A"
  shows "\<forall>x \<in> set (st_handlers (states h ! p)). \<forall>r \<in> set (handler_refs x). r \<notin> A"
  using assms unfolding heap_avoids_def is_pending_def by blast

lemma step_resolve_avoids:
  assumes "State p \<notin> A" "heap_avoids A h" "snd (resolve_enter p v h) = (body, h')"
  shows "calls_avoid A body \<and> heap_avoids A h' \<and> untouched A h h'"
proof (cases "is_pending h p")
  case False
  then have "body = []" "h' = h" using assms(3) by (simp_all add: resolve_enter_settled)
  then show ?thesis using assms(2) by simp
next
  case True
  have h': "h' = upd_state p (\<lambda>s. s\<lparr>st_storage := Some v, st_status := resolved\<rparr>) h"
    and body: "body = map (\<lambda>x. call_resolve_h (h_resolve x) v) (st_handlers (states h ! p))
                       @ [call_clear p]"
    using assms(3) resolve_enter_pending[OF True, of v] by simp_all
  have hs: "\<forall>x \<in> set (st_handlers (states h ! p)). \<forall>r \<in> set (handler_refs x). r \<notin> A"
    using pending_handlers_avoid[OF assms(2) True assms(1)] .
  have 1: "calls_avoid A body"
    unfolding body calls_avoid_def using hs assms(1) by (auto simp: handler_refs_def)
  have 2: "heap_avoids A h'"
    unfolding h' by (rule heap_avoids_settle[OF assms(2)]) simp
  have 3: "untouched A h h'"
    unfolding h' by (rule untouched_upd_state[OF assms(1)])
  from 1 2 3 show ?thesis by simp
qed

lemma step_reject_avoids:
  assumes "State p \<notin> A" "heap_avoids A h" "snd (reject_enter p e h) = (body, h')"
  shows "calls_avoid A body \<and> heap_avoids A h' \<and> untouched A h h'"
proof (cases "is_pending h p")
  case False
  then have "body = []" "h' = h" using assms(3) by (simp_all add: reject_enter_settled)
  then show ?thesis using assms(2) by simp
next
  case True
  have h': "h' = upd_state p (\<lambda>s. s\<lparr>st_exception := e, st_status := rejected\<rparr>) h"
    and body: "body = map (\<lambda>x. call_reject_h (h_reject x) e) (st_handlers (states h ! p))
                       @ [call_clear p]"
    using assms(3) reject_enter_pending[OF True, of e] by simp_all
  have hs: "\<forall>x \<in> set (st_handlers (states h ! p)). \<forall>r \<in> set (handler_refs x). r \<notin> A"
    using pending_handlers_avoid[OF assms(2) True assms(1)] .
  have 1: "calls_avoid A body"
    unfolding body calls_avoid_def using hs assms(1) by (auto simp: handler_refs_def)
  have 2: "heap_avoids A h'"
    unfolding h' by (rule heap_avoids_settle[OF assms(2)]) simp
  have 3: "untouched A h h'"
    unfolding h' by (rule untouched_upd_state[OF assms(1)])
  from 1 2 3 show ?thesis by simp
qed

lemma heap_avoids_states_eq:
  "states h' = states h \<Longrightarrow> heap_avoids A h' = heap_avoids A h"
  by (simp add: heap_avoids_def)

lemma invoke_resolve_h_avoids:
  assumes "\<forall>r \<in> set (resolve_h_refs rh). r \<notin> A" "invoke_resolve_h rh v h = (body, h')"
  shows "calls_avoid A body \<and> states h' = states h \<and> untouched A h h'"
proof -
  obtain n f j where rh: "rh = resolve_h n f j" by (cases rh)
  show ?thesis
  proof (cases f)
    case (user_resolve g)
    then show ?thesis using assms rh
      by (auto simp: Let_def untouched_def split: sum.splits)
  next
    case fail_identity
    then show ?thesis using assms rh by auto
  next
    case (all_resolve c res i)
    then have "Ctx c \<notin> A" using assms(1) rh by simp
    then have neq: "\<And>ca. Ctx ca \<in> A \<Longrightarrow> c \<noteq> ca" by auto
    show ?thesis using assms rh all_resolve neq
      by (auto simp: Let_def untouched_def apply_result_def split: if_splits)
  next
    case (any_resolve res)
    then show ?thesis using assms rh by auto
  qed
qed

lemma invoke_reject_h_avoids:
  assumes "\<forall>r \<in> set (reject_h_refs jh). r \<notin> A" "invoke_reject_h jh e h = (body, h')"
  shows "calls_avoid A body \<and> states h' = states h \<and> untouched A h h'"
proof -
  obtain n f where jh: "jh = reject_h n f" by (cases jh)
  show ?thesis
    using assms jh
    by (cases f) (auto simp: Let_def untouched_def split: option.splits)
qed

lemma step_avoids:
  assumes "calls_avoid A [c]" "heap_avoids A h" "step c h = (body, h')"
  shows "calls_avoid A body \<and> heap_avoids A h' \<and> untouched A h h'"
proof (cases c)
  case (call_resolve p v)
  have "snd (resolve_enter p v h) = (body, h')" using assms(3) unfolding call_resolve by simp
  moreover have "State p \<notin> A" using assms(1) unfolding call_resolve by simp
  ultimately show ?thesis using assms(2) by (rule step_resolve_avoids[rotated 2])
next
  case (call_reject p e)
  have "snd (reject_enter p e h) = (body, h')" using assms(3) unfolding call_reject by simp
  moreover have "State p \<notin> A" using assms(1) unfolding call_reject by simp
  ultimately show ?thesis using assms(2) by (rule step_reject_avoids[rotated 2])
next
  case (call_resolve_h rh v)
  have "invoke_resolve_h rh v h = (body, h')" using assms(3) unfolding call_resolve_h by simp
  moreover have "\<forall>r \<in> set (resolve_h_refs rh). r \<notin> A" using assms(1) unfolding call_resolve_h by simp
  ultimately have "calls_avoid A body \<and> states h' = states h \<and> untouched A h h'"
    by (rule invoke_resolve_h_avoids[rotated])
  then show ?thesis using assms(2) heap_avoids_states_eq[of h' h A] by simp
next
  case (call_reject_h jh e)
  have "invoke_reject_h jh e h = (body, h')" using assms(3) unfolding call_reject_h by simp
  moreover have "\<forall>r \<in> set (reject_h_refs jh). r \<notin> A" using assms(1) unfolding call_reject_h by simp
  ultimately have "calls_avoid A body \<and> states h' = states h \<and> untouched A h h'"
    by (rule invoke_reject_h_avoids[rotated])
  then show ?thesis using assms(2) heap_avoids_states_eq[of h' h A] by simp
next
  case (call_clear p)
  have h': "h' = upd_state p (\<lambda>s. s\<lparr>st_handlers := []\<rparr>) h" and body: "body = []"
    using assms(3) unfolding call_clear by simp_all
  have p: "State p \<notin> A" using assms(1) unfolding call_clear by simp
  have "heap_avoids A h'"
    unfolding h' heap_avoids_def
  proof (intro allI impI)
    fix q
    assume q: "q < length (states (upd_state p (\<lambda>s. s\<lparr>st_handlers := []\<rparr>) h))" "State q \<notin> A"
      "st_status (states (upd_state p (\<lambda>s. s\<lparr>st_handlers := []\<rparr>) h) ! q) = pending"
    show "\<forall>x \<in> set (st_handlers (states (upd_state p (\<lambda>s. s\<lparr>st_handlers := []\<rparr>) h) ! q)).
               \<forall>r \<in> set (handler_refs x). r \<notin> A"
    proof (cases "q = p")
      case True
      then show ?thesis using q(1) by (simp add: nth_states_upd_state)
    next
      case False
      then have "states (upd_state p (\<lambda>s. s\<lparr>st_handlers := []\<rparr>) h) ! q = states h ! q"
        by (simp add: nth_states_upd_state)
      then show ?thesis using assms(2) q unfolding heap_avoids_def by simp
    qed
  qed
  moreover have "untouched A h h'"
    unfolding h' by (rule untouched_upd_state[OF p])
  ultimately show ?thesis using body by simp
qed

lemma run_avoids:
  "calls_avoid A cs \<Longrightarrow> heap_avoids A h \<Longrightarrow> heap_avoids A (run cs h) \<and> untouched A h (run cs h)"
proof (induction cs h rule: run.induct)
  case (1 h)
  then show ?case by simp
next
  case (2 c cs h)
  obtain body h' where st: "step c h = (body, h')" by (cases "step c h")
  have s: "calls_avoid A body \<and> heap_avoids A h' \<and> untouched A h h'"
    using step_avoids[OF _ "2.prems"(2) st] "2.prems"(1) by simp
  then have "heap_avoids A (run (body @ cs) h') \<and> untouched A h' (run (body @ cs) h')"
    using 2(1)[OF st [symmetric]] "2.prems"(1) by simp
  moreover have "run (c # cs) h = run (body @ cs) h'" using st by simp
  ultimately show ?case
    using s untouched_trans[of A h h' "run (body @ cs) h'"] by simp
qed

lemma outcome_upd_state_other [simp]: "q \<noteq> p \<Longrightarrow> outcome (upd_state p f h) q = outcome h q"
  by (simp add: outcome_def)

lemma outcome_log_event [simp]: "outcome (log_event ev h) q = outcome h q"
  by (simp add: outcome_def)

lemma is_pending_log_event [simp]: "is_pending (log_event ev h) q = is_pending h q"
  by (simp add: is_pending_def)

lemma is_pending_upd_state_other [simp]:
  "q \<noteq> p \<Longrightarrow> is_pending (upd_state p f h) q = is_pending h q"
  by (simp add: is_pending_def)

lemma run_call_resolve_settled:
  "\<not> is_pending h p \<Longrightarrow> run (call_resolve p v # cs) h = run cs h"
  by (simp add: resolve_enter_settled)

lemma run_call_reject_settled:
  "\<not> is_pending h p \<Longrightarrow> run (call_reject p e # cs) h = run cs h"
  by (simp add: reject_enter_settled)

lemma run_call_resolve_pending:
  "is_pending h p \<Longrightarrow>
   run (call_resolve p v # cs) h =
     run (map (\<lambda>x. call_resolve_h (h_resolve x) v) (st_handlers (states h ! p)) @ call_clear p # cs)
       (upd_state p (\<lambda>s. s\<lparr>st_storage := Some v, st_status := resolved\<rparr>) h)"
  by (simp add: resolve_enter_pending)

lemma run_call_reject_pending:
  "is_pending h p \<Longrightarrow>
   run (call_reject p e # cs) h =
     run (map (\<lambda>x. call_reject_h (h_reject x) e) (st_handlers (states h ! p)) @ call_clear p # cs)
       (upd_state p (\<lambda>s. s\<lparr>st_exception := e, st_status := rejected\<rparr>) h)"
  by (simp add: reject_enter_pending)

lemma run_call_clear:
  "run (call_clear p # cs) h = run cs (upd_state p (\<lambda>s. s\<lparr>st_handlers := []\<rparr>) h)"
  by simp

lemma upd_state_cong:
  "f (states h ! p) = g (states h ! p) \<Longrightarrow> upd_state p f h = upd_state p g h"
  by (simp add: upd_state_def)

lemma run_call_resolve_fresh:
  assumes "is_pending h p" "st_handlers (states h ! p) = []"
  shows "run (call_resolve p v # cs) h
           = run cs (upd_state p (\<lambda>s. s\<lparr>st_storage := Some v, st_status := resolved\<rparr>) h)"
proof -
  have "upd_state p (\<lambda>s. s\<lparr>st_handlers := []\<rparr>)
          (upd_state p (\<lambda>s. s\<lparr>st_storage := Some v, st_status := resolved\<rparr>) h)
        = upd_state p (\<lambda>s. s\<lparr>st_storage := Some v, st_status := resolved\<rparr>) h"
    unfolding upd_state_twice using assms(2) by (intro upd_state_cong) simp
  then show ?thesis
    using assms by (simp add: run_call_resolve_pending del: run.simps add: run_call_clear)
qed

lemma run_call_reject_fresh:
  assumes "is_pending h p" "st_handlers (states h ! p) = []"
  shows "run (call_reject p e # cs) h
           = run cs (upd_state p (\<lambda>s. s\<lparr>st_exception := e, st_status := rejected\<rparr>) h)"
proof -
  have "upd_state p (\<lambda>s. s\<lparr>st_handlers := []\<rparr>)
          (upd_state p (\<lambda>s. s\<lparr>st_exception := e, st_status := rejected\<rparr>) h)
        = upd_state p (\<lambda>s. s\<lparr>st_exception := e, st_status := rejected\<rparr>) h"
    unfolding upd_state_twice using assms(2) by (intro upd_state_cong) simp
  then show ?thesis
    using assms by (simp add: run_call_reject_pending del: run.simps add: run_call_clear)
qed

lemma step_settled:
  assumes "p < length (states h)" "st_status (states h ! p) \<noteq> pending" "step c h = (body, h')"
  shows "outcome h' p = outcome h p"
proof (cases c)
  case (call_resolve q v)
  show ?thesis
  proof (cases "is_pending h q")
    case True
    then have "q \<noteq> p" using assms(2) by (auto simp: is_pending_def)
    then show ?thesis
      using assms(3) True unfolding call_resolve by (auto simp: resolve_enter_pending)
  next
    case False
    then show ?thesis using assms(3) unfolding call_resolve by (simp add: resolve_enter_settled)
  qed
next
  case (call_reject q e)
  show ?thesis
  proof (cases "is_pending h q")
    case True
    then have "q \<noteq> p" using assms(2) by (auto simp: is_pending_def)
    then show ?thesis
      using assms(3) True unfolding call_reject by (auto simp: reject_enter_pending)
  next
    case False
    then show ?thesis using assms(3) unfolding call_reject by (simp add: reject_enter_settled)
  qed
next
  case (call_resolve_h rh v)
  have "states h' = states h"
    using assms(3) states_invoke_resolve_h[of rh v h] unfolding call_resolve_h by simp
  then show ?thesis by (simp add: outcome_def)
next
  case (call_reject_h jh e)
  have "states h' = states h"
    using assms(3) states_invoke_reject_h[of jh e h] unfolding call_reject_h by simp
  then show ?thesis by (simp add: outcome_def)
next
  case (call_clear q)
  have "h' = upd_state q (\<lambda>s. s\<lparr>st_handlers := []\<rparr>) h"
    using assms(3) unfolding call_clear by simp
  then show ?thesis
    using assms(1) by (cases "q = p") (simp_all add: outcome_def)
qed

lemma run_settled:
  "p < length (states h) \<Longrightarrow> st_status (states h ! p) \<noteq> pending \<Longrightarrow>
   outcome (run cs h) p = outcome h p"
proof (induction cs h rule: run.induct)
  case (1 h)
  show ?case by simp
next
  case (2 c cs h)
  obtain body h' where st: "step c h = (body, h')" by (cases "step c h")
  have o: "outcome h' p = outcome h p" using step_settled[OF "2.prems" st] .
  have len: "length (states h') = length (states h)"
    using length_states_step[of c h] st by simp
  have "outcome (run (body @ cs) h') p = outcome h' p"
    using "2.IH"[OF st [symmetric]] "2.prems" o len by (simp add: outcome_def)
  then show ?case using st o by simp
qed

lemma resolve_pending:
  assumes "is_pending h p"
  shows "resolve p v h =
           (True, run (map (\<lambda>x. call_resolve_h (h_resolve x) v) (st_handlers (states h ! p))
                       @ [call_clear p])
                    (upd_state p (\<lambda>s. s\<lparr>st_storage := Some v, st_status := resolved\<rparr>) h))"
  using assms by (simp add: resolve_def resolve_enter_pending del: run.simps)

lemma reject_pending:
  assumes "is_pending h p"
  shows "reject p e h =
           (True, run (map (\<lambda>x. call_reject_h (h_reject x) e) (st_handlers (states h ! p))
                       @ [call_clear p])
                    (upd_state p (\<lambda>s. s\<lparr>st_exception := e, st_status := rejected\<rparr>) h))"
  using assms by (simp add: reject_def reject_enter_pending del: run.simps)

lemma resolve_settled: "\<not> is_pending h p \<Longrightarrow> resolve p v h = (False, h)"
  by (simp add: resolve_def resolve_enter_settled)

lemma reject_settled: "\<not> is_pending h p \<Longrightarrow> reject p e h = (False, h)"
  by (simp add: reject_def reject_enter_settled)

lemma resolve_outcome:
  assumes "is_pending h p"
  shows "outcome (snd (resolve p v h)) p = (resolved, Some v, st_exception (states h ! p))"
proof -
  let ?h' = "upd_state p (\<lambda>s. s\<lparr>st_storage := Some v, st_status := resolved\<rparr>) h"
  have p: "p < length (states h)" using assms by (simp add: is_pending_def)
  have "outcome (run cs ?h') p = outcome ?h' p" for cs
    using p by (intro run_settled) simp_all
  then show ?thesis using p by (simp add: resolve_pending[OF assms] outcome_def del: run.simps)
qed

lemma reject_outcome:
  assumes "is_pending h p"
  shows "outcome (snd (reject p e h)) p = (rejected, st_storage (states h ! p), e)"
proof -
  let ?h' = "upd_state p (\<lambda>s. s\<lparr>st_exception := e, st_status := rejected\<rparr>) h"
  have p: "p < length (states h)" using assms by (simp add: is_pending_def)
  have "outcome (run cs ?h') p = outcome ?h' p" for cs
    using p by (intro run_settled) simp_all
  then show ?thesis using p by (simp add: reject_pending[OF assms] outcome_def del: run.simps)
qed

lemma new_promise_fresh:
  "is_pending (snd (new_promise h)) (fst (new_promise h))
   \<and> states (snd (new_promise h)) ! fst (new_promise h) = new_state"
  by (simp add: new_promise_def is_pending_def new_state_def)

lemma length_states_resolve [simp]: "length (states (snd (resolve p v h))) = length (states h)"
  by (cases "is_pending h p") (simp_all add: resolve_pending resolve_settled del: run.simps)

lemma length_states_reject [simp]: "length (states (snd (reject p e h))) = length (states h)"
  by (cases "is_pending h p") (simp_all add: reject_pending reject_settled del: run.simps)

lemma events_of_log_event [simp]:
  "events_of n (log_event ev h) = events_of n h @ (if ev_addr ev = n then [ev] else [])"
  by (simp add: events_of_def)

lemma events_of_upd_state [simp]: "events_of n (upd_state p f h) = events_of n h"
  by (simp add: events_of_def)

lemma then2_pending:
  assumes "is_pending h p"
  shows "then2 p f g h =
           (length (states h),
            upd_state p (\<lambda>s. s\<lparr>st_handlers := st_handlers s @ [then_handler (length (states h)) f g]\<rparr>)
              (h\<lparr>states := states h @ [new_state]\<rparr>))"
  using assms
  by (simp add: then2_def new_promise_def attach_def add_handlers_def Let_def is_pending_def
      nth_append then_handler_def)

lemma then2_resolved:
  assumes "p < length (states h)" "st_status (states h ! p) = resolved"
    "st_storage (states h ! p) = Some v"
  shows "then2 p f g h =
           (length (states h),
            run [call_resolve_h (resolve_h (length (states h)) f (reject_h (length (states h)) g)) v]
              (h\<lparr>states := states h @ [new_state]\<rparr>))"
  using assms
  by (simp add: then2_def new_promise_def attach_def add_handlers_def Let_def nth_append
      del: run.simps)

lemma then2_rejected:
  assumes "p < length (states h)" "st_status (states h ! p) = rejected"
  shows "then2 p f g h =
           (length (states h),
            run [call_reject_h (reject_h (length (states h)) g) (st_exception (states h ! p))]
              (h\<lparr>states := states h @ [new_state]\<rparr>))"
  using assms
  by (simp add: then2_def new_promise_def attach_def add_handlers_def Let_def nth_append
      del: run.simps)

lemma wf_heap_no_events:
  "wf_heap h \<Longrightarrow> length (states h) \<le> n \<Longrightarrow> events_of n h = []"
  by (auto simp: wf_heap_def events_of_def filter_empty_conv)

lemma untouched_events_of:
  assumes "untouched A h h'" "State n \<in> A"
  shows "events_of n h' = events_of n h"
proof -
  obtain evs where "trace h' = trace h @ evs" "\<forall>ev \<in> set evs. State (ev_addr ev) \<notin> A"
    using assms(1) unfolding untouched_def by blast
  then show ?thesis using assms(2) by (auto simp: events_of_def filter_empty_conv)
qed

text \<open>When \<open>p\<close> settles after \<open>then\<close>, the handlers attached before \<open>then\<close> run first: they
  leave the next promise \<open>n\<close> as it was created.\<close>

lemma old_handlers_avoid_fresh:
  fixes h :: "('a, 'e) heap"
  assumes wf: "wf_heap h" and pend: "is_pending h p"
    and cs: "\<And>c r. c \<in> set cs \<Longrightarrow> r \<in> set (call_refs c) \<Longrightarrow>
               \<exists>x \<in> set (st_handlers (states h ! p)). r \<in> set (handler_refs x)"
  shows "calls_avoid {State (length (states h))} cs"
  unfolding calls_avoid_def
proof (intro ballI)
  fix c r assume c: "c \<in> set cs" and r: "r \<in> set (call_refs c)"
  obtain x where x: "x \<in> set (st_handlers (states h ! p))" "r \<in> set (handler_refs x)"
    using cs[OF c r] by blast
  then have "ref_ok h r" using wf pend unfolding wf_heap_def is_pending_def by blast
  then show "r \<notin> {State (length (states h))}" by (auto simp: ref_ok_def)
qed

lemma settled_heap_avoids_fresh:
  fixes h h2 :: "('a, 'e) heap"
  assumes wf: "wf_heap h"
    and len: "length (states h2) = Suc (length (states h))"
    and old: "\<And>q. q < length (states h) \<Longrightarrow> q \<noteq> p \<Longrightarrow> states h2 ! q = states h ! q"
    and p: "st_status (states h2 ! p) \<noteq> pending"
  shows "heap_avoids {State (length (states h))} h2"
  unfolding heap_avoids_def
proof (intro allI impI ballI)
  fix q x r
  assume q: "q < length (states h2)" "State q \<notin> {State (length (states h))}"
    "st_status (states h2 ! q) = pending"
    and x: "x \<in> set (st_handlers (states h2 ! q))" and r: "r \<in> set (handler_refs x)"
  have qn: "q < length (states h)" using q(1,2) len by auto
  have "q \<noteq> p" using q(3) p by auto
  then have eq: "states h2 ! q = states h ! q" using old qn by simp
  have "ref_ok h r" using wf qn q(3) x r unfolding eq wf_heap_def by blast
  then show "r \<notin> {State (length (states h))}" by (auto simp: ref_ok_def)
qed

lemma run_keeps_fresh:
  assumes "calls_avoid {State n} cs" "heap_avoids {State n} h2"
  shows "states (run cs h2) ! n = states h2 ! n \<and> events_of n (run cs h2) = events_of n h2"
proof -
  have u: "untouched {State n} h2 (run cs h2)" using run_avoids[OF assms] by simp
  then have "states (run cs h2) ! n = states h2 ! n" unfolding untouched_def by simp
  then show ?thesis using untouched_events_of[OF u, of n] by simp
qed

lemma resolve_after_then2:
  fixes h :: "('a, 'e) heap"
  assumes wf: "wf_heap h" and pend: "is_pending h p"
  defines "n \<equiv> length (states h)"
  shows "\<exists>h3. resolve p v (snd (then2 p f g h))
                = (True, run [call_resolve_h (resolve_h n f (reject_h n g)) v, call_clear p] h3)
              \<and> states h3 ! n = new_state \<and> length (states h3) = Suc n
              \<and> events_of n h3 = [] \<and> p < n"
proof -
  let ?old = "st_handlers (states h ! p)"
  let ?h1 = "snd (then2 p f g h)"
  let ?h2 = "upd_state p (\<lambda>s. s\<lparr>st_storage := Some v, st_status := resolved\<rparr>) ?h1"
  let ?cs = "map (\<lambda>x. call_resolve_h (h_resolve x) v) ?old"
  let ?h3 = "run ?cs ?h2"
  have p: "p < n" using pend by (simp add: is_pending_def n_def)
  have h1: "?h1 = upd_state p (\<lambda>s. s\<lparr>st_handlers := st_handlers s @ [then_handler n f g]\<rparr>)
                    (h\<lparr>states := states h @ [new_state]\<rparr>)"
    unfolding n_def by (simp add: then2_pending[OF pend])
  have pend1: "is_pending ?h1 p"
    using pend unfolding h1 by (simp add: is_pending_def nth_append)
  have hs1: "st_handlers (states ?h1 ! p) = ?old @ [then_handler n f g]"
    using p unfolding h1 by (simp add: nth_append n_def)
  have ca: "calls_avoid {State n} ?cs"
    unfolding n_def by (rule old_handlers_avoid_fresh[OF wf pend]) (auto simp: handler_refs_def)
  have ha: "heap_avoids {State n} ?h2"
    unfolding n_def
  proof (rule settled_heap_avoids_fresh[OF wf, where p = p])
    show "length (states ?h2) = Suc (length (states h))" unfolding h1 by simp
    show "states ?h2 ! q = states h ! q" if "q < length (states h)" "q \<noteq> p" for q
      using that unfolding h1 by (simp add: nth_append)
    show "st_status (states ?h2 ! p) \<noteq> pending" using p unfolding h1 n_def by simp
  qed
  have n2: "states ?h2 ! n = new_state" "events_of n ?h2 = []"
    using p wf_heap_no_events[OF wf, of n] unfolding h1 n_def by (simp_all add: events_of_def)
  have "resolve p v ?h1 = (True, run (?cs @ [call_resolve_h (resolve_h n f (reject_h n g)) v, call_clear p]) ?h2)"
    using resolve_pending[OF pend1, of v] hs1 by (simp add: then_handler_def del: run.simps)
  then have "resolve p v ?h1 = (True, run [call_resolve_h (resolve_h n f (reject_h n g)) v, call_clear p] ?h3)"
    by (simp only: run_append)
  moreover have "states ?h3 ! n = new_state" "events_of n ?h3 = []"
    using run_keeps_fresh[OF ca ha] n2 by simp_all
  moreover have "length (states ?h3) = Suc n" unfolding h1 n_def by simp
  ultimately show ?thesis using p by blast
qed

lemma reject_after_then2:
  fixes h :: "('a, 'e) heap"
  assumes wf: "wf_heap h" and pend: "is_pending h p"
  defines "n \<equiv> length (states h)"
  shows "\<exists>h3. reject p e (snd (then2 p f g h))
                = (True, run [call_reject_h (reject_h n g) e, call_clear p] h3)
              \<and> states h3 ! n = new_state \<and> length (states h3) = Suc n
              \<and> events_of n h3 = [] \<and> p < n"
proof -
  let ?old = "st_handlers (states h ! p)"
  let ?h1 = "snd (then2 p f g h)"
  let ?h2 = "upd_state p (\<lambda>s. s\<lparr>st_exception := e, st_status := rejected\<rparr>) ?h1"
  let ?cs = "map (\<lambda>x. call_reject_h (h_reject x) e) ?old"
  let ?h3 = "run ?cs ?h2"
  have p: "p < n" using pend by (simp add: is_pending_def n_def)
  have h1: "?h1 = upd_state p (\<lambda>s. s\<lparr>st_handlers := st_handlers s @ [then_handler n f g]\<rparr>)
                    (h\<lparr>states := states h @ [new_state]\<rparr>)"
    unfolding n_def by (simp add: then2_pending[OF pend])
  have pend1: "is_pending ?h1 p"
    using pend unfolding h1 by (simp add: is_pending_def nth_append)
  have hs1: "st_handlers (states ?h1 ! p) = ?old @ [then_handler n f g]"
    using p unfolding h1 by (simp add: nth_append n_def)
  have ca: "calls_avoid {State n} ?cs"
    unfolding n_def by (rule old_handlers_avoid_fresh[OF wf pend]) (auto simp: handler_refs_def)
  have ha: "heap_avoids {State n} ?h2"
    unfolding n_def
  proof (rule settled_heap_avoids_fresh[OF wf, where p = p])
    show "length (states ?h2) = Suc (length (states h))" unfolding h1 by simp
    show "states ?h2 ! q = states h ! q" if "q < length (states h)" "q \<noteq> p" for q
      using that unfolding h1 by (simp add: nth_append)
    show "st_status (states ?h2 ! p) \<noteq> pending" using p unfolding h1 n_def by simp
  qed
  have n2: "states ?h2 ! n = new_state" "events_of n ?h2 = []"
    using p wf_heap_no_events[OF wf, of n] unfolding h1 n_def by (simp_all add: events_of_def)
  have "reject p e ?h1 = (True, run (?cs @ [call_reject_h (reject_h n g) e, call_clear p]) ?h2)"
    using reject_pending[OF pend1, of e] hs1 by (simp add: then_handler_def del: run.simps)
  then have "reject p e ?h1 = (True, run [call_reject_h (reject_h n g) e, call_clear p] ?h3)"
    by (simp only: run_append)
  moreover have "states ?h3 ! n = new_state" "events_of n ?h3 = []"
    using run_keeps_fresh[OF ca ha] n2 by simp_all
  moreover have "length (states ?h3) = Suc n" unfolding h1 n_def by simp
  ultimately show ?thesis using p by blast
qed

lemma fresh_is_pending:
  "n < length (states h) \<Longrightarrow> states h ! n = new_state \<Longrightarrow>
   is_pending h n \<and> st_handlers (states h ! n) = []"
  by (simp add: is_pending_def new_state_def)

lemma outcome_upd_state_same:
  "p < length (states h) \<Longrightarrow> outcome (upd_state p f h) p =
     (st_status (f (states h ! p)), st_storage (f (states h ! p)), st_exception (f (states h ! p)))"
  by (simp add: outcome_def)

lemma states_run_clear:
  "run (cs @ [call_clear p]) h = upd_state p (\<lambda>s. s\<lparr>st_handlers := []\<rparr>) (run cs h)"
  by (simp add: run_append)

text \<open>What one closure does to a next promise that is still as it was created.\<close>

lemma fire_reject_user:
  assumes "n < length (states h)" "states h ! n = new_state"
  shows "run [call_reject_h (reject_h n (user_reject gu)) e] h =
           upd_state n (\<lambda>s. s\<lparr>st_exception := (case gu e of None \<Rightarrow> e | Some c \<Rightarrow> c),
                                 st_status := rejected\<rparr>)
             (log_event (reject_called n e) h)"
  using assms fresh_is_pending[OF assms]
  by (cases "gu e") (simp_all add: Let_def run_call_reject_fresh del: run.simps(2) add: run.simps(2)[of "call_reject_h _ _"])

lemma fire_reject_default:
  assumes "n < length (states h)" "states h ! n = new_state"
  shows "run [call_reject_h (reject_h n then_default) e] h =
           upd_state n (\<lambda>s. s\<lparr>st_exception := e, st_status := rejected\<rparr>) h"
  using assms fresh_is_pending[OF assms]
  by (simp add: Let_def run_call_reject_fresh del: run.simps(2) add: run.simps(2)[of "call_reject_h _ _"])

lemma fire_resolve_user_returns:
  assumes "n < length (states h)" "states h ! n = new_state" "fu v = Inr r"
  shows "run [call_resolve_h (resolve_h n (user_resolve fu) j) v] h =
           upd_state n (\<lambda>s. s\<lparr>st_storage := Some r, st_status := resolved\<rparr>)
             (log_event (resolve_called n v) h)"
  using assms fresh_is_pending[OF assms(1,2)]
  by (simp add: Let_def run_call_resolve_fresh del: run.simps(2) add: run.simps(2)[of "call_resolve_h _ _"])

lemma fire_resolve_user_raises:
  assumes "fu v = Inl c"
  shows "run [call_resolve_h (resolve_h n (user_resolve fu) j) v] h =
           run [call_reject_h j c] (log_event (resolve_called n v) h)"
  using assms
  by (simp add: Let_def del: run.simps(2) add: run.simps(2)[of "call_resolve_h _ _"])

lemma fire_resolve_identity:
  assumes "n < length (states h)" "states h ! n = new_state"
  shows "run [call_resolve_h (resolve_h n fail_identity j) v] h =
           upd_state n (\<lambda>s. s\<lparr>st_storage := Some v, st_status := resolved\<rparr>) h"
  using assms fresh_is_pending[OF assms(1,2)]
  by (simp add: Let_def run_call_resolve_fresh del: run.simps(2) add: run.simps(2)[of "call_resolve_h _ _"])

lemma same_at_clear: "p \<noteq> n \<Longrightarrow> same_at n (run (cs @ [call_clear p]) h) (run cs h)"
  by (simp add: same_at_def states_run_clear del: run.simps)

lemma then2_settle:
  fixes h :: "('a, 'e) heap" and p :: addr and f :: "('a, 'e) resolve_f" and g :: "('a, 'e) reject_f"
  assumes wf: "wf_heap h" and p: "p < length (states h)"
  defines "n \<equiv> fst (then2 p f g h)" and "h1 \<equiv> snd (then2 p f g h)"
  defines "rh \<equiv> resolve_h n f (reject_h n g)" and "jh \<equiv> reject_h n g"
  shows "is_pending h p \<Longrightarrow>
           \<exists>h3. fresh_at n h3 \<and> fst (resolve p v h1)
                \<and> same_at n (snd (resolve p v h1)) (run [call_resolve_h rh v] h3)"
    and "is_pending h p \<Longrightarrow>
           \<exists>h3. fresh_at n h3 \<and> fst (reject p e h1)
                \<and> same_at n (snd (reject p e h1)) (run [call_reject_h jh e] h3)"
    and "st_status (states h ! p) = resolved \<Longrightarrow> st_storage (states h ! p) = Some v \<Longrightarrow>
           \<exists>h3. fresh_at n h3 \<and> same_at n h1 (run [call_resolve_h rh v] h3)"
    and "st_status (states h ! p) = rejected \<Longrightarrow>
           \<exists>h3. fresh_at n h3
                \<and> same_at n h1 (run [call_reject_h jh (st_exception (states h ! p))] h3)"
proof -
  have n: "n = length (states h)"
    unfolding n_def by (simp add: then2_def new_promise_def split_beta)
  let ?h0 = "h\<lparr>states := states h @ [new_state]\<rparr>"
  have fresh0: "fresh_at n ?h0"
    using wf_heap_no_events[OF wf, of n] by (simp add: fresh_at_def n events_of_def)
  {
    assume pend: "is_pending h p"
    obtain h3 where h3: "resolve p v h1 = (True, run [call_resolve_h rh v, call_clear p] h3)"
      "states h3 ! n = new_state" "length (states h3) = Suc n" "events_of n h3 = []" "p < n"
      using resolve_after_then2[OF wf pend, of v f g] unfolding h1_def rh_def n by blast
    have "same_at n (run ([call_resolve_h rh v] @ [call_clear p]) h3) (run [call_resolve_h rh v] h3)"
      using h3(5) by (intro same_at_clear) simp
    then show "\<exists>h3. fresh_at n h3 \<and> fst (resolve p v h1)
                \<and> same_at n (snd (resolve p v h1)) (run [call_resolve_h rh v] h3)"
      using h3 by (intro exI[of _ h3]) (simp add: fresh_at_def del: run.simps)
  }
  {
    assume pend: "is_pending h p"
    obtain h3 where h3: "reject p e h1 = (True, run [call_reject_h jh e, call_clear p] h3)"
      "states h3 ! n = new_state" "length (states h3) = Suc n" "events_of n h3 = []" "p < n"
      using reject_after_then2[OF wf pend, of e f g] unfolding h1_def jh_def n by blast
    have "same_at n (run ([call_reject_h jh e] @ [call_clear p]) h3) (run [call_reject_h jh e] h3)"
      using h3(5) by (intro same_at_clear) simp
    then show "\<exists>h3. fresh_at n h3 \<and> fst (reject p e h1)
                \<and> same_at n (snd (reject p e h1)) (run [call_reject_h jh e] h3)"
      using h3 by (intro exI[of _ h3]) (simp add: fresh_at_def del: run.simps)
  }
  {
    assume "st_status (states h ! p) = resolved" "st_storage (states h ! p) = Some v"
    then have "h1 = run [call_resolve_h rh v] ?h0"
      unfolding h1_def rh_def n using then2_resolved[OF p, of v f g] by simp
    then show "\<exists>h3. fresh_at n h3 \<and> same_at n h1 (run [call_resolve_h rh v] h3)"
      using fresh0 by (intro exI[of _ ?h0]) (simp add: same_at_def del: run.simps)
  }
  {
    assume "st_status (states h ! p) = rejected"
    then have "h1 = run [call_reject_h jh (st_exception (states h ! p))] ?h0"
      unfolding h1_def jh_def n using then2_rejected[OF p, of f g] by simp
    then show "\<exists>h3. fresh_at n h3
                \<and> same_at n h1 (run [call_reject_h jh (st_exception (states h ! p))] h3)"
      using fresh0 by (intro exI[of _ ?h0]) (simp add: same_at_def del: run.simps)
  }
qed

text \<open>The outcome of the next promise and the calls of its callbacks, by callback.\<close>

lemma fired_reject_user:
  assumes "fresh_at n h"
  shows "outcome (run [call_reject_h (reject_h n (user_reject gu)) e] h) n
           = (rejected, None, case gu e of None \<Rightarrow> e | Some c \<Rightarrow> c)
         \<and> events_of n (run [call_reject_h (reject_h n (user_reject gu)) e] h) = [reject_called n e]"
  using assms unfolding fresh_at_def
  by (simp add: fire_reject_user outcome_upd_state_same new_state_def del: run.simps)

lemma fired_reject_default:
  assumes "fresh_at n h"
  shows "outcome (run [call_reject_h (reject_h n then_default) e] h) n = (rejected, None, e)
         \<and> events_of n (run [call_reject_h (reject_h n then_default) e] h) = []"
  using assms unfolding fresh_at_def
  by (simp add: fire_reject_default outcome_upd_state_same new_state_def del: run.simps)

lemma fired_resolve_user_returns:
  assumes "fresh_at n h" "fu v = Inr r"
  shows "outcome (run [call_resolve_h (resolve_h n (user_resolve fu) j) v] h) n
           = (resolved, Some r, nullptr)
         \<and> events_of n (run [call_resolve_h (resolve_h n (user_resolve fu) j) v] h)
           = [resolve_called n v]"
  using assms unfolding fresh_at_def
  by (simp add: fire_resolve_user_returns outcome_upd_state_same new_state_def del: run.simps)

lemma fired_resolve_identity:
  assumes "fresh_at n h"
  shows "outcome (run [call_resolve_h (resolve_h n fail_identity j) v] h) n
           = (resolved, Some v, nullptr)
         \<and> events_of n (run [call_resolve_h (resolve_h n fail_identity j) v] h) = []"
  using assms unfolding fresh_at_def
  by (simp add: fire_resolve_identity outcome_upd_state_same new_state_def del: run.simps)

lemma fired_resolve_raises_user:
  assumes "fresh_at n h" "fu v = Inl c"
  shows "outcome (run [call_resolve_h (resolve_h n (user_resolve fu) (reject_h n (user_reject gu))) v] h) n
           = (rejected, None, case gu c of None \<Rightarrow> c | Some c' \<Rightarrow> c')
         \<and> events_of n (run [call_resolve_h (resolve_h n (user_resolve fu) (reject_h n (user_reject gu))) v] h)
           = [resolve_called n v, reject_called n c]"
  using assms unfolding fresh_at_def
  by (simp add: fire_resolve_user_raises fire_reject_user outcome_upd_state_same new_state_def
      del: run.simps)

lemma fired_resolve_raises_default:
  assumes "fresh_at n h" "fu v = Inl c"
  shows "outcome (run [call_resolve_h (resolve_h n (user_resolve fu) (reject_h n then_default)) v] h) n
           = (rejected, None, c)
         \<and> events_of n (run [call_resolve_h (resolve_h n (user_resolve fu) (reject_h n then_default)) v] h)
           = [resolve_called n v]"
  using assms unfolding fresh_at_def
  by (simp add: fire_resolve_user_raises fire_reject_default outcome_upd_state_same new_state_def
      del: run.simps)

lemma one_promise_eq:
  "one_promise = \<lparr>states = [new_state], contexts = [], trace = []\<rparr>"
  by (simp add: one_promise_def new_promise_def empty_heap_def)

lemma resolved_promise_eq:
  "resolved_promise =
     \<lparr>states = [\<lparr>st_storage = Some (VAtom 7), st_status = resolved, st_exception = nullptr,
                  st_handlers = []\<rparr>], contexts = [], trace = []\<rparr>"
  by (simp add: resolved_promise_def one_promise_eq resolve_def resolve_enter_def is_pending_def
      new_state_def Let_def upd_state_def invoke_resolve_handlers_def)

lemma rejected_promise_eq:
  "rejected_promise =
     \<lparr>states = [\<lparr>st_storage = None, st_status = rejected, st_exception = thrown ''boom'',
                  st_handlers = []\<rparr>], contexts = [], trace = []\<rparr>"
  by (simp add: rejected_promise_def one_promise_eq reject_def reject_enter_def is_pending_def
      new_state_def Let_def upd_state_def invoke_reject_handlers_def)

lemma example_heaps_wf:
  "wf_heap one_promise" "wf_heap resolved_promise" "wf_heap rejected_promise"
  by (simp_all add: wf_heap_def one_promise_eq resolved_promise_eq rejected_promise_eq new_state_def)

lemma example_heaps_status:
  "is_pending one_promise 0"
  "0 < length (states one_promise)" "0 < length (states resolved_promise)"
  "0 < length (states rejected_promise)"
  "st_status (states resolved_promise ! 0) = resolved"
  "st_storage (states resolved_promise ! 0) = Some (VAtom 7)"
  "st_status (states rejected_promise ! 0) = rejected"
  "st_exception (states rejected_promise ! 0) = thrown ''boom''"
  by (simp_all add: one_promise_eq resolved_promise_eq rejected_promise_eq new_state_def
      is_pending_def)

lemma then2_transfer:
  fixes h :: "('a, 'e) heap" and f :: "('a, 'e) resolve_f" and g :: "('a, 'e) reject_f"
  assumes wf: "wf_heap h" and p: "p < length (states h)" and t: "then2 p f g h = (n, h1)"
  shows "is_pending h p \<Longrightarrow>
         (\<And>h3. fresh_at n h3 \<Longrightarrow>
            outcome (run [call_resolve_h (resolve_h n f (reject_h n g)) v] h3) n = out
            \<and> events_of n (run [call_resolve_h (resolve_h n f (reject_h n g)) v] h3) = evs) \<Longrightarrow>
         fst (resolve p v h1) \<and> outcome (snd (resolve p v h1)) n = out
         \<and> events_of n (snd (resolve p v h1)) = evs"
    and "is_pending h p \<Longrightarrow>
         (\<And>h3. fresh_at n h3 \<Longrightarrow>
            outcome (run [call_reject_h (reject_h n g) e] h3) n = out
            \<and> events_of n (run [call_reject_h (reject_h n g) e] h3) = evs) \<Longrightarrow>
         fst (reject p e h1) \<and> outcome (snd (reject p e h1)) n = out
         \<and> events_of n (snd (reject p e h1)) = evs"
    and "st_status (states h ! p) = resolved \<Longrightarrow> st_storage (states h ! p) = Some v \<Longrightarrow>
         (\<And>h3. fresh_at n h3 \<Longrightarrow>
            outcome (run [call_resolve_h (resolve_h n f (reject_h n g)) v] h3) n = out
            \<and> events_of n (run [call_resolve_h (resolve_h n f (reject_h n g)) v] h3) = evs) \<Longrightarrow>
         outcome h1 n = out \<and> events_of n h1 = evs"
    and "st_status (states h ! p) = rejected \<Longrightarrow>
         (\<And>h3. fresh_at n h3 \<Longrightarrow>
            outcome (run [call_reject_h (reject_h n g) (st_exception (states h ! p))] h3) n = out
            \<and> events_of n (run [call_reject_h (reject_h n g) (st_exception (states h ! p))] h3)
              = evs) \<Longrightarrow>
         outcome h1 n = out \<and> events_of n h1 = evs"
proof -
  have n: "n = fst (then2 p f g h)" and h1: "h1 = snd (then2 p f g h)"
    using t by simp_all
  note settle = then2_settle[OF wf p, where f = f and g = g, folded n h1]
  {
    assume pend: "is_pending h p"
      and fired: "\<And>h3. fresh_at n h3 \<Longrightarrow>
            outcome (run [call_resolve_h (resolve_h n f (reject_h n g)) v] h3) n = out
            \<and> events_of n (run [call_resolve_h (resolve_h n f (reject_h n g)) v] h3) = evs"
    obtain h3 where h3: "fresh_at n h3" "fst (resolve p v h1)"
      "same_at n (snd (resolve p v h1))
         (run [call_resolve_h (resolve_h n f (reject_h n g)) v] h3)"
      using settle(1)[OF pend, where v = v] by blast
    show "fst (resolve p v h1) \<and> outcome (snd (resolve p v h1)) n = out
         \<and> events_of n (snd (resolve p v h1)) = evs"
      using h3(2,3) fired[OF h3(1)] by (simp add: same_at_def del: run.simps)
  }
  {
    assume pend: "is_pending h p"
      and fired: "\<And>h3. fresh_at n h3 \<Longrightarrow>
            outcome (run [call_reject_h (reject_h n g) e] h3) n = out
            \<and> events_of n (run [call_reject_h (reject_h n g) e] h3) = evs"
    obtain h3 where h3: "fresh_at n h3" "fst (reject p e h1)"
      "same_at n (snd (reject p e h1)) (run [call_reject_h (reject_h n g) e] h3)"
      using settle(2)[OF pend, where e = e] by blast
    show "fst (reject p e h1) \<and> outcome (snd (reject p e h1)) n = out
         \<and> events_of n (snd (reject p e h1)) = evs"
      using h3(2,3) fired[OF h3(1)] by (simp add: same_at_def del: run.simps)
  }
  {
    assume st: "st_status (states h ! p) = resolved" "st_storage (states h ! p) = Some v"
      and fired: "\<And>h3. fresh_at n h3 \<Longrightarrow>
            outcome (run [call_resolve_h (resolve_h n f (reject_h n g)) v] h3) n = out
            \<and> events_of n (run [call_resolve_h (resolve_h n f (reject_h n g)) v] h3) = evs"
    obtain h3 where h3: "fresh_at n h3"
      "same_at n h1 (run [call_resolve_h (resolve_h n f (reject_h n g)) v] h3)"
      using settle(3)[OF st] by blast
    show "outcome h1 n = out \<and> events_of n h1 = evs"
      using h3(2) fired[OF h3(1)] by (simp add: same_at_def del: run.simps)
  }
  {
    assume st: "st_status (states h ! p) = rejected"
      and fired: "\<And>h3. fresh_at n h3 \<Longrightarrow>
            outcome (run [call_reject_h (reject_h n g) (st_exception (states h ! p))] h3) n = out
            \<and> events_of n (run [call_reject_h (reject_h n g) (st_exception (states h ! p))] h3)
              = evs"
    obtain h3 where h3: "fresh_at n h3"
      "same_at n h1 (run [call_reject_h (reject_h n g) (st_exception (states h ! p))] h3)"
      using settle(4)[OF st] by blast
    show "outcome h1 n = out \<and> events_of n h1 = evs"
      using h3(2) fired[OF h3(1)] by (simp add: same_at_def del: run.simps)
  }
qed

lemma fst_then2 [simp]: "fst (then2 p f g h) = length (states h)"
  by (simp add: then2_def new_promise_def split_beta)

lemma fst_then1 [simp]: "fst (then1 p f h) = length (states h)"
  by (simp add: then1_def)

lemma fst_fail [simp]: "fst (fail p g h) = length (states h)"
  by (simp add: fail_def)

lemma example_lengths [simp]:
  "length (states one_promise) = 1" "length (states resolved_promise) = 1"
  "length (states rejected_promise) = 1"
  by (simp_all add: one_promise_eq resolved_promise_eq rejected_promise_eq)

lemma perform_settled: "\<not> is_pending h r \<Longrightarrow> perform as r h = h"
proof (induction as)
  case Nil
  show ?case by simp
next
  case (Cons a as)
  then show ?case by (cases a) (simp_all add: resolve_settled reject_settled)
qed

lemma resolve_fresh:
  assumes "n < length (states h)" "states h ! n = new_state"
  shows "resolve n v h =
           (True, upd_state n (\<lambda>s. s\<lparr>st_storage := Some v, st_status := resolved\<rparr>) h)"
proof -
  have "run ([] @ [call_clear n]) (upd_state n (\<lambda>s. s\<lparr>st_storage := Some v, st_status := resolved\<rparr>) h)
        = upd_state n (\<lambda>s. s\<lparr>st_storage := Some v, st_status := resolved\<rparr>) h"
    unfolding states_run_clear using assms
    by (simp add: upd_state_twice new_state_def) (rule upd_state_cong, simp)
  then show ?thesis
    using fresh_is_pending[OF assms] by (simp add: resolve_pending del: run.simps)
qed

lemma reject_fresh:
  assumes "n < length (states h)" "states h ! n = new_state"
  shows "reject n e h =
           (True, upd_state n (\<lambda>s. s\<lparr>st_exception := e, st_status := rejected\<rparr>) h)"
proof -
  have "run ([] @ [call_clear n]) (upd_state n (\<lambda>s. s\<lparr>st_exception := e, st_status := rejected\<rparr>) h)
        = upd_state n (\<lambda>s. s\<lparr>st_exception := e, st_status := rejected\<rparr>) h"
    unfolding states_run_clear using assms
    by (simp add: upd_state_twice new_state_def) (rule upd_state_cong, simp)
  then show ?thesis
    using fresh_is_pending[OF assms] by (simp add: reject_pending del: run.simps)
qed

lemma then2_all_pending:
  assumes "is_pending h p"
  shows "fst (then2_all p cbs h) = [length (states h) ..< length (states h) + length cbs]
       \<and> states (snd (then2_all p cbs h))
           = (states h @ replicate (length cbs) new_state)
               [p := (states h ! p)\<lparr>st_handlers := st_handlers (states h ! p)
                                                    @ queued (length (states h)) cbs\<rparr>]
       \<and> trace (snd (then2_all p cbs h)) = trace h
       \<and> contexts (snd (then2_all p cbs h)) = contexts h"
  using assms
proof (induction cbs arbitrary: h)
  case Nil
  then show ?case by (simp add: is_pending_def)
next
  case (Cons fg cbs)
  obtain f g where fg: "fg = (f, g)" by (cases fg)
  let ?k = "length (states h)"
  let ?h1 = "snd (then2 p (user_resolve f) (user_reject g) h)"
  have p: "p < ?k" using Cons.prems by (simp add: is_pending_def)
  have h1: "?h1 = upd_state p (\<lambda>s. s\<lparr>st_handlers := st_handlers s
                       @ [then_handler ?k (user_resolve f) (user_reject g)]\<rparr>)
                    (h\<lparr>states := states h @ [new_state]\<rparr>)"
    by (simp add: then2_pending[OF Cons.prems])
  have st1: "states ?h1 = (states h @ [new_state])
               [p := (states h ! p)\<lparr>st_handlers := st_handlers (states h ! p)
                       @ [then_handler ?k (user_resolve f) (user_reject g)]\<rparr>]"
    using p unfolding h1 by (simp add: states_upd_state nth_append)
  have pend1: "is_pending ?h1 p"
    using Cons.prems p unfolding is_pending_def st1 by simp
  have len1: "length (states ?h1) = Suc ?k" unfolding st1 by simp
  note IH = Cons.IH[OF pend1, unfolded len1]
  have sel: "fst (then2_all p (fg # cbs) h) = ?k # fst (then2_all p cbs ?h1)"
    "snd (then2_all p (fg # cbs) h) = snd (then2_all p cbs ?h1)"
    unfolding fg by (simp_all add: split_beta)
  have "?k < ?k + length (fg # cbs)" by simp
  from upt_conv_Cons[OF this]
  have upt: "[?k ..< ?k + length (fg # cbs)] = ?k # [Suc ?k ..< Suc ?k + length cbs]"
    by (simp only: length_Cons add_Suc_right add_Suc)
  have 1: "fst (then2_all p (fg # cbs) h) = [?k ..< ?k + length (fg # cbs)]"
    unfolding sel upt using IH[THEN conjunct1] by simp
  have "states (snd (then2_all p cbs ?h1))
          = (states ?h1 @ replicate (length cbs) new_state)
              [p := (states ?h1 ! p)\<lparr>st_handlers := st_handlers (states ?h1 ! p)
                                                    @ queued (Suc ?k) cbs\<rparr>]"
    using IH by simp
  also have "\<dots> = (states h @ replicate (length (fg # cbs)) new_state)
               [p := (states h ! p)\<lparr>st_handlers := st_handlers (states h ! p)
                                                    @ queued ?k (fg # cbs)\<rparr>]"
    using p unfolding st1 fg
    by (simp add: list_update_append nth_append replicate_app_Cons_same)
  finally have 2: "states (snd (then2_all p (fg # cbs) h))
          = (states h @ replicate (length (fg # cbs)) new_state)
               [p := (states h ! p)\<lparr>st_handlers := st_handlers (states h ! p)
                                                    @ queued ?k (fg # cbs)\<rparr>]"
    unfolding sel .
  have 3: "trace (snd (then2_all p (fg # cbs) h)) = trace h"
    "contexts (snd (then2_all p (fg # cbs) h)) = contexts h"
    unfolding sel using IH unfolding h1 by simp_all
  from 1 2 3 show ?case by simp
qed

lemma fire_resolve_user_user:
  assumes "n < length (states h)" "states h ! n = new_state"
  shows "\<exists>sf. run [call_resolve_h (resolve_h n (user_resolve f) (reject_h n (user_reject g))) v] h
              = upd_state n sf (h\<lparr>trace := trace h @ fired_on_resolve v (n, f, g)\<rparr>)"
proof (cases "f v")
  case (Inr r)
  show ?thesis
    unfolding fire_resolve_user_returns[where fu = f, OF assms Inr] using Inr
    by (intro exI) (simp add: log_event_def)
next
  case (Inl c)
  have "states (log_event (resolve_called n v) h) ! n = new_state"
    "n < length (states (log_event (resolve_called n v) h))"
    using assms by simp_all
  note fire = fire_reject_user[OF this(2,1)]
  show ?thesis
    unfolding fire_resolve_user_raises[where fu = f, OF Inl] fire using Inl
    by (intro exI) (simp add: log_event_def)
qed

lemma fire_reject_user_ex:
  assumes "n < length (states h)" "states h ! n = new_state"
  shows "\<exists>sf. run [call_reject_h (reject_h n (user_reject g)) e] h
              = upd_state n sf (h\<lparr>trace := trace h @ fired_on_reject e (n, f, g)\<rparr>)"
  unfolding fire_reject_user[OF assms] by (intro exI) (simp add: log_event_def)

lemma run_queued_resolve:
  assumes "\<forall>i < length cbs. states h ! (k + i) = new_state" "k + length cbs \<le> length (states h)"
  shows "trace (run (map (\<lambda>x. call_resolve_h (h_resolve x) v) (queued k cbs)) h)
           = trace h @ concat (map (fired_on_resolve v) (zip [k ..< k + length cbs] cbs))
       \<and> (\<forall>q < k. states (run (map (\<lambda>x. call_resolve_h (h_resolve x) v) (queued k cbs)) h) ! q
                    = states h ! q)"
  using assms
proof (induction cbs arbitrary: k h)
  case Nil
  show ?case by simp
next
  case (Cons fg cbs)
  obtain f g where fg: "fg = (f, g)" by (cases fg)
  let ?c = "call_resolve_h (resolve_h k (user_resolve f) (reject_h k (user_reject g))) v"
  let ?rest = "map (\<lambda>x. call_resolve_h (h_resolve x) v) (queued (Suc k) cbs)"
  have k: "k < length (states h)" "states h ! k = new_state"
    using Cons.prems(2) Cons.prems(1)[rule_format, of 0] by simp_all
  obtain sf where sf: "run [?c] h = upd_state k sf (h\<lparr>trace := trace h @ fired_on_resolve v (k, f, g)\<rparr>)"
    using fire_resolve_user_user[OF k] by blast
  let ?h' = "upd_state k sf (h\<lparr>trace := trace h @ fired_on_resolve v (k, f, g)\<rparr>)"
  have split: "run (map (\<lambda>x. call_resolve_h (h_resolve x) v) (queued k (fg # cbs))) h
               = run ?rest ?h'"
    using run_append[of "[?c]" ?rest h] sf unfolding fg by (simp add: then_handler_def del: run.simps)
  have pre: "\<forall>i < length cbs. states ?h' ! (Suc k + i) = new_state"
    "Suc k + length cbs \<le> length (states ?h')"
    using Cons.prems(2) Cons.prems(1)[rule_format, of "Suc _"] by simp_all
  note IH = Cons.IH[OF pre]
  have "k < k + length (fg # cbs)" by simp
  from upt_conv_Cons[OF this]
  have upt: "[k ..< k + length (fg # cbs)] = k # [Suc k ..< Suc k + length cbs]"
    by (simp only: length_Cons add_Suc_right add_Suc)
  have 1: "trace (run ?rest ?h')
             = trace h @ concat (map (fired_on_resolve v) (zip [k ..< k + length (fg # cbs)] (fg # cbs)))"
    unfolding upt unfolding fg using IH[THEN conjunct1] by (simp del: upt_Suc)
  have 2: "\<forall>q < k. states (run ?rest ?h') ! q = states h ! q"
    using IH[THEN conjunct2] by simp
  from 1 2 show ?case unfolding split by blast
qed

lemma run_queued_reject:
  assumes "\<forall>i < length cbs. states h ! (k + i) = new_state" "k + length cbs \<le> length (states h)"
  shows "trace (run (map (\<lambda>x. call_reject_h (h_reject x) e) (queued k cbs)) h)
           = trace h @ concat (map (fired_on_reject e) (zip [k ..< k + length cbs] cbs))
       \<and> (\<forall>q < k. states (run (map (\<lambda>x. call_reject_h (h_reject x) e) (queued k cbs)) h) ! q
                    = states h ! q)"
  using assms
proof (induction cbs arbitrary: k h)
  case Nil
  show ?case by simp
next
  case (Cons fg cbs)
  obtain f g where fg: "fg = (f, g)" by (cases fg)
  let ?c = "call_reject_h (reject_h k (user_reject g)) e"
  let ?rest = "map (\<lambda>x. call_reject_h (h_reject x) e) (queued (Suc k) cbs)"
  have k: "k < length (states h)" "states h ! k = new_state"
    using Cons.prems(2) Cons.prems(1)[rule_format, of 0] by simp_all
  obtain sf where sf: "run [?c] h = upd_state k sf (h\<lparr>trace := trace h @ fired_on_reject e (k, f, g)\<rparr>)"
    using fire_reject_user_ex[OF k] by blast
  let ?h' = "upd_state k sf (h\<lparr>trace := trace h @ fired_on_reject e (k, f, g)\<rparr>)"
  have split: "run (map (\<lambda>x. call_reject_h (h_reject x) e) (queued k (fg # cbs))) h
               = run ?rest ?h'"
    using run_append[of "[?c]" ?rest h] sf unfolding fg by (simp add: then_handler_def del: run.simps)
  have pre: "\<forall>i < length cbs. states ?h' ! (Suc k + i) = new_state"
    "Suc k + length cbs \<le> length (states ?h')"
    using Cons.prems(2) Cons.prems(1)[rule_format, of "Suc _"] by simp_all
  note IH = Cons.IH[OF pre]
  have "k < k + length (fg # cbs)" by simp
  from upt_conv_Cons[OF this]
  have upt: "[k ..< k + length (fg # cbs)] = k # [Suc k ..< Suc k + length cbs]"
    by (simp only: length_Cons add_Suc_right add_Suc)
  have 1: "trace (run ?rest ?h')
             = trace h @ concat (map (fired_on_reject e) (zip [k ..< k + length (fg # cbs)] (fg # cbs)))"
    unfolding upt unfolding fg using IH[THEN conjunct1] by (simp del: upt_Suc)
  have 2: "\<forall>q < k. states (run ?rest ?h') ! q = states h ! q"
    using IH[THEN conjunct2] by simp
  from 1 2 show ?case unfolding split by blast
qed

lemma events_from_fired_resolve:
  "filter (\<lambda>ev. k \<le> ev_addr ev) (concat (map (fired_on_resolve v) (zip [k ..< k + m] cbs)))
     = concat (map (fired_on_resolve v) (zip [k ..< k + m] cbs))"
proof -
  have "\<forall>ev \<in> set (fired_on_resolve v x). k \<le> ev_addr ev"
    if "x \<in> set (zip [k ..< k + m] cbs)" for x :: "addr \<times> ('a, 'b) callbacks"
  proof -
    obtain n f g where x: "x = (n, f, g)" by (cases x)
    then have "k \<le> n" using that by (auto dest: set_zip_leftD)
    then show ?thesis unfolding x by (auto split: sum.splits)
  qed
  then show ?thesis by (auto simp: filter_concat filter_id_conv intro!: arg_cong[where f = concat])
qed

lemma events_from_fired_reject:
  "filter (\<lambda>ev. k \<le> ev_addr ev) (concat (map (fired_on_reject e) (zip [k ..< k + m] cbs)))
     = concat (map (fired_on_reject e) (zip [k ..< k + m] cbs))"
proof -
  have "\<forall>ev \<in> set (fired_on_reject e x). k \<le> ev_addr ev"
    if "x \<in> set (zip [k ..< k + m] cbs)" for x :: "addr \<times> ('a, 'b) callbacks"
  proof -
    obtain n f g where x: "x = (n, f, g)" by (cases x)
    then have "k \<le> n" using that by (auto dest: set_zip_leftD)
    then show ?thesis unfolding x by auto
  qed
  then show ?thesis by (auto simp: filter_concat filter_id_conv intro!: arg_cong[where f = concat])
qed

lemma old_handlers_avoid:
  fixes h :: "('a, 'e) heap"
  assumes wf: "wf_heap h" and pend: "is_pending h p"
    and cs: "\<And>c r. c \<in> set cs \<Longrightarrow> r \<in> set (call_refs c) \<Longrightarrow>
               \<exists>x \<in> set (st_handlers (states h ! p)). r \<in> set (handler_refs x)"
    and A: "\<And>r. r \<in> A \<Longrightarrow> \<not> ref_ok h r"
  shows "calls_avoid A cs"
  unfolding calls_avoid_def
proof (intro ballI)
  fix c r assume c: "c \<in> set cs" and r: "r \<in> set (call_refs c)"
  obtain x where x: "x \<in> set (st_handlers (states h ! p))" "r \<in> set (handler_refs x)"
    using cs[OF c r] by blast
  then have "ref_ok h r" using wf pend unfolding wf_heap_def is_pending_def by blast
  then show "r \<notin> A" using A by blast
qed

lemma settled_heap_avoids:
  fixes h h2 :: "('a, 'e) heap"
  assumes wf: "wf_heap h"
    and old: "\<And>q. q < length (states h) \<Longrightarrow> q \<noteq> p \<Longrightarrow> states h2 ! q = states h ! q"
    and p: "st_status (states h2 ! p) \<noteq> pending"
    and A: "\<And>r. r \<in> A \<Longrightarrow> \<not> ref_ok h r"
    and new: "\<And>q. length (states h) \<le> q \<Longrightarrow> State q \<in> A"
  shows "heap_avoids A h2"
  unfolding heap_avoids_def
proof (intro allI impI ballI)
  fix q x r
  assume q: "q < length (states h2)" "State q \<notin> A" "st_status (states h2 ! q) = pending"
    and x: "x \<in> set (st_handlers (states h2 ! q))" and r: "r \<in> set (handler_refs x)"
  have qn: "q < length (states h)" using q(2) new[of q] by force
  have "q \<noteq> p" using q(3) p by auto
  then have eq: "states h2 ! q = states h ! q" using old qn by simp
  have "ref_ok h r" using wf qn q(3) x r unfolding eq wf_heap_def by blast
  then show "r \<notin> A" using A by blast
qed

lemma wf_heap_events_from: "wf_heap h \<Longrightarrow> events_from (length (states h)) h = []"
  by (auto simp: wf_heap_def events_from_def filter_empty_conv)

lemma settle_queued:
  fixes h :: "('a, 'e) heap" and p :: addr and cbs :: "('a, 'e) callbacks list"
  assumes wf: "wf_heap h" and pend: "is_pending h p"
  defines "k \<equiv> length (states h)"
  defines "h1 \<equiv> snd (then2_all p cbs h)"
  shows "fst (resolve p v h1)
         \<and> events_from k (snd (resolve p v h1))
             = concat (map (fired_on_resolve v) (zip [k ..< k + length cbs] cbs))
         \<and> st_handlers (states (snd (resolve p v h1)) ! p) = []
         \<and> outcome (snd (resolve p v h1)) p = (resolved, Some v, st_exception (states h ! p))
         \<and> length (states (snd (resolve p v h1))) = k + length cbs"
    and "fst (reject p e h1)
         \<and> events_from k (snd (reject p e h1))
             = concat (map (fired_on_reject e) (zip [k ..< k + length cbs] cbs))
         \<and> st_handlers (states (snd (reject p e h1)) ! p) = []
         \<and> outcome (snd (reject p e h1)) p = (rejected, st_storage (states h ! p), e)
         \<and> length (states (snd (reject p e h1))) = k + length cbs"
proof -
  let ?old = "st_handlers (states h ! p)"
  let ?m = "length cbs"
  let ?A = "{State q |q. k \<le> q}"
  note t = then2_all_pending[OF pend, of cbs, folded h1_def k_def]
  have p: "p < k" using pend by (simp add: is_pending_def k_def)
  have st1: "states h1 = (states h @ replicate ?m new_state)
               [p := (states h ! p)\<lparr>st_handlers := ?old @ queued k cbs\<rparr>]"
    and tr1: "trace h1 = trace h"
    using t by simp_all
  have len1: "length (states h1) = k + ?m" unfolding st1 by (simp add: k_def)
  have p1: "states h1 ! p = (states h ! p)\<lparr>st_handlers := ?old @ queued k cbs\<rparr>"
    using p unfolding st1 by (simp add: k_def)
  have pend1: "is_pending h1 p"
    using pend p len1 unfolding is_pending_def p1 by simp
  have old1: "states h1 ! q = states h ! q" if "q < k" "q \<noteq> p" for q
    using that unfolding st1 by (simp add: nth_append k_def)
  have new1: "states h1 ! (k + i) = new_state" if "i < ?m" for i
    using that p unfolding st1 by (simp add: nth_append k_def)
  have A: "\<not> ref_ok h r" if "r \<in> ?A" for r using that by (auto simp: ref_ok_def k_def)
  have evs0: "events_from k h = []" unfolding k_def by (rule wf_heap_events_from[OF wf])
  {
    fix sf :: "('a, 'e) state \<Rightarrow> ('a, 'e) state" and cs :: "('a, 'e) call list"
    assume sf: "st_status (sf (states h1 ! p)) \<noteq> pending"
      and cs: "\<And>c r. c \<in> set cs \<Longrightarrow> r \<in> set (call_refs c) \<Longrightarrow>
                 \<exists>x \<in> set ?old. r \<in> set (handler_refs x)"
    let ?h2 = "upd_state p sf h1"
    let ?h3 = "run cs ?h2"
    have ca: "calls_avoid ?A cs" by (rule old_handlers_avoid[OF wf pend cs A])
    have ha: "heap_avoids ?A ?h2"
    proof (rule settled_heap_avoids[OF wf, where p = p])
      show "states ?h2 ! q = states h ! q" if "q < length (states h)" "q \<noteq> p" for q
        using that old1[of q] by (simp add: k_def)
      show "st_status (states ?h2 ! p) \<noteq> pending" using sf p len1 by simp
      show "\<not> ref_ok h r" if "r \<in> ?A" for r using A that .
      show "State q \<in> ?A" if "length (states h) \<le> q" for q using that by (simp add: k_def)
    qed
    have u: "untouched ?A ?h2 ?h3" using run_avoids[OF ca ha] by simp
    obtain evs where evs: "trace ?h3 = trace ?h2 @ evs" "\<forall>ev \<in> set evs. State (ev_addr ev) \<notin> ?A"
      using u unfolding untouched_def by blast
    have "events_from k ?h3 = []"
      using evs evs0 tr1 by (auto simp: events_from_def filter_empty_conv)
    moreover have "\<forall>i < ?m. states ?h3 ! (k + i) = new_state"
    proof (intro allI impI)
      fix i assume i: "i < ?m"
      have "states ?h3 ! (k + i) = states ?h2 ! (k + i)"
        using u unfolding untouched_def by simp
      then show "states ?h3 ! (k + i) = new_state" using new1[OF i] p by simp
    qed
    moreover have "outcome ?h3 p = outcome ?h2 p"
      using sf p len1 by (intro run_settled) simp_all
    moreover have "length (states ?h3) = k + ?m" using len1 by simp
    ultimately have "events_from k ?h3 = [] \<and> (\<forall>i < ?m. states ?h3 ! (k + i) = new_state)
        \<and> outcome ?h3 p = outcome ?h2 p \<and> length (states ?h3) = k + ?m" by blast
  }
  note frame = this
  show "fst (resolve p v h1)
         \<and> events_from k (snd (resolve p v h1))
             = concat (map (fired_on_resolve v) (zip [k ..< k + length cbs] cbs))
         \<and> st_handlers (states (snd (resolve p v h1)) ! p) = []
         \<and> outcome (snd (resolve p v h1)) p = (resolved, Some v, st_exception (states h ! p))
         \<and> length (states (snd (resolve p v h1))) = k + length cbs"
  proof -
    let ?sf = "\<lambda>s :: ('a, 'e) state. s\<lparr>st_storage := Some v, st_status := resolved\<rparr>"
    let ?cs = "map (\<lambda>x. call_resolve_h (h_resolve x) v) ?old"
    let ?qs = "map (\<lambda>x. call_resolve_h (h_resolve x) v) (queued k cbs)"
    let ?h2 = "upd_state p ?sf h1"
    let ?h3 = "run ?cs ?h2"
    let ?h4 = "run ?qs ?h3"
    have f: "events_from k ?h3 = [] \<and> (\<forall>i < ?m. states ?h3 ! (k + i) = new_state)
        \<and> outcome ?h3 p = outcome ?h2 p \<and> length (states ?h3) = k + ?m"
      by (rule frame) (auto simp: handler_refs_def)
    have r: "resolve p v h1 = (True, run ((?cs @ ?qs) @ [call_clear p]) ?h2)"
      using resolve_pending[OF pend1, of v] unfolding p1 by (simp del: run.simps)
    have h5: "snd (resolve p v h1) = upd_state p (\<lambda>s. s\<lparr>st_handlers := []\<rparr>) ?h4"
      unfolding r states_run_clear by (simp add: run_append del: run.simps)
    have q: "trace ?h4 = trace ?h3 @ concat (map (fired_on_resolve v) (zip [k ..< k + ?m] cbs))"
      "\<forall>q < k. states ?h4 ! q = states ?h3 ! q"
      using run_queued_resolve[of cbs ?h3 k v] f by simp_all
    have ev: "events_from k (snd (resolve p v h1))
               = concat (map (fired_on_resolve v) (zip [k ..< k + ?m] cbs))"
      unfolding h5 using q(1) f events_from_fired_resolve[of k v ?m cbs]
      by (simp add: events_from_def)
    have "outcome ?h4 p = outcome ?h3 p" using q(2) p by (simp add: outcome_def)
    then have o: "outcome (snd (resolve p v h1)) p = (resolved, Some v, st_exception (states h ! p))"
      unfolding h5 using f p len1 by (simp add: outcome_def p1)
    have len4: "length (states ?h4) = k + ?m" using len1 by simp
    have hs: "st_handlers (states (snd (resolve p v h1)) ! p) = []"
      unfolding h5 using p len4 by simp
    show ?thesis using r ev o hs len4 unfolding h5 by simp
  qed
  show "fst (reject p e h1)
         \<and> events_from k (snd (reject p e h1))
             = concat (map (fired_on_reject e) (zip [k ..< k + length cbs] cbs))
         \<and> st_handlers (states (snd (reject p e h1)) ! p) = []
         \<and> outcome (snd (reject p e h1)) p = (rejected, st_storage (states h ! p), e)
         \<and> length (states (snd (reject p e h1))) = k + length cbs"
  proof -
    let ?sf = "\<lambda>s :: ('a, 'e) state. s\<lparr>st_exception := e, st_status := rejected\<rparr>"
    let ?cs = "map (\<lambda>x. call_reject_h (h_reject x) e) ?old"
    let ?qs = "map (\<lambda>x. call_reject_h (h_reject x) e) (queued k cbs)"
    let ?h2 = "upd_state p ?sf h1"
    let ?h3 = "run ?cs ?h2"
    let ?h4 = "run ?qs ?h3"
    have f: "events_from k ?h3 = [] \<and> (\<forall>i < ?m. states ?h3 ! (k + i) = new_state)
        \<and> outcome ?h3 p = outcome ?h2 p \<and> length (states ?h3) = k + ?m"
      by (rule frame) (auto simp: handler_refs_def)
    have r: "reject p e h1 = (True, run ((?cs @ ?qs) @ [call_clear p]) ?h2)"
      using reject_pending[OF pend1, of e] unfolding p1 by (simp del: run.simps)
    have h5: "snd (reject p e h1) = upd_state p (\<lambda>s. s\<lparr>st_handlers := []\<rparr>) ?h4"
      unfolding r states_run_clear by (simp add: run_append del: run.simps)
    have q: "trace ?h4 = trace ?h3 @ concat (map (fired_on_reject e) (zip [k ..< k + ?m] cbs))"
      "\<forall>q < k. states ?h4 ! q = states ?h3 ! q"
      using run_queued_reject[of cbs ?h3 k e] f by simp_all
    have ev: "events_from k (snd (reject p e h1))
               = concat (map (fired_on_reject e) (zip [k ..< k + ?m] cbs))"
      unfolding h5 using q(1) f events_from_fired_reject[of k e ?m cbs]
      by (simp add: events_from_def)
    have "outcome ?h4 p = outcome ?h3 p" using q(2) p by (simp add: outcome_def)
    then have o: "outcome (snd (reject p e h1)) p = (rejected, st_storage (states h ! p), e)"
      unfolding h5 using f p len1 by (simp add: outcome_def p1)
    have len4: "length (states ?h4) = k + ?m" using len1 by simp
    have hs: "st_handlers (states (snd (reject p e h1)) ! p) = []"
      unfolding h5 using p len4 by simp
    show ?thesis using r ev o hs len4 unfolding h5 by simp
  qed
qed

lemma then2_user_resolved:
  assumes "p < length (states h)" "st_status (states h ! p) = resolved"
    "st_storage (states h ! p) = Some v"
  shows "trace (snd (then2 p (user_resolve f) (user_reject g) h))
           = trace h @ fired_on_resolve v (length (states h), f, g)
       \<and> states (snd (then2 p (user_resolve f) (user_reject g) h)) ! p = states h ! p"
proof -
  let ?n = "length (states h)" and ?h0 = "h\<lparr>states := states h @ [new_state]\<rparr>"
  have fresh: "?n < length (states ?h0)" "states ?h0 ! ?n = new_state" by simp_all
  obtain sf where "run [call_resolve_h (resolve_h ?n (user_resolve f) (reject_h ?n (user_reject g))) v] ?h0
              = upd_state ?n sf (?h0\<lparr>trace := trace ?h0 @ fired_on_resolve v (?n, f, g)\<rparr>)"
    using fire_resolve_user_user[OF fresh] by blast
  then show ?thesis
    using assms(1) by (simp add: then2_resolved[OF assms] nth_append del: run.simps)
qed

lemma then2_user_rejected:
  assumes "p < length (states h)" "st_status (states h ! p) = rejected"
  shows "trace (snd (then2 p (user_resolve f) (user_reject g) h))
           = trace h @ fired_on_reject (st_exception (states h ! p)) (length (states h), f, g)
       \<and> states (snd (then2 p (user_resolve f) (user_reject g) h)) ! p = states h ! p"
proof -
  let ?n = "length (states h)" and ?h0 = "h\<lparr>states := states h @ [new_state]\<rparr>"
  let ?e = "st_exception (states h ! p)"
  have fresh: "?n < length (states ?h0)" "states ?h0 ! ?n = new_state" by simp_all
  obtain sf where "run [call_reject_h (reject_h ?n (user_reject g)) ?e] ?h0
              = upd_state ?n sf (?h0\<lparr>trace := trace ?h0 @ fired_on_reject ?e (?n, f, g)\<rparr>)"
    using fire_reject_user_ex[OF fresh] by blast
  then show ?thesis
    using assms(1) by (simp add: then2_rejected[OF assms] nth_append del: run.simps)
qed

text \<open>One round of the loops of the combinators, on a pending input.\<close>

lemma round_pending:
  fixes h :: "('a, 'e) heap" and p res :: addr and f :: "('a, 'e) resolve_f"
  assumes "is_pending h p"
  defines "L \<equiv> length (states h)"
  defines "h2 \<equiv> snd (fail (fst (then1 p (f) h)) (forward_reject res)
                       (snd (then1 p (f) h)))"
  shows "states h2 =
           (states h)[p := (states h ! p)\<lparr>st_handlers := st_handlers (states h ! p)
                             @ [then_handler L (f) then_default]\<rparr>]
           @ [new_state\<lparr>st_handlers := [then_handler (Suc L) fail_identity (forward_reject res)]\<rparr>,
              new_state]"
    and "trace h2 = trace h" and "contexts h2 = contexts h"
proof -
  let ?h1 = "snd (then1 p (f) h)"
  have p: "p < L" using assms(1) by (simp add: is_pending_def L_def)
  have h1: "?h1 = upd_state p (\<lambda>s. s\<lparr>st_handlers := st_handlers s
                       @ [then_handler L (f) then_default]\<rparr>)
                    (h\<lparr>states := states h @ [new_state]\<rparr>)"
    unfolding then1_def L_def by (simp add: then2_pending[OF assms(1)])
  have st1: "states ?h1 = (states h)[p := (states h ! p)\<lparr>st_handlers := st_handlers (states h ! p)
                             @ [then_handler L (f) then_default]\<rparr>] @ [new_state]"
    using p unfolding h1 by (simp add: states_upd_state nth_append list_update_append L_def)
  have len1: "length (states ?h1) = Suc L" unfolding st1 by (simp add: L_def)
  have pendL: "is_pending ?h1 L"
    unfolding is_pending_def len1 st1 by (simp add: nth_append L_def new_state_def)
  have h2: "h2 = upd_state L (\<lambda>s. s\<lparr>st_handlers := st_handlers s
                       @ [then_handler (Suc L) fail_identity (forward_reject res)]\<rparr>)
                    (?h1\<lparr>states := states ?h1 @ [new_state]\<rparr>)"
    unfolding h2_def fail_def fst_then1 by (simp add: then2_pending[OF pendL[unfolded L_def]] len1 L_def)
  show "states h2 =
           (states h)[p := (states h ! p)\<lparr>st_handlers := st_handlers (states h ! p)
                             @ [then_handler L (f) then_default]\<rparr>]
           @ [new_state\<lparr>st_handlers := [then_handler (Suc L) fail_identity (forward_reject res)]\<rparr>,
              new_state]"
    unfolding h2 using p
    by (simp add: states_upd_state st1 nth_append list_update_append L_def new_state_def)
  show "trace h2 = trace h" "contexts h2 = contexts h" unfolding h2 h1 by simp_all
qed

lemma make_any_loop_rounds: "make_any_loop res ps h = rounds (\<lambda>i. any_resolve res) res i ps h"
  by (induction ps arbitrary: h i) (simp_all add: split_beta)

lemma make_all_loop_rounds:
  "make_all_loop c res i ps h = rounds (\<lambda>i. all_resolve c res i) res i ps h"
  by (induction ps arbitrary: h i) (simp_all add: split_beta)

lemma attached_not_input: "q \<notin> set ps \<Longrightarrow> attached F q i L ps = []"
  by (induction ps arbitrary: i L) auto

lemma length_fresh_pairs [simp]: "length (fresh_pairs res L m) = 2 * m"
  by (induction m arbitrary: L) auto

lemma rounds_pending:
  fixes h :: "('a, 'e) heap"
  assumes "\<forall>p \<in> set ps. is_pending h p"
  shows "states (rounds F res i ps h)
           = map (\<lambda>q. (states h ! q)\<lparr>st_handlers := st_handlers (states h ! q)
                                          @ attached F q i (length (states h)) ps\<rparr>)
                 [0 ..< length (states h)]
             @ fresh_pairs res (length (states h)) (length ps)
       \<and> trace (rounds F res i ps h) = trace h \<and> contexts (rounds F res i ps h) = contexts h"
  using assms
proof (induction ps arbitrary: h i)
  case Nil
  show ?case by (simp add: map_nth)
next
  case (Cons p ps)
  let ?L = "length (states h)"
  let ?hb = "snd (fail (length (states h)) (forward_reject res) (snd (then1 p (F i) h)))"
  have pend: "is_pending h p" using Cons.prems by simp
  have p: "p < ?L" using pend by (simp add: is_pending_def)
  note r = round_pending[OF pend, of "F i" res, unfolded fst_then1]
  have stb: "states ?hb =
           (states h)[p := (states h ! p)\<lparr>st_handlers := st_handlers (states h ! p)
                             @ [then_handler ?L (F i) then_default]\<rparr>]
           @ [new_state\<lparr>st_handlers := [then_handler (Suc ?L) fail_identity (forward_reject res)]\<rparr>,
              new_state]"
    using r(1) .
  have lenb: "length (states ?hb) = Suc (Suc ?L)" unfolding stb by simp
  have oldb: "states ?hb ! q = (states h ! q)\<lparr>st_handlers := st_handlers (states h ! q)
                 @ (if p = q then [then_handler ?L (F i) then_default] else [])\<rparr>"
    if "q < ?L" for q
    using that unfolding stb by (simp add: nth_append nth_list_update)
  have pendb: "\<forall>p' \<in> set ps. is_pending ?hb p'"
  proof
    fix p' assume "p' \<in> set ps"
    then have "is_pending h p'" using Cons.prems by simp
    then show "is_pending ?hb p'"
      using oldb[of p'] lenb by (simp add: is_pending_def)
  qed
  note IH = Cons.IH[OF pendb, of "Suc i", unfolded lenb]
  have inputs: "?L \<notin> set ps" "Suc ?L \<notin> set ps"
    using Cons.prems by (auto simp: is_pending_def)
  have upt: "[0 ..< Suc (Suc ?L)] = [0 ..< ?L] @ [?L, Suc ?L]" by simp
  have old_part: "map (\<lambda>q. (states ?hb ! q)\<lparr>st_handlers := st_handlers (states ?hb ! q)
                                          @ attached F q (Suc i) (Suc (Suc ?L)) ps\<rparr>) [0 ..< ?L]
        = map (\<lambda>q. (states h ! q)\<lparr>st_handlers := st_handlers (states h ! q)
                                          @ attached F q i ?L (p # ps)\<rparr>) [0 ..< ?L]"
    by (rule map_cong[OF refl]) (simp add: oldb)
  have new_part: "map (\<lambda>q. (states ?hb ! q)\<lparr>st_handlers := st_handlers (states ?hb ! q)
                                          @ attached F q (Suc i) (Suc (Suc ?L)) ps\<rparr>) [?L, Suc ?L]
        = [new_state\<lparr>st_handlers := [then_handler (Suc ?L) fail_identity (forward_reject res)]\<rparr>,
           new_state]"
    unfolding stb using inputs by (simp add: attached_not_input nth_append)
  have "states (rounds F res i (p # ps) h)
          = map (\<lambda>q. (states ?hb ! q)\<lparr>st_handlers := st_handlers (states ?hb ! q)
                                          @ attached F q (Suc i) (Suc (Suc ?L)) ps\<rparr>)
                 [0 ..< Suc (Suc ?L)]
            @ fresh_pairs res (Suc (Suc ?L)) (length ps)"
    using IH by simp
  also have "\<dots> = map (\<lambda>q. (states h ! q)\<lparr>st_handlers := st_handlers (states h ! q)
                                          @ attached F q i ?L (p # ps)\<rparr>) [0 ..< ?L]
             @ fresh_pairs res ?L (length (p # ps))"
    unfolding upt map_append old_part new_part by simp
  finally have 1: "states (rounds F res i (p # ps) h)
          = map (\<lambda>q. (states h ! q)\<lparr>st_handlers := st_handlers (states h ! q)
                                          @ attached F q i ?L (p # ps)\<rparr>) [0 ..< ?L]
             @ fresh_pairs res ?L (length (p # ps))" .
  have 2: "trace (rounds F res i (p # ps) h) = trace h"
    "contexts (rounds F res i (p # ps) h) = contexts h"
    using IH r(2,3) by simp_all
  from 1 2 show ?case by blast
qed

lemma attached_form:
  "x \<in> set (attached F q i L ps) \<Longrightarrow>
   \<exists>j < length ps. ps ! j = q \<and> x = then_handler (L + 2 * j) (F (i + j)) then_default"
proof (induction ps arbitrary: i L)
  case Nil
  then show ?case by simp
next
  case (Cons p ps)
  show ?case
  proof (cases "x \<in> set (attached F q (Suc i) (Suc (Suc L)) ps)")
    case True
    then obtain j where "j < length ps" "ps ! j = q"
      "x = then_handler (Suc (Suc L) + 2 * j) (F (Suc i + j)) then_default"
      using Cons.IH by blast
    then show ?thesis by (intro exI[of _ "Suc j"]) simp
  next
    case False
    then have "p = q" "x = then_handler L (F i) then_default"
      using Cons.prems by (auto split: if_splits)
    then show ?thesis by (intro exI[of _ 0]) simp
  qed
qed

lemma attached_nonempty: "q \<in> set ps \<Longrightarrow> attached F q i L ps \<noteq> []"
  by (induction ps arbitrary: i L) auto

lemma fresh_pairs_nth:
  "j < m \<Longrightarrow>
   fresh_pairs res L m ! (2 * j)
     = new_state\<lparr>st_handlers := [then_handler (Suc (L + 2 * j)) fail_identity (forward_reject res)]\<rparr>
   \<and> fresh_pairs res L m ! Suc (2 * j) = new_state"
proof (induction m arbitrary: L j)
  case 0
  then show ?case by simp
next
  case (Suc m)
  show ?case
  proof (cases j)
    case 0
    then show ?thesis by simp
  next
    case (Suc j')
    then have "j' < m" using Suc.prems by simp
    from Suc.IH[OF this, of "Suc (Suc L)"] show ?thesis unfolding Suc by simp
  qed
qed

text \<open>The store after the loop, read state by state.\<close>

lemma rounds_pending_nth:
  fixes h :: "('a, 'e) heap" and F :: "nat \<Rightarrow> ('a, 'e) resolve_f" and res i :: nat
    and ps :: "addr list"
  assumes "\<forall>p \<in> set ps. is_pending h p"
  defines "L \<equiv> length (states h)"
  defines "h1 \<equiv> rounds F res i ps h"
  shows "length (states h1) = L + 2 * length ps"
    and "\<And>q. q < L \<Longrightarrow> states h1 ! q
           = (states h ! q)\<lparr>st_handlers := st_handlers (states h ! q) @ attached F q i L ps\<rparr>"
    and "\<And>j. j < length ps \<Longrightarrow> states h1 ! (L + 2 * j)
           = new_state\<lparr>st_handlers :=
               [then_handler (Suc (L + 2 * j)) fail_identity (forward_reject res)]\<rparr>"
    and "\<And>j. j < length ps \<Longrightarrow> states h1 ! Suc (L + 2 * j) = new_state"
    and "trace h1 = trace h" and "contexts h1 = contexts h"
proof -
  note r = rounds_pending[OF assms(1), of F res i, folded L_def h1_def]
  have st: "states h1 = map (\<lambda>q. (states h ! q)\<lparr>st_handlers := st_handlers (states h ! q)
                                          @ attached F q i L ps\<rparr>) [0 ..< L]
             @ fresh_pairs res L (length ps)"
    using r by simp
  show "length (states h1) = L + 2 * length ps" unfolding st by simp
  show "states h1 ! q
           = (states h ! q)\<lparr>st_handlers := st_handlers (states h ! q) @ attached F q i L ps\<rparr>"
    if "q < L" for q
    using that unfolding st by (simp add: nth_append)
  show "states h1 ! (L + 2 * j)
           = new_state\<lparr>st_handlers :=
               [then_handler (Suc (L + 2 * j)) fail_identity (forward_reject res)]\<rparr>"
    if "j < length ps" for j
    using that unfolding st by (simp add: nth_append fresh_pairs_nth)
  show "states h1 ! Suc (L + 2 * j) = new_state" if "j < length ps" for j
    using that unfolding st by (simp add: nth_append fresh_pairs_nth)
  show "trace h1 = trace h" "contexts h1 = contexts h" using r by simp_all
qed

lemma private_refs_state:
  "State q \<in> private_refs h ps \<longleftrightarrow> length (states h) \<le> q \<or> q \<in> set ps"
  by (auto simp: private_refs_def ref_ok_def)

lemma private_refs_ctx: "Ctx c \<in> private_refs h ps \<longleftrightarrow> length (contexts h) \<le> c"
  by (auto simp: private_refs_def ref_ok_def)

lemma heap_avoids_private:
  fixes h h1 :: "('a, 'e) heap"
  assumes wf: "wf_heap h" and indep: "no_handler_refers h ps"
    and agree: "\<And>q. q < length (states h) \<Longrightarrow> q \<notin> set ps \<Longrightarrow> states h1 ! q = states h ! q"
  shows "heap_avoids (private_refs h ps) h1"
  unfolding heap_avoids_def
proof (intro allI impI ballI)
  fix q x r
  assume q: "q < length (states h1)" "State q \<notin> private_refs h ps"
    "st_status (states h1 ! q) = pending"
    and x: "x \<in> set (st_handlers (states h1 ! q))" and r: "r \<in> set (handler_refs x)"
  have q': "q < length (states h)" "q \<notin> set ps" using q(2) by (auto simp: private_refs_state)
  have eq: "states h1 ! q = states h ! q" using agree[OF q'] .
  have "ref_ok h r" using wf q'(1) q(3) x r unfolding eq wf_heap_def by blast
  moreover have "r \<notin> State ` set ps"
    using indep q'(1) q(3) x r unfolding eq no_handler_refers_def by blast
  ultimately show "r \<notin> private_refs h ps" by (simp add: private_refs_def)
qed

lemma old_calls_avoid_private:
  fixes h :: "('a, 'e) heap"
  assumes wf: "wf_heap h" and indep: "no_handler_refers h ps" and pend: "is_pending h p"
    and cs: "\<And>c r. c \<in> set cs \<Longrightarrow> r \<in> set (call_refs c) \<Longrightarrow>
               \<exists>x \<in> set (st_handlers (states h ! p)). r \<in> set (handler_refs x)"
  shows "calls_avoid (private_refs h ps) cs"
  unfolding calls_avoid_def
proof (intro ballI)
  fix c r assume c: "c \<in> set cs" and r: "r \<in> set (call_refs c)"
  obtain x where x: "x \<in> set (st_handlers (states h ! p))" "r \<in> set (handler_refs x)"
    using cs[OF c r] by blast
  have "ref_ok h r" using x wf pend unfolding wf_heap_def is_pending_def by blast
  moreover have "r \<notin> State ` set ps"
    using x indep pend unfolding no_handler_refers_def is_pending_def by blast
  ultimately show "r \<notin> private_refs h ps" by (simp add: private_refs_def)
qed

lemma heap_avoids_upd_in:
  assumes "State p \<in> A" "heap_avoids A h"
  shows "heap_avoids A (upd_state p f h)"
  unfolding heap_avoids_def
proof (intro allI impI)
  fix q
  assume q: "q < length (states (upd_state p f h))" "State q \<notin> A"
    "st_status (states (upd_state p f h) ! q) = pending"
  have "q \<noteq> p" using q(2) assms(1) by auto
  then have "states (upd_state p f h) ! q = states h ! q" by simp
  then show "\<forall>x \<in> set (st_handlers (states (upd_state p f h) ! q)).
               \<forall>r \<in> set (handler_refs x). r \<notin> A"
    using assms(2) q unfolding heap_avoids_def by simp
qed

text \<open>The store that \<open>make_any_promise\<close> returns when every input is pending.\<close>

lemma make_any_store:
  fixes h :: "('a, 'e) heap"
  assumes ne: "ps \<noteq> []" and pend: "\<forall>p \<in> set ps. is_pending h p"
  defines "k \<equiv> length (states h)"
  defines "h1 \<equiv> rounds (\<lambda>i. any_resolve k) k 0 ps (h\<lparr>states := states h @ [new_state]\<rparr>)"
  shows "make_any_promise ps h = Inr (k, h1)"
    and "length (states h1) = Suc k + 2 * length ps"
    and "\<And>q. q < k \<Longrightarrow> states h1 ! q
           = (states h ! q)\<lparr>st_handlers := st_handlers (states h ! q)
                              @ attached (\<lambda>i. any_resolve k) q 0 (Suc k) ps\<rparr>"
    and "states h1 ! k = new_state"
    and "\<And>j. j < length ps \<Longrightarrow> states h1 ! (Suc k + 2 * j)
           = new_state\<lparr>st_handlers :=
               [then_handler (Suc (Suc k + 2 * j)) fail_identity (forward_reject k)]\<rparr>"
    and "\<And>j. j < length ps \<Longrightarrow> states h1 ! Suc (Suc k + 2 * j) = new_state"
    and "trace h1 = trace h" and "contexts h1 = contexts h"
proof -
  let ?h0 = "h\<lparr>states := states h @ [new_state]\<rparr>"
  have pend0: "\<forall>p \<in> set ps. is_pending ?h0 p"
    using pend by (auto simp: is_pending_def nth_append)
  have len0: "length (states ?h0) = Suc k" by (simp add: k_def)
  note r = rounds_pending_nth[OF pend0, where F = "\<lambda>i. any_resolve k" and res = k and i = 0,
      folded h1_def, unfolded len0]
  show "make_any_promise ps h = Inr (k, h1)"
    using ne unfolding h1_def k_def
    by (simp add: make_any_promise_def make_promise_def new_promise_def
        make_any_loop_rounds[where i = 0])
  show "length (states h1) = Suc k + 2 * length ps" using r(1) .
  show "states h1 ! q = (states h ! q)\<lparr>st_handlers := st_handlers (states h ! q)
                              @ attached (\<lambda>i. any_resolve k) q 0 (Suc k) ps\<rparr>"
    if "q < k" for q
    using r(2)[of q] that by (simp add: nth_append k_def)
  have "k \<notin> set ps" using pend by (auto simp: is_pending_def k_def)
  then show "states h1 ! k = new_state"
    using r(2)[of k] by (simp add: attached_not_input nth_append k_def new_state_def)
  show "states h1 ! (Suc k + 2 * j)
           = new_state\<lparr>st_handlers :=
               [then_handler (Suc (Suc k + 2 * j)) fail_identity (forward_reject k)]\<rparr>"
    if "j < length ps" for j using r(3)[OF that] .
  show "states h1 ! Suc (Suc k + 2 * j) = new_state" if "j < length ps" for j
    using r(4)[OF that] .
  show "trace h1 = trace h" "contexts h1 = contexts h" using r(5,6) by simp_all
qed

lemma untouched_state:
  "untouched A h h' \<Longrightarrow> State q \<in> A \<Longrightarrow> states h' ! q = states h ! q"
  by (simp add: untouched_def)

lemma make_any_first_settle:
  fixes h :: "('a, 'e) heap"
  assumes wf: "wf_heap h" and ne: "ps \<noteq> []" and pend: "\<forall>p \<in> set ps. is_pending h p"
    and indep: "no_handler_refers h ps" and p: "p \<in> set ps"
  defines "k \<equiv> length (states h)"
  defines "h1 \<equiv> rounds (\<lambda>i. any_resolve k) k 0 ps (h\<lparr>states := states h @ [new_state]\<rparr>)"
  shows "fst (resolve p v h1) \<and> outcome (snd (resolve p v h1)) k = (resolved, Some v, nullptr)"
    and "fst (reject p e h1) \<and> outcome (snd (reject p e h1)) k = (rejected, None, e)"
proof -
  note s = make_any_store[OF ne pend, folded k_def, folded h1_def]
  let ?F = "\<lambda>i :: nat. any_resolve k :: ('a, 'e) resolve_f"
  let ?B = "private_refs h ps"
  let ?old = "st_handlers (states h ! p)"
  let ?news = "attached ?F p 0 (Suc k) ps"
  have pp: "is_pending h p" using pend p by simp
  have pk: "p < k" using pp by (simp add: is_pending_def k_def)
  have p1: "states h1 ! p = (states h ! p)\<lparr>st_handlers := ?old @ ?news\<rparr>"
    using s(3)[OF pk] .
  have pend1: "is_pending h1 p"
    using pp pk s(2) unfolding is_pending_def p1 by simp
  obtain x xs where news: "?news = x # xs"
    using attached_nonempty[OF p, of ?F 0 "Suc k"] by (cases ?news) auto
  obtain j where j: "j < length ps" "x = then_handler (Suc k + 2 * j) (any_resolve k) then_default"
    using attached_form[of x ?F p 0 "Suc k" ps] news by auto
  define n1 where "n1 = Suc k + 2 * j"
  define n2 where "n2 = Suc (Suc k + 2 * j)"
  have x: "x = then_handler n1 (any_resolve k) then_default" using j(2) by (simp add: n1_def)
  have ha1: "heap_avoids ?B h1"
  proof (rule heap_avoids_private[OF wf indep])
    fix q assume "q < length (states h)" "q \<notin> set ps"
    then show "states h1 ! q = states h ! q"
      using s(3)[of q] by (simp add: attached_not_input k_def)
  qed
  have inB: "State p \<in> ?B" "State k \<in> ?B" "State n1 \<in> ?B" "State n2 \<in> ?B"
    using p by (simp_all add: private_refs_state k_def n1_def n2_def)
  have neq: "p \<noteq> k" "p \<noteq> n1" "p \<noteq> n2" "k \<noteq> n1" "k \<noteq> n2" "n1 \<noteq> n2"
    using pk by (simp_all add: n1_def n2_def)
  have lens: "k < length (states h1)" "n1 < length (states h1)" "n2 < length (states h1)"
    using s(2) j(1) by (simp_all add: n1_def n2_def)
  {
    fix sf :: "('a, 'e) state \<Rightarrow> ('a, 'e) state" and cs :: "('a, 'e) call list"
    assume cs: "\<And>c r. c \<in> set cs \<Longrightarrow> r \<in> set (call_refs c) \<Longrightarrow>
                 \<exists>x \<in> set ?old. r \<in> set (handler_refs x)"
    let ?h2 = "upd_state p sf h1"
    let ?h3 = "run cs ?h2"
    have ca: "calls_avoid ?B cs" by (rule old_calls_avoid_private[OF wf indep pp cs])
    have ha: "heap_avoids ?B ?h2" by (rule heap_avoids_upd_in[OF inB(1) ha1])
    have u: "untouched ?B ?h2 ?h3" using run_avoids[OF ca ha] by simp
    have "states ?h3 ! k = new_state"
      using untouched_state[OF u inB(2)] neq s(4) by simp
    moreover have "states ?h3 ! n1
        = new_state\<lparr>st_handlers := [then_handler n2 fail_identity (forward_reject k)]\<rparr>"
      using untouched_state[OF u inB(3)] neq s(5)[OF j(1)] by (simp add: n1_def n2_def)
    moreover have "states ?h3 ! n2 = new_state"
      using untouched_state[OF u inB(4)] neq s(6)[OF j(1)] by (simp add: n1_def n2_def)
    moreover have "length (states ?h3) = length (states h1)" by simp
    ultimately have "states ?h3 ! k = new_state
      \<and> states ?h3 ! n1
          = new_state\<lparr>st_handlers := [then_handler n2 fail_identity (forward_reject k)]\<rparr>
      \<and> states ?h3 ! n2 = new_state \<and> length (states ?h3) = length (states h1)"
      by blast
  }
  note frame = this
  show "fst (resolve p v h1) \<and> outcome (snd (resolve p v h1)) k = (resolved, Some v, nullptr)"
  proof -
    let ?sf = "\<lambda>s :: ('a, 'e) state. s\<lparr>st_storage := Some v, st_status := resolved\<rparr>"
    let ?cs = "map (\<lambda>x. call_resolve_h (h_resolve x) v) ?old"
    let ?rest = "map (\<lambda>x. call_resolve_h (h_resolve x) v) xs @ [call_clear p]"
    let ?h3 = "run ?cs (upd_state p ?sf h1)"
    have f: "states ?h3 ! k = new_state \<and> states ?h3 ! n1
          = new_state\<lparr>st_handlers := [then_handler n2 fail_identity (forward_reject k)]\<rparr>
      \<and> states ?h3 ! n2 = new_state \<and> length (states ?h3) = length (states h1)"
      by (rule frame) (auto simp: handler_refs_def)
    have r: "resolve p v h1
      = (True, run (?cs @ call_resolve_h (resolve_h n1 (any_resolve k) (reject_h n1 then_default)) v
                        # ?rest) (upd_state p ?sf h1))"
      using resolve_pending[OF pend1, of v] unfolding p1 news x
      by (simp add: then_handler_def del: run.simps)
    have fk: "is_pending ?h3 k" "st_handlers (states ?h3 ! k) = []"
      using f lens(1) by (simp_all add: is_pending_def new_state_def)
    let ?h4 = "upd_state k (\<lambda>s. s\<lparr>st_storage := Some v, st_status := resolved\<rparr>) ?h3"
    have "snd (resolve p v h1) = run (call_resolve n1 VUnit # ?rest) ?h4"
      unfolding r run_append
      by (simp add: run_call_resolve_fresh[OF fk] del: run.simps
          add: run.simps(2)[of "call_resolve_h _ _"])
    moreover have "outcome (run (call_resolve n1 VUnit # ?rest) ?h4) k = outcome ?h4 k"
      using f lens(1) by (intro run_settled) simp_all
    moreover have "outcome ?h4 k = (resolved, Some v, nullptr)"
      using f lens(1) by (simp add: outcome_upd_state_same new_state_def)
    ultimately show ?thesis using r by simp
  qed
  show "fst (reject p e h1) \<and> outcome (snd (reject p e h1)) k = (rejected, None, e)"
  proof -
    let ?sf = "\<lambda>s :: ('a, 'e) state. s\<lparr>st_exception := e, st_status := rejected\<rparr>"
    let ?cs = "map (\<lambda>x. call_reject_h (h_reject x) e) ?old"
    let ?rest = "map (\<lambda>x. call_reject_h (h_reject x) e) xs @ [call_clear p]"
    let ?h3 = "run ?cs (upd_state p ?sf h1)"
    have f: "states ?h3 ! k = new_state \<and> states ?h3 ! n1
          = new_state\<lparr>st_handlers := [then_handler n2 fail_identity (forward_reject k)]\<rparr>
      \<and> states ?h3 ! n2 = new_state \<and> length (states ?h3) = length (states h1)"
      by (rule frame) (auto simp: handler_refs_def)
    have r: "reject p e h1
      = (True, run (?cs @ call_reject_h (reject_h n1 then_default) e # ?rest)
                 (upd_state p ?sf h1))"
      using reject_pending[OF pend1, of e] unfolding p1 news x
      by (simp add: then_handler_def del: run.simps)
    have f1: "is_pending ?h3 n1"
      "st_handlers (states ?h3 ! n1) = [then_handler n2 fail_identity (forward_reject k)]"
      using f lens(2) by (simp_all add: is_pending_def new_state_def)
    let ?h4 = "upd_state n1 (\<lambda>s. s\<lparr>st_exception := e, st_status := rejected\<rparr>) ?h3"
    have fk: "is_pending ?h4 k" "st_handlers (states ?h4 ! k) = []"
      using f lens(1) neq by (simp_all add: is_pending_def new_state_def)
    let ?h5 = "upd_state k (\<lambda>s. s\<lparr>st_exception := e, st_status := rejected\<rparr>) ?h4"
    let ?rest' = "call_reject n2 e # call_clear n1 # ?rest"
    have e1: "run (call_reject_h (reject_h n1 then_default) e # ?rest) ?h3
                = run (call_reject n1 e # ?rest) ?h3"
      by (simp del: run.simps add: run.simps(2)[of "call_reject_h _ _"])
    have e2: "run (call_reject n1 e # ?rest) ?h3
                = run (call_reject_h (reject_h n2 (forward_reject k)) e # call_clear n1 # ?rest) ?h4"
      using run_call_reject_pending[OF f1(1), of e ?rest] f1(2)
      by (simp add: then_handler_def del: run.simps)
    have e3: "run (call_reject_h (reject_h n2 (forward_reject k)) e # call_clear n1 # ?rest) ?h4
                = run (call_reject k e # ?rest') ?h4"
      by (simp del: run.simps add: run.simps(2)[of "call_reject_h _ _"])
    have e4: "run (call_reject k e # ?rest') ?h4 = run ?rest' ?h5"
      by (rule run_call_reject_fresh[OF fk])
    have "snd (reject p e h1) = run ?rest' ?h5"
      unfolding r run_append snd_conv e1 e2 e3 e4 ..
    moreover have "outcome (run ?rest' ?h5) k = outcome ?h5 k"
      using f lens(1) by (intro run_settled) simp_all
    moreover have "outcome ?h5 k = (rejected, None, e)"
      using f lens(1) neq by (simp add: outcome_upd_state_same new_state_def)
    ultimately show ?thesis using r by simp
  qed
qed

lemma rounds_append:
  "rounds F res i (xs @ ys) h = rounds F res (i + length xs) ys (rounds F res i xs h)"
  by (induction xs arbitrary: i h) simp_all

lemma add_handlers_keeps_settled:
  assumes "q < length (states h)" "st_status (states h ! q) \<noteq> pending"
  shows "outcome (add_handlers p rh jh h) q = outcome h q
         \<and> length (states (add_handlers p rh jh h)) = length (states h)"
proof -
  have r: "outcome (run cs h) q = outcome h q" for cs
    using assms by (intro run_settled)
  have u: "outcome (upd_state p (\<lambda>s. s\<lparr>st_handlers := st_handlers s @ [x]\<rparr>) h) q = outcome h q"
    for x
    using assms(1) by (cases "p = q") (simp_all add: outcome_def)
  show ?thesis
    using r u
    by (simp add: add_handlers_def Let_def del: run.simps split: option.splits)
qed

lemma then2_keeps_settled:
  assumes "q < length (states h)" "st_status (states h ! q) \<noteq> pending"
  shows "outcome (snd (then2 p f g h)) q = outcome h q"
    and "length (states (snd (then2 p f g h))) = Suc (length (states h))"
proof -
  let ?h0 = "h\<lparr>states := states h @ [new_state]\<rparr>"
  have q0: "q < length (states ?h0)" "st_status (states ?h0 ! q) \<noteq> pending"
    using assms by (simp_all add: nth_append)
  have o0: "outcome ?h0 q = outcome h q" using assms(1) by (simp add: outcome_def nth_append)
  note a = add_handlers_keeps_settled[OF q0]
  show "outcome (snd (then2 p f g h)) q = outcome h q"
    using a o0 by (simp add: then2_def new_promise_def attach_def)
  show "length (states (snd (then2 p f g h))) = Suc (length (states h))"
    using a by (simp add: then2_def new_promise_def attach_def)
qed

lemma length_then2:
  "length (states (snd (then2 p f g h))) = Suc (length (states h))"
  by (simp add: then2_def new_promise_def attach_def add_handlers_def Let_def
      del: run.simps split: option.splits)

lemma rounds_keeps_settled:
  assumes "q < length (states h)" "st_status (states h ! q) \<noteq> pending"
  shows "outcome (rounds F res i ps h) q = outcome h q"
  using assms
proof (induction ps arbitrary: h i)
  case Nil
  show ?case by simp
next
  case (Cons p ps)
  let ?ha = "snd (then1 p (F i) h)"
  let ?hb = "snd (fail (length (states h)) (forward_reject res) ?ha)"
  have a: "outcome ?ha q = outcome h q" "length (states ?ha) = Suc (length (states h))"
    unfolding then1_def using then2_keeps_settled[OF Cons.prems] by simp_all
  have qa: "q < length (states ?ha)" "st_status (states ?ha ! q) \<noteq> pending"
    using a Cons.prems by (simp_all add: outcome_def)
  have b: "outcome ?hb q = outcome ?ha q" "length (states ?hb) = Suc (length (states ?ha))"
    unfolding fail_def using then2_keeps_settled[OF qa] by simp_all
  have qb: "q < length (states ?hb)" "st_status (states ?hb ! q) \<noteq> pending"
    using a b qa by (simp_all add: outcome_def)
  show ?case using Cons.IH[OF qb, of "Suc i"] a b by simp
qed

text \<open>One round on an input that is already settled, with the output still fresh.\<close>

lemma round_on_resolved:
  fixes h :: "('a, 'e) heap"
  assumes q: "q < length (states h)" "st_status (states h ! q) = resolved"
    "st_storage (states h ! q) = Some v"
    and k: "k < length (states h)" "states h ! k = new_state"
  defines "hb \<equiv> snd (fail (length (states h)) (forward_reject k)
                       (snd (then1 q (any_resolve k) h)))"
  shows "outcome hb k = (resolved, Some v, nullptr) \<and> k < length (states hb)"
proof -
  let ?n1 = "length (states h)"
  let ?h0 = "h\<lparr>states := states h @ [new_state]\<rparr>"
  let ?ha = "snd (then1 q (any_resolve k) h)"
  have fk: "is_pending ?h0 k" "st_handlers (states ?h0 ! k) = []"
    using k by (simp_all add: is_pending_def nth_append new_state_def)
  let ?h1 = "upd_state k (\<lambda>s. s\<lparr>st_storage := Some v, st_status := resolved\<rparr>) ?h0"
  have "?ha = run [call_resolve_h (resolve_h ?n1 (any_resolve k) (reject_h ?n1 then_default)) v] ?h0"
    unfolding then1_def by (simp add: then2_resolved[OF q] del: run.simps)
  also have "\<dots> = run [call_resolve ?n1 VUnit] ?h1"
    by (simp add: run_call_resolve_fresh[OF fk] del: run.simps
        add: run.simps(2)[of "call_resolve_h _ _"])
  finally have ha: "?ha = run [call_resolve ?n1 VUnit] ?h1" .
  have "outcome (run [call_resolve ?n1 VUnit] ?h1) k = outcome ?h1 k"
    using k(1) by (intro run_settled) simp_all
  then have oa: "outcome ?ha k = (resolved, Some v, nullptr)"
    unfolding ha using k by (simp add: outcome_upd_state_same nth_append new_state_def)
  have la: "length (states ?ha) = Suc ?n1" unfolding ha by (simp del: run.simps)
  have ka: "k < length (states ?ha)" "st_status (states ?ha ! k) \<noteq> pending"
    using oa la k(1) by (simp_all add: outcome_def)
  show ?thesis
    unfolding hb_def fail_def using then2_keeps_settled[OF ka] oa ka(1) by simp
qed

lemma round_on_rejected:
  fixes h :: "('a, 'e) heap" and f :: "('a, 'e) resolve_f"
  assumes q: "q < length (states h)" "st_status (states h ! q) = rejected"
    and k: "k < length (states h)" "states h ! k = new_state"
  defines "hb \<equiv> snd (fail (length (states h)) (forward_reject k)
                       (snd (then1 q f h)))"
  shows "outcome hb k = (rejected, None, st_exception (states h ! q)) \<and> k < length (states hb)"
proof -
  define n1 where "n1 = length (states h)"
  define n2 where "n2 = Suc n1"
  let ?e = "st_exception (states h ! q)"
  let ?h0 = "h\<lparr>states := states h @ [new_state]\<rparr>"
  let ?ha = "snd (then1 q f h)"
  have f1: "n1 < length (states ?h0)" "states ?h0 ! n1 = new_state" by (simp_all add: n1_def)
  have ha: "?ha = upd_state n1 (\<lambda>s. s\<lparr>st_exception := ?e, st_status := rejected\<rparr>) ?h0"
    unfolding then1_def
    by (simp add: then2_rejected[OF q] fire_reject_default[OF f1, unfolded n1_def] n1_def
        del: run.simps)
  have kn: "k \<noteq> n1" using k(1) by (simp add: n1_def)
  have a1: "n1 < length (states ?ha)" "st_status (states ?ha ! n1) = rejected"
    "st_exception (states ?ha ! n1) = ?e" "length (states ?ha) = n2"
    unfolding ha by (simp_all add: n1_def n2_def)
  let ?h1 = "?ha\<lparr>states := states ?ha @ [new_state]\<rparr>"
  have fk: "is_pending ?h1 k" "st_handlers (states ?h1 ! k) = []"
    using k kn unfolding ha by (simp_all add: is_pending_def nth_append new_state_def)
  let ?h2 = "upd_state k (\<lambda>s. s\<lparr>st_exception := ?e, st_status := rejected\<rparr>) ?h1"
  have "snd (then2 n1 fail_identity (forward_reject k) ?ha)
          = run [call_reject_h (reject_h n2 (forward_reject k)) ?e] ?h1"
    using then2_rejected[OF a1(1,2), of fail_identity "forward_reject k"] a1(3,4) by simp
  also have "\<dots> = run [call_reject k ?e, call_reject n2 ?e] ?h1"
    by (simp del: run.simps add: run.simps(2)[of "call_reject_h _ _"])
  also have "\<dots> = run [call_reject n2 ?e] ?h2"
    by (rule run_call_reject_fresh[OF fk])
  finally have hb: "hb = run [call_reject n2 ?e] ?h2"
    unfolding hb_def fail_def n1_def .
  have k1: "k < length (states ?h1)" using k(1) a1(4) by (simp add: n2_def n1_def)
  have "outcome (run [call_reject n2 ?e] ?h2) k = outcome ?h2 k"
    using k1 by (intro run_settled) simp_all
  moreover have "outcome ?h2 k = (rejected, None, ?e)"
    using k1 k kn unfolding ha
    by (simp add: outcome_upd_state_same nth_append new_state_def)
  ultimately show ?thesis unfolding hb using k1 by (simp del: run.simps)
qed

lemma make_any_settled_input:
  fixes h :: "('a, 'e) heap" and pre post :: "addr list" and q :: addr
  assumes pre: "\<forall>p \<in> set pre. is_pending h p" and q: "q < length (states h)"
  defines "k \<equiv> length (states h)"
  defines "h1 \<equiv> rounds (\<lambda>i. any_resolve k) k 0 (pre @ q # post) (h\<lparr>states := states h @ [new_state]\<rparr>)"
  shows "make_any_promise (pre @ q # post) h = Inr (k, h1)"
    and "st_status (states h ! q) = resolved \<Longrightarrow> st_storage (states h ! q) = Some v \<Longrightarrow>
         outcome h1 k = (resolved, Some v, nullptr)"
    and "st_status (states h ! q) = rejected \<Longrightarrow>
         outcome h1 k = (rejected, None, st_exception (states h ! q))"
proof -
  let ?F = "\<lambda>i :: nat. any_resolve k :: ('a, 'e) resolve_f"
  let ?h0 = "h\<lparr>states := states h @ [new_state]\<rparr>"
  let ?ha = "rounds ?F k 0 pre ?h0"
  let ?hb = "snd (fail (length (states ?ha)) (forward_reject k) (snd (then1 q (any_resolve k) ?ha)))"
  show "make_any_promise (pre @ q # post) h = Inr (k, h1)"
    unfolding h1_def k_def
    by (simp add: make_any_promise_def make_promise_def new_promise_def
        make_any_loop_rounds[where i = 0])
  have pend0: "\<forall>p \<in> set pre. is_pending ?h0 p"
    using pre by (auto simp: is_pending_def nth_append)
  have len0: "length (states ?h0) = Suc k" by (simp add: k_def)
  note r = rounds_pending_nth[OF pend0, where F = ?F and res = k and i = 0, unfolded len0]
  have kpre: "k \<notin> set pre" using pre by (auto simp: is_pending_def k_def)
  have ka: "k < length (states ?ha)" "states ?ha ! k = new_state"
    using r(1) r(2)[of k] kpre by (simp_all add: attached_not_input nth_append k_def new_state_def)
  have h1: "h1 = rounds ?F k (Suc (length pre)) post ?hb"
    unfolding h1_def rounds_append by simp
  {
    assume st: "st_status (states h ! q) = resolved" "st_storage (states h ! q) = Some v"
    have qpre: "q \<notin> set pre" using pre st(1) by (auto simp: is_pending_def)
    have qa: "q < length (states ?ha)" "st_status (states ?ha ! q) = resolved"
      "st_storage (states ?ha ! q) = Some v"
      using r(1) r(2)[of q] q qpre st by (simp_all add: attached_not_input nth_append k_def)
    note b = round_on_resolved[OF qa ka]
    have "outcome h1 k = outcome ?hb k"
      unfolding h1 using b by (intro rounds_keeps_settled) (simp_all add: outcome_def)
    then show "outcome h1 k = (resolved, Some v, nullptr)" using b by simp
  }
  {
    assume st: "st_status (states h ! q) = rejected"
    have qpre: "q \<notin> set pre" using pre st(1) by (auto simp: is_pending_def)
    have qa: "q < length (states ?ha)" "st_status (states ?ha ! q) = rejected"
      and e: "st_exception (states ?ha ! q) = st_exception (states h ! q)"
      using r(1) r(2)[of q] q qpre st by (simp_all add: attached_not_input nth_append k_def)
    note b = round_on_rejected[OF qa ka, where f = "any_resolve k", unfolded e]
    have "outcome h1 k = outcome ?hb k"
      unfolding h1 using b by (intro rounds_keeps_settled) (simp_all add: outcome_def)
    then show "outcome h1 k = (rejected, None, st_exception (states h ! q))" using b by simp
  }
qed

lemma two_promises_eq:
  "two_promises = \<lparr>states = [new_state, new_state], contexts = [], trace = []\<rparr>"
  by (simp add: two_promises_def one_promise_eq new_promise_def)

lemma rejected_second_eq:
  "snd (reject 1 (thrown ''boom'') two_promises) =
     \<lparr>states = [new_state,
                 \<lparr>st_storage = None, st_status = rejected, st_exception = thrown ''boom'',
                  st_handlers = []\<rparr>], contexts = [], trace = []\<rparr>"
  by (simp add: two_promises_eq reject_def reject_enter_def is_pending_def
      new_state_def Let_def upd_state_def invoke_reject_handlers_def)

lemma settled_pair_eq:
  "settled_pair =
     \<lparr>states = [\<lparr>st_storage = Some (VAtom 7), st_status = resolved, st_exception = nullptr,
                  st_handlers = []\<rparr>,
                 \<lparr>st_storage = None, st_status = rejected, st_exception = thrown ''boom'',
                  st_handlers = []\<rparr>], contexts = [], trace = []\<rparr>"
  unfolding settled_pair_def rejected_second_eq
  by (simp add: resolve_def resolve_enter_def is_pending_def
      new_state_def Let_def upd_state_def invoke_resolve_handlers_def)

lemma resolve_keeps_settled:
  assumes "r < length (states h)" "\<not> is_pending h r"
  shows "outcome (snd (resolve p v h)) r = outcome h r"
    and "outcome (snd (reject p e h)) r = outcome h r"
proof -
  have st: "st_status (states h ! r) \<noteq> pending" using assms by (simp add: is_pending_def)
  have "outcome (run cs (upd_state p f h)) r = outcome (upd_state p f h) r"
    if "p \<noteq> r" for cs f
    using assms(1) st that by (intro run_settled) simp_all
  then have *: "outcome (run cs (upd_state p f h)) r = outcome h r" if "p \<noteq> r" for cs f
    using that by simp
  show "outcome (snd (resolve p v h)) r = outcome h r"
  proof (cases "is_pending h p")
    case True
    then have "p \<noteq> r" using assms(2) by auto
    then show ?thesis using * by (simp add: resolve_pending[OF True] del: run.simps)
  next
    case False
    then show ?thesis by (simp add: resolve_settled)
  qed
  show "outcome (snd (reject p e h)) r = outcome h r"
  proof (cases "is_pending h p")
    case True
    then have "p \<noteq> r" using assms(2) by auto
    then show ?thesis using * by (simp add: reject_pending[OF True] del: run.simps)
  next
    case False
    then show ?thesis by (simp add: reject_settled)
  qed
qed

lemma two_promises_facts:
  "wf_heap two_promises" "\<forall>p \<in> set [0, 1]. is_pending two_promises p"
  "no_handler_refers two_promises [0, 1]" "length (states two_promises) = 2"
  by (simp_all add: two_promises_eq wf_heap_def is_pending_def no_handler_refers_def new_state_def
      less_Suc_eq)

lemma length_contexts_step: "length (contexts (snd (step c h))) = length (contexts h)"
proof (cases c)
  case (call_resolve_h rh v)
  obtain n f j where rh: "rh = resolve_h n f j" by (cases rh)
  show ?thesis unfolding call_resolve_h rh
    by (cases f) (simp_all add: Let_def split_beta split: sum.splits)
next
  case (call_reject_h jh e)
  obtain n f where jh: "jh = reject_h n f" by (cases jh)
  show ?thesis unfolding call_reject_h jh
    by (cases f) (simp_all add: Let_def split: option.splits)
qed (simp_all add: split_beta)

lemma length_contexts_run [simp]: "length (contexts (run cs h)) = length (contexts h)"
proof (induction cs h rule: run.induct)
  case (1 h)
  show ?case by simp
next
  case (2 c cs h)
  obtain body h' where st: "step c h = (body, h')" by (cases "step c h")
  from 2[OF st [symmetric]] st length_contexts_step[of c h] show ?case by simp
qed

text \<open>The store that \<open>make_all_promise\<close> returns when every input is pending.\<close>

lemma make_all_store:
  fixes h :: "('a, 'e) heap" and ps :: "addr list" and dflt :: "'a val"
  assumes ne: "ps \<noteq> []" and pend: "\<forall>p \<in> set ps. is_pending h p"
  defines "k \<equiv> length (states h)" and "c \<equiv> length (contexts h)"
  defines "h1 \<equiv> rounds (\<lambda>i. all_resolve c k i) k 0 ps
                   (h\<lparr>states := states h @ [new_state],
                      contexts := contexts h @ [\<lparr>results = replicate (length ps) dflt, counter = 0\<rparr>]\<rparr>)"
  shows "make_all_promise dflt ps h = (k, h1)"
    and "length (states h1) = Suc k + 2 * length ps"
    and "\<And>q. q < k \<Longrightarrow> states h1 ! q
           = (states h ! q)\<lparr>st_handlers := st_handlers (states h ! q)
                              @ attached (\<lambda>i. all_resolve c k i) q 0 (Suc k) ps\<rparr>"
    and "states h1 ! k = new_state"
    and "\<And>j. j < length ps \<Longrightarrow> states h1 ! (Suc k + 2 * j)
           = new_state\<lparr>st_handlers :=
               [then_handler (Suc (Suc k + 2 * j)) fail_identity (forward_reject k)]\<rparr>"
    and "\<And>j. j < length ps \<Longrightarrow> states h1 ! Suc (Suc k + 2 * j) = new_state"
    and "trace h1 = trace h"
    and "contexts h1 = contexts h @ [\<lparr>results = replicate (length ps) dflt, counter = 0\<rparr>]"
proof -
  let ?h0 = "h\<lparr>states := states h @ [new_state],
                contexts := contexts h @ [\<lparr>results = replicate (length ps) dflt, counter = 0\<rparr>]\<rparr>"
  have pend0: "\<forall>p \<in> set ps. is_pending ?h0 p"
    using pend by (auto simp: is_pending_def nth_append)
  have len0: "length (states ?h0) = Suc k" by (simp add: k_def)
  note r = rounds_pending_nth[OF pend0, where F = "\<lambda>i. all_resolve c k i" and res = k and i = 0,
      folded h1_def, unfolded len0]
  show "make_all_promise dflt ps h = (k, h1)"
    using ne unfolding h1_def k_def c_def
    by (simp add: make_all_promise_def make_promise_def new_promise_def new_context_def
        make_all_loop_rounds)
  show "length (states h1) = Suc k + 2 * length ps" using r(1) .
  show "states h1 ! q = (states h ! q)\<lparr>st_handlers := st_handlers (states h ! q)
                              @ attached (\<lambda>i. all_resolve c k i) q 0 (Suc k) ps\<rparr>"
    if "q < k" for q
    using r(2)[of q] that by (simp add: nth_append k_def)
  have "k \<notin> set ps" using pend by (auto simp: is_pending_def k_def)
  then show "states h1 ! k = new_state"
    using r(2)[of k] by (simp add: attached_not_input nth_append k_def new_state_def)
  show "states h1 ! (Suc k + 2 * j)
           = new_state\<lparr>st_handlers :=
               [then_handler (Suc (Suc k + 2 * j)) fail_identity (forward_reject k)]\<rparr>"
    if "j < length ps" for j using r(3)[OF that] .
  show "states h1 ! Suc (Suc k + 2 * j) = new_state" if "j < length ps" for j
    using r(4)[OF that] .
  show "trace h1 = trace h"
    "contexts h1 = contexts h @ [\<lparr>results = replicate (length ps) dflt, counter = 0\<rparr>]"
    using r(5,6) by simp_all
qed

lemma attached_distinct:
  "distinct ps \<Longrightarrow> j < length ps \<Longrightarrow>
   attached F (ps ! j) i L ps = [then_handler (L + 2 * j) (F (i + j)) then_default]"
proof (induction ps arbitrary: i L j)
  case Nil
  then show ?case by simp
next
  case (Cons p ps)
  show ?case
  proof (cases j)
    case 0
    then show ?thesis using Cons.prems by (simp add: attached_not_input)
  next
    case (Suc j')
    then have j': "j' < length ps" using Cons.prems by simp
    have "p \<noteq> ps ! j'" using Cons.prems(1) j' by auto
    then show ?thesis
      unfolding Suc using Cons.IH[OF _ j', of "Suc i" "Suc (Suc L)"] Cons.prems(1) by simp
  qed
qed

lemma heap_avoids_agree:
  assumes "heap_avoids A h" "length (states h') = length (states h)"
    "\<And>q. State q \<notin> A \<Longrightarrow> states h' ! q = states h ! q"
  shows "heap_avoids A h'"
  using assms unfolding heap_avoids_def by simp

text \<open>The lambda of \<open>make_all_promise\<close> for input \<open>i\<close> fires: it stores the value, counts,
  resolves the output when the count is full, and the two promises of the round resolve.\<close>

lemma fire_all_resolve:
  fixes h3 :: "('a, 'e) heap" and c i n1 n2 k :: nat and v :: "'a val"
  assumes c: "c < length (contexts h3)"
    and n1: "n1 < length (states h3)"
      "states h3 ! n1 = new_state\<lparr>st_handlers := [then_handler n2 fail_identity (forward_reject k)]\<rparr>"
    and n2: "n2 < length (states h3)" "states h3 ! n2 = new_state"
    and neq: "n1 \<noteq> n2" "k \<noteq> n1" "k \<noteq> n2"
    and k: "k < length (states h3)"
      "Suc (counter (contexts h3 ! c)) = length (results (contexts h3 ! c)) \<Longrightarrow>
       states h3 ! k = new_state"
  defines "ctx' \<equiv> (contexts h3 ! c)\<lparr>results := (results (contexts h3 ! c))[i := v],
                                    counter := Suc (counter (contexts h3 ! c))\<rparr>"
  shows "\<exists>h'. run (call_resolve_h (resolve_h n1 (all_resolve c k i) j) v # rest) h3 = run rest h'
            \<and> length (states h') = length (states h3)
            \<and> contexts h' = (contexts h3)[c := ctx']
            \<and> (\<forall>q. q \<noteq> k \<and> q \<noteq> n1 \<and> q \<noteq> n2 \<longrightarrow> states h' ! q = states h3 ! q)
            \<and> (if Suc (counter (contexts h3 ! c)) = length (results (contexts h3 ! c))
                then outcome h' k = (resolved, Some (VVec (results ctx')), nullptr)
                else states h' ! k = states h3 ! k)
            \<and> st_status (states h' ! n1) = resolved \<and> st_status (states h' ! n2) = resolved"
proof -
  let ?filled = "Suc (counter (contexts h3 ! c)) = length (results (contexts h3 ! c))"
  let ?hc = "h3\<lparr>contexts := (contexts h3)[c := ctx']\<rparr>"
  let ?settle = "\<lambda>w (s :: ('a, 'e) state). s\<lparr>st_storage := Some w, st_status := resolved\<rparr>"
  define ha where "ha = (if ?filled then upd_state k (?settle (VVec (results ctx'))) ?hc else ?hc)"
  define hb where "hb = upd_state n1 (?settle VUnit) ha"
  define hd where "hd = upd_state n2 (?settle VUnit) hb"
  define he where "he = upd_state n1 (\<lambda>s. s\<lparr>st_handlers := []\<rparr>) hd"
  let ?after = "call_resolve n1 VUnit # rest"
  have ap: "apply_result c i v h3 = (?filled, ?hc)"
    using c by (simp add: apply_result_def Let_def ctx'_def)
  have res: "results (contexts ?hc ! c) = results ctx'" using c by simp
  have e1: "run (call_resolve_h (resolve_h n1 (all_resolve c k i) j) v # rest) h3
              = run ?after ha"
  proof (cases ?filled)
    case True
    have fk: "is_pending ?hc k" "st_handlers (states ?hc ! k) = []"
      using k(1) k(2)[OF True] by (simp_all add: is_pending_def new_state_def)
    have "run (call_resolve_h (resolve_h n1 (all_resolve c k i) j) v # rest) h3
            = run (call_resolve k (VVec (results ctx')) # ?after) ?hc"
      using True ap res
      by (simp del: run.simps add: run.simps(2)[of "call_resolve_h _ _"])
    also have "\<dots> = run ?after ha"
      unfolding ha_def using True run_call_resolve_fresh[OF fk] by simp
    finally show ?thesis .
  next
    case False
    then show ?thesis
      unfolding ha_def using ap
      by (simp del: run.simps add: run.simps(2)[of "call_resolve_h _ _"])
  qed
  have sa: "states ha ! q = states h3 ! q" if "q \<noteq> k" for q
    using that unfolding ha_def by simp
  have la: "length (states ha) = length (states h3)" unfolding ha_def by simp
  have f1: "is_pending ha n1"
    "st_handlers (states ha ! n1) = [then_handler n2 fail_identity (forward_reject k)]"
    using n1 neq sa[of n1] la by (simp_all add: is_pending_def new_state_def)
  have e2: "run ?after ha
              = run (call_resolve_h (resolve_h n2 fail_identity (reject_h n2 (forward_reject k))) VUnit
                     # call_clear n1 # rest) hb"
    unfolding hb_def using run_call_resolve_pending[OF f1(1), of VUnit rest] f1(2)
    by (simp add: then_handler_def del: run.simps)
  have f2: "is_pending hb n2" "st_handlers (states hb ! n2) = []"
    using n2 neq sa[of n2] la unfolding hb_def by (simp_all add: is_pending_def new_state_def)
  have e3: "run (call_resolve_h (resolve_h n2 fail_identity (reject_h n2 (forward_reject k))) VUnit
                 # call_clear n1 # rest) hb
              = run (call_resolve n2 VUnit # call_clear n1 # rest) hb"
    by (simp del: run.simps add: run.simps(2)[of "call_resolve_h _ _"])
  have e4: "run (call_resolve n2 VUnit # call_clear n1 # rest) hb = run (call_clear n1 # rest) hd"
    unfolding hd_def by (rule run_call_resolve_fresh[OF f2])
  have e5: "run (call_clear n1 # rest) hd = run rest he"
    unfolding he_def by (rule run_call_clear)
  have run: "run (call_resolve_h (resolve_h n1 (all_resolve c k i) j) v # rest) h3 = run rest he"
    unfolding e1 e2 e3 e4 e5 ..
  have len: "length (states he) = length (states h3)"
    unfolding he_def hd_def hb_def using la by simp
  have ctx: "contexts he = (contexts h3)[c := ctx']"
    unfolding he_def hd_def hb_def ha_def by simp
  have other: "states he ! q = states h3 ! q" if "q \<noteq> k" "q \<noteq> n1" "q \<noteq> n2" for q
    using that sa[of q] unfolding he_def hd_def hb_def by simp
  have kk: "states he ! k = states ha ! k"
    using neq unfolding he_def hd_def hb_def by simp
  have out: "if ?filled then outcome he k = (resolved, Some (VVec (results ctx')), nullptr)
             else states he ! k = states h3 ! k"
  proof (cases ?filled)
    case True
    then show ?thesis
      using kk k(1) k(2)[OF True] unfolding ha_def
      by (simp add: outcome_def new_state_def)
  next
    case False
    then show ?thesis using kk unfolding ha_def by simp
  qed
  have settled12: "st_status (states he ! n1) = resolved" "st_status (states he ! n2) = resolved"
    unfolding he_def hd_def hb_def using n1(1) n2(1) neq la by simp_all
  show ?thesis
    using run len ctx other out settled12 by (intro exI[of _ he]) simp
qed

text \<open>A rejection of an input reaches the output through the two promises of its round.\<close>

lemma fire_forward_reject:
  fixes h3 :: "('a, 'e) heap"
  assumes n1: "n1 < length (states h3)"
      "states h3 ! n1 = new_state\<lparr>st_handlers := [then_handler n2 fail_identity (forward_reject k)]\<rparr>"
    and k: "k < length (states h3)" "states h3 ! k = new_state" and neq: "k \<noteq> n1"
  shows "outcome (run (call_reject_h (reject_h n1 then_default) e # rest) h3) k
           = (rejected, None, e)"
proof -
  let ?rej = "\<lambda>s :: ('a, 'e) state. s\<lparr>st_exception := e, st_status := rejected\<rparr>"
  let ?h4 = "upd_state n1 ?rej h3"
  let ?h5 = "upd_state k ?rej ?h4"
  let ?rest' = "call_reject n2 e # call_clear n1 # rest"
  have f1: "is_pending h3 n1"
    "st_handlers (states h3 ! n1) = [then_handler n2 fail_identity (forward_reject k)]"
    using n1 by (simp_all add: is_pending_def new_state_def)
  have fk: "is_pending ?h4 k" "st_handlers (states ?h4 ! k) = []"
    using k neq by (simp_all add: is_pending_def new_state_def)
  have e1: "run (call_reject_h (reject_h n1 then_default) e # rest) h3
              = run (call_reject n1 e # rest) h3"
    by (simp del: run.simps add: run.simps(2)[of "call_reject_h _ _"])
  have e2: "run (call_reject n1 e # rest) h3
              = run (call_reject_h (reject_h n2 (forward_reject k)) e # call_clear n1 # rest) ?h4"
    using run_call_reject_pending[OF f1(1), of e rest] f1(2)
    by (simp add: then_handler_def del: run.simps)
  have e3: "run (call_reject_h (reject_h n2 (forward_reject k)) e # call_clear n1 # rest) ?h4
              = run (call_reject k e # ?rest') ?h4"
    by (simp del: run.simps add: run.simps(2)[of "call_reject_h _ _"])
  have e4: "run (call_reject k e # ?rest') ?h4 = run ?rest' ?h5"
    by (rule run_call_reject_fresh[OF fk])
  have "outcome (run ?rest' ?h5) k = outcome ?h5 k"
    using k(1) by (intro run_settled) simp_all
  moreover have "outcome ?h5 k = (rejected, None, e)"
    using k neq by (simp add: outcome_upd_state_same new_state_def)
  ultimately show ?thesis unfolding e1 e2 e3 e4 by simp
qed

lemma all_inv_initial:
  fixes h :: "('a, 'e) heap"
  assumes wf: "wf_heap h" and indep: "no_handler_refers h ps" and ne: "ps \<noteq> []"
    and pend: "\<forall>p \<in> set ps. is_pending h p" and dist: "distinct ps"
  shows "all_inv h dflt ps vs {} (snd (make_all_promise dflt ps h))"
    and "fst (make_all_promise dflt ps h) = length (states h)"
proof -
  let ?k = "length (states h)" and ?c = "length (contexts h)"
  let ?F = "\<lambda>i. all_resolve ?c ?k i :: ('a, 'e) resolve_f"
  note s = make_all_store[OF ne pend, where dflt = dflt]
  let ?h1 = "snd (make_all_promise dflt ps h)"
  have h1: "?h1 = rounds ?F ?k 0 ps
                   (h\<lparr>states := states h @ [new_state],
                      contexts := contexts h @ [\<lparr>results = replicate (length ps) dflt, counter = 0\<rparr>]\<rparr>)"
    using s(1) by simp
  note t = s(2-)[folded h1]
  show "fst (make_all_promise dflt ps h) = length (states h)" using s(1) by simp
  have ha: "heap_avoids (private_refs h ps) ?h1"
  proof (rule heap_avoids_private[OF wf indep])
    fix q assume "q < length (states h)" "q \<notin> set ps"
    then show "states ?h1 ! q = states h ! q"
      using t(2)[of q] by (simp add: attached_not_input)
  qed
  have inputs: "states ?h1 ! (ps ! i)
              = (states h ! (ps ! i))\<lparr>st_handlers := st_handlers (states h ! (ps ! i))
                  @ [then_handler (Suc ?k + 2 * i) (all_resolve ?c ?k i) then_default]\<rparr>"
    if "i < length ps" for i
  proof -
    have "ps ! i < ?k" using pend that by (simp add: is_pending_def)
    from t(2)[OF this] show ?thesis
      using attached_distinct[OF dist that, of ?F 0 "Suc ?k"] by simp
  qed
  have ctx: "contexts ?h1 ! ?c
          = \<lparr>results = map (\<lambda>i. if i \<in> {} then vs ! i else dflt) [0 ..< length ps],
             counter = card ({} :: nat set)\<rparr>"
    using t(7) by (simp add: map_replicate_const)
  have ne': "({} :: nat set) \<noteq> {..< length ps}" using ne by auto
  show "all_inv h dflt ps vs {} ?h1"
    unfolding all_inv_def using t(1,3,4,5,7) ha inputs ctx ne' by simp
qed

lemma filled_iff:
  assumes "R \<subseteq> {..< n}" "i < n" "i \<notin> R"
  shows "(Suc (card R) = n) = (insert i R = {..< n})"
    and "card (insert i R) = Suc (card R)"
proof -
  have fin: "finite R" using assms(1) finite_subset by blast
  show c: "card (insert i R) = Suc (card R)" using fin assms(3) by simp
  have sub: "insert i R \<subseteq> {..< n}" using assms by auto
  show "(Suc (card R) = n) = (insert i R = {..< n})"
  proof
    assume "Suc (card R) = n"
    then have "card (insert i R) = card {..< n}" using c by simp
    then show "insert i R = {..< n}" using sub by (intro card_subset_eq) simp_all
  next
    assume "insert i R = {..< n}"
    then have "card (insert i R) = n" by simp
    then show "Suc (card R) = n" using c by simp
  qed
qed

lemma results_update:
  assumes "i < n"
  shows "(map (\<lambda>j. if j \<in> R then vs ! j else dflt) [0 ..< n])[i := vs ! i]
           = map (\<lambda>j. if j \<in> insert i R then vs ! j else dflt) [0 ..< n]"
  using assms by (intro nth_equalityI) (auto simp: nth_list_update)

lemma results_full: "length vs = n \<Longrightarrow> map (\<lambda>j. if j \<in> {..< n} then vs ! j else dflt) [0 ..< n] = vs"
  by (intro nth_equalityI) auto

lemma all_inv_resolve:
  fixes h0 h :: "('a, 'e) heap"
  assumes wf: "wf_heap h0" and indep: "no_handler_refers h0 ps"
    and pend0: "\<forall>p \<in> set ps. is_pending h0 p" and dist: "distinct ps"
    and len: "length vs = length ps"
    and inv: "all_inv h0 dflt ps vs R h" and R: "R \<subseteq> {..< length ps}"
    and i: "i < length ps" "i \<notin> R"
  shows "fst (resolve (ps ! i) (vs ! i) h)
       \<and> all_inv h0 dflt ps vs (insert i R) (snd (resolve (ps ! i) (vs ! i) h))"
proof -
  define k where "k = length (states h0)"
  define c where "c = length (contexts h0)"
  define n where "n = length ps"
  define p where "p = ps ! i"
  define v where "v = vs ! i"
  define n1 where "n1 = Suc k + 2 * i"
  define n2 where "n2 = Suc (Suc k + 2 * i)"
  define B where "B = private_refs h0 ps"
  define H :: "('a, 'e) handler" where "H = then_handler n1 (all_resolve c k i) then_default"
  let ?old = "st_handlers (states h0 ! p)"
  let ?fR = "\<lambda>R j. if j \<in> R then vs ! j else dflt"
  note inv' = inv[unfolded all_inv_def, folded k_def c_def n_def B_def]
  have lenh: "length (states h) = Suc k + 2 * n" using inv' by simp
  have ch: "c < length (contexts h)"
    "contexts h ! c = \<lparr>results = map (?fR R) [0 ..< n], counter = card R\<rparr>"
    using inv' by simp_all
  have hav: "heap_avoids B h" using inv' by simp
  have rest: "\<And>j. j < n \<Longrightarrow> j \<notin> R \<Longrightarrow>
      states h ! (ps ! j) = (states h0 ! (ps ! j))\<lparr>st_handlers := st_handlers (states h0 ! (ps ! j))
                  @ [then_handler (Suc k + 2 * j) (all_resolve c k j) then_default]\<rparr>
      \<and> states h ! (Suc k + 2 * j)
          = new_state\<lparr>st_handlers :=
              [then_handler (Suc (Suc k + 2 * j)) fail_identity (forward_reject k)]\<rparr>
      \<and> states h ! Suc (Suc k + 2 * j) = new_state"
    using inv' by simp
  have Rn: "R \<noteq> {..< n}" using i by (auto simp: n_def)
  then have kfresh: "states h ! k = new_state" using inv' by simp
  have i': "i < n" using i(1) by (simp add: n_def)
  have pin: "p \<in> set ps" using i(1) by (simp add: p_def)
  have pp: "is_pending h0 p" using pend0 pin by simp
  have pk: "p < k" using pp by (simp add: is_pending_def k_def)
  have inputs_lt: "ps ! j < k" if "j < n" for j
    using pend0 that by (simp add: is_pending_def k_def n_def)
  have stp: "states h ! p = (states h0 ! p)\<lparr>st_handlers := ?old @ [H]\<rparr>"
    and stn1: "states h ! n1
          = new_state\<lparr>st_handlers := [then_handler n2 fail_identity (forward_reject k)]\<rparr>"
    and stn2: "states h ! n2 = new_state"
    using rest[OF i' i(2)] by (simp_all add: p_def H_def n1_def n2_def)
  have neq: "p \<noteq> k" "p \<noteq> n1" "p \<noteq> n2" "k \<noteq> n1" "k \<noteq> n2" "n1 \<noteq> n2"
    using pk by (simp_all add: n1_def n2_def)
  have lens: "p < length (states h)" "k < length (states h)" "n1 < length (states h)"
    "n2 < length (states h)"
    using pk i' lenh by (simp_all add: n1_def n2_def)
  have inB: "State p \<in> B" "State k \<in> B" "State n1 \<in> B" "State n2 \<in> B" "Ctx c \<in> B"
    using pin by (simp_all add: B_def private_refs_state private_refs_ctx k_def c_def n1_def n2_def)
  have pendh: "is_pending h p"
    using pp lens(1) unfolding is_pending_def stp by simp
  let ?sf = "\<lambda>s :: ('a, 'e) state. s\<lparr>st_storage := Some v, st_status := resolved\<rparr>"
  let ?cs = "map (\<lambda>x. call_resolve_h (h_resolve x) v) ?old"
  let ?h2 = "upd_state p ?sf h"
  let ?h3 = "run ?cs ?h2"
  have ca: "calls_avoid B ?cs"
    unfolding B_def
    by (rule old_calls_avoid_private[OF wf indep pp]) (auto simp: handler_refs_def)
  have ha2: "heap_avoids B ?h2" by (rule heap_avoids_upd_in[OF inB(1) hav])
  have u: "untouched B ?h2 ?h3" and ha3: "heap_avoids B ?h3"
    using run_avoids[OF ca ha2] by simp_all
  have st3: "states ?h3 ! q = states h ! q" if "State q \<in> B" "q \<noteq> p" for q
    using untouched_state[OF u that(1)] that(2) by simp
  have c3: "c < length (contexts ?h3)"
    "contexts ?h3 ! c = \<lparr>results = map (?fR R) [0 ..< n], counter = card R\<rparr>"
    using u inB(5) ch unfolding untouched_def by simp_all
  have len3: "length (states ?h3) = length (states h)" by simp
  have r: "resolve p v h
             = (True, run (?cs @ [call_resolve_h (resolve_h n1 (all_resolve c k i)
                                    (reject_h n1 then_default)) v, call_clear p]) ?h2)"
    using resolve_pending[OF pendh, of v] unfolding stp
    by (simp add: H_def then_handler_def del: run.simps)
  have filled: "(Suc (counter (contexts ?h3 ! c)) = length (results (contexts ?h3 ! c)))
                  = (insert i R = {..< n})"
    unfolding c3 using filled_iff(1)[OF R[folded n_def] i' i(2)] by simp
  obtain h' where h':
    "run (call_resolve_h (resolve_h n1 (all_resolve c k i) (reject_h n1 then_default)) v
          # [call_clear p]) ?h3 = run [call_clear p] h'"
    "length (states h') = length (states ?h3)"
    "contexts h' = (contexts ?h3)[c := (contexts ?h3 ! c)\<lparr>results := (results (contexts ?h3 ! c))[i := v],
                                    counter := Suc (counter (contexts ?h3 ! c))\<rparr>]"
    "\<forall>q. q \<noteq> k \<and> q \<noteq> n1 \<and> q \<noteq> n2 \<longrightarrow> states h' ! q = states ?h3 ! q"
    "if insert i R = {..< n}
     then outcome h' k = (resolved, Some (VVec (results ((contexts ?h3 ! c)\<lparr>results := (results (contexts ?h3 ! c))[i := v],
                                    counter := Suc (counter (contexts ?h3 ! c))\<rparr>))), nullptr)
     else states h' ! k = states ?h3 ! k"
    using fire_all_resolve[where c = c and ?h3.0 = ?h3 and ?n1.0 = n1 and ?n2.0 = n2 and k = k
          and i = i and v = v and j = "reject_h n1 then_default" and rest = "[call_clear p]",
        unfolded filled]
      c3(1) lens st3[OF inB(3) neq(2)[symmetric]] st3[OF inB(4) neq(3)[symmetric]]
      st3[OF inB(2) neq(1)[symmetric]] stn1 stn2 kfresh neq len3
    by auto
  define hf where "hf = upd_state p (\<lambda>s. s\<lparr>st_handlers := []\<rparr>) h'"
  have hf: "snd (resolve p v h) = hf"
    unfolding r snd_conv run_append h'(1) hf_def by simp
  have lenf: "length (states hf) = Suc k + 2 * n"
    unfolding hf_def using h'(2) lenh by simp
  have ctxf: "contexts hf ! c = \<lparr>results = map (?fR (insert i R)) [0 ..< n],
                                 counter = card (insert i R)\<rparr>"
    "c < length (contexts hf)"
    unfolding hf_def using h'(3) c3 results_update[OF i', of R vs dflt]
      filled_iff(2)[OF R[folded n_def] i' i(2)]
    by (simp_all add: v_def)
  have stf: "states hf ! q = states h ! q" if "State q \<in> B" "q \<noteq> p" "q \<noteq> k" "q \<noteq> n1" "q \<noteq> n2"
    for q
    unfolding hf_def using that h'(4) st3[OF that(1,2)] by simp
  have haf: "heap_avoids B hf"
  proof (rule heap_avoids_agree[OF ha3])
    show "length (states hf) = length (states ?h3)" using lenf lenh by simp
    fix q assume q: "State q \<notin> B"
    then have "q \<noteq> p" "q \<noteq> k" "q \<noteq> n1" "q \<noteq> n2" using inB by auto
    then show "states hf ! q = states ?h3 ! q" unfolding hf_def using h'(4) by simp
  qed
  have others: "states hf ! (ps ! j) = (states h0 ! (ps ! j))\<lparr>st_handlers := st_handlers (states h0 ! (ps ! j))
                  @ [then_handler (Suc k + 2 * j) (all_resolve c k j) then_default]\<rparr>
      \<and> states hf ! (Suc k + 2 * j)
          = new_state\<lparr>st_handlers :=
              [then_handler (Suc (Suc k + 2 * j)) fail_identity (forward_reject k)]\<rparr>
      \<and> states hf ! Suc (Suc k + 2 * j) = new_state"
    if j: "j < n" "j \<notin> insert i R" for j
  proof -
    have ji: "j \<noteq> i" "j \<notin> R" using j(2) by auto
    have pj: "ps ! j \<noteq> p"
      using dist j(1) i' ji(1) unfolding p_def n_def by (simp add: nth_eq_iff_index_eq)
    have pjk: "ps ! j < k" using inputs_lt[OF j(1)] .
    have a: "states hf ! (ps ! j) = states h ! (ps ! j)"
      using pj pjk j(1) by (intro stf) (simp_all add: B_def private_refs_state n1_def n2_def n_def)
    have b: "states hf ! (Suc k + 2 * j) = states h ! (Suc k + 2 * j)"
      using ji(1) pk by (intro stf) (simp_all add: B_def private_refs_state n1_def n2_def k_def)
    have c: "states hf ! Suc (Suc k + 2 * j) = states h ! Suc (Suc k + 2 * j)"
      using ji(1) pk by (intro stf) (simp_all add: B_def private_refs_state n1_def n2_def k_def)
    show ?thesis unfolding a b c using rest[OF j(1) ji(2)] .
  qed
  have outk: "if insert i R = {..< n}
              then outcome hf k = (resolved, Some (VVec vs), nullptr)
              else states hf ! k = new_state"
  proof (cases "insert i R = {..< n}")
    case True
    have "results ((contexts ?h3 ! c)\<lparr>results := (results (contexts ?h3 ! c))[i := v],
                                    counter := Suc (counter (contexts ?h3 ! c))\<rparr>) = vs"
      unfolding c3 using results_update[OF i', of R vs dflt] True results_full[OF len[folded n_def]]
      by (simp add: v_def)
    then show ?thesis
      using True h'(5) neq(1) unfolding hf_def by (simp add: outcome_def)
  next
    case False
    then show ?thesis
      using h'(5) neq(1) st3[OF inB(2) neq(1)[symmetric]] kfresh unfolding hf_def by simp
  qed
  have "all_inv h0 dflt ps vs (insert i R) hf"
    unfolding all_inv_def
    using lenf ctxf haf others outk
    by (simp add: k_def[symmetric] c_def[symmetric] n_def[symmetric] B_def[symmetric])
  then show ?thesis using r hf by (simp add: p_def v_def)
qed

lemma all_inv_reject:
  fixes h0 h :: "('a, 'e) heap"
  assumes wf: "wf_heap h0" and indep: "no_handler_refers h0 ps"
    and pend0: "\<forall>p \<in> set ps. is_pending h0 p"
    and inv: "all_inv h0 dflt ps vs R h"
    and i: "i < length ps" "i \<notin> R"
  shows "fst (reject (ps ! i) e h)
       \<and> outcome (snd (reject (ps ! i) e h)) (length (states h0)) = (rejected, None, e)"
proof -
  define k where "k = length (states h0)"
  define c where "c = length (contexts h0)"
  define n where "n = length ps"
  define p where "p = ps ! i"
  define n1 where "n1 = Suc k + 2 * i"
  define n2 where "n2 = Suc (Suc k + 2 * i)"
  define B where "B = private_refs h0 ps"
  define H :: "('a, 'e) handler" where "H = then_handler n1 (all_resolve c k i) then_default"
  let ?old = "st_handlers (states h0 ! p)"
  note inv' = inv[unfolded all_inv_def, folded k_def c_def n_def B_def]
  have lenh: "length (states h) = Suc k + 2 * n" using inv' by simp
  have hav: "heap_avoids B h" using inv' by simp
  have rest: "\<And>j. j < n \<Longrightarrow> j \<notin> R \<Longrightarrow>
      states h ! (ps ! j) = (states h0 ! (ps ! j))\<lparr>st_handlers := st_handlers (states h0 ! (ps ! j))
                  @ [then_handler (Suc k + 2 * j) (all_resolve c k j) then_default]\<rparr>
      \<and> states h ! (Suc k + 2 * j)
          = new_state\<lparr>st_handlers :=
              [then_handler (Suc (Suc k + 2 * j)) fail_identity (forward_reject k)]\<rparr>
      \<and> states h ! Suc (Suc k + 2 * j) = new_state"
    using inv' by simp
  have Rn: "R \<noteq> {..< n}" using i by (auto simp: n_def)
  then have kfresh: "states h ! k = new_state" using inv' by simp
  have i': "i < n" using i(1) by (simp add: n_def)
  have pin: "p \<in> set ps" using i(1) by (simp add: p_def)
  have pp: "is_pending h0 p" using pend0 pin by simp
  have pk: "p < k" using pp by (simp add: is_pending_def k_def)
  have stp: "states h ! p = (states h0 ! p)\<lparr>st_handlers := ?old @ [H]\<rparr>"
    and stn1: "states h ! n1
          = new_state\<lparr>st_handlers := [then_handler n2 fail_identity (forward_reject k)]\<rparr>"
    using rest[OF i' i(2)] by (simp_all add: p_def H_def n1_def n2_def)
  have neq: "p \<noteq> k" "p \<noteq> n1" "k \<noteq> n1"
    using pk by (simp_all add: n1_def)
  have lens: "p < length (states h)" "k < length (states h)" "n1 < length (states h)"
    using pk i' lenh by (simp_all add: n1_def)
  have inB: "State p \<in> B" "State k \<in> B" "State n1 \<in> B"
    using pin by (simp_all add: B_def private_refs_state k_def n1_def)
  have pendh: "is_pending h p"
    using pp lens(1) unfolding is_pending_def stp by simp
  let ?sf = "\<lambda>s :: ('a, 'e) state. s\<lparr>st_exception := e, st_status := rejected\<rparr>"
  let ?cs = "map (\<lambda>x. call_reject_h (h_reject x) e) ?old"
  let ?h2 = "upd_state p ?sf h"
  let ?h3 = "run ?cs ?h2"
  have ca: "calls_avoid B ?cs"
    unfolding B_def
    by (rule old_calls_avoid_private[OF wf indep pp]) (auto simp: handler_refs_def)
  have ha2: "heap_avoids B ?h2" by (rule heap_avoids_upd_in[OF inB(1) hav])
  have u: "untouched B ?h2 ?h3"
    using run_avoids[OF ca ha2] by simp
  have st3: "states ?h3 ! q = states h ! q" if "State q \<in> B" "q \<noteq> p" for q
    using untouched_state[OF u that(1)] that(2) by simp
  have len3: "length (states ?h3) = length (states h)" by simp
  have r: "reject p e h
             = (True, run (?cs @ [call_reject_h (reject_h n1 then_default) e, call_clear p]) ?h2)"
    using reject_pending[OF pendh, of e] unfolding stp
    by (simp add: H_def then_handler_def del: run.simps)
  have "outcome (run (call_reject_h (reject_h n1 then_default) e # [call_clear p]) ?h3) k
          = (rejected, None, e)"
    using lens st3[OF inB(3) neq(2)[symmetric]] st3[OF inB(2) neq(1)[symmetric]] stn1 kfresh
      neq len3
    by (intro fire_forward_reject[where ?n2.0 = n2]) simp_all
  then show ?thesis
    unfolding r snd_conv fst_conv run_append p_def[symmetric] k_def[symmetric] by simp
qed

lemma all_inv_resolve_all:
  fixes h0 h :: "('a, 'e) heap"
  assumes wf: "wf_heap h0" and indep: "no_handler_refers h0 ps"
    and pend0: "\<forall>p \<in> set ps. is_pending h0 p" and dist: "distinct ps"
    and len: "length vs = length ps"
  shows "all_inv h0 dflt ps vs R h \<Longrightarrow> R \<subseteq> {..< length ps} \<Longrightarrow> distinct ord \<Longrightarrow>
         set ord \<subseteq> {..< length ps} \<Longrightarrow> set ord \<inter> R = {} \<Longrightarrow>
         all_inv h0 dflt ps vs (R \<union> set ord) (resolve_all ps vs ord h)"
proof (induction ord arbitrary: R h)
  case Nil
  then show ?case by simp
next
  case (Cons i ord)
  have i: "i < length ps" "i \<notin> R" using Cons.prems by auto
  have step: "all_inv h0 dflt ps vs (insert i R) (snd (resolve (ps ! i) (vs ! i) h))"
    using all_inv_resolve[OF wf indep pend0 dist len Cons.prems(1,2) i] by simp
  have "all_inv h0 dflt ps vs (insert i R \<union> set ord)
          (resolve_all ps vs ord (snd (resolve (ps ! i) (vs ! i) h)))"
    using Cons.prems i by (intro Cons.IH[OF step]) auto
  then show ?case by simp
qed

lemma make_all_empty:
  "fst (make_all_promise dflt [] h) = length (states h)"
  "outcome (snd (make_all_promise dflt [] h)) (length (states h)) = (resolved, Some (VVec []), nullptr)"
proof -
  let ?h1 = "h\<lparr>states := states h @ [new_state]\<rparr>"
  have r: "resolve (length (states h)) (VVec []) ?h1
             = (True, upd_state (length (states h))
                        (\<lambda>s. s\<lparr>st_storage := Some (VVec []), st_status := resolved\<rparr>) ?h1)"
    by (rule resolve_fresh) simp_all
  show "fst (make_all_promise dflt [] h) = length (states h)"
    by (simp add: make_all_promise_def make_resolved_promise_def new_promise_def)
  show "outcome (snd (make_all_promise dflt [] h)) (length (states h))
          = (resolved, Some (VVec []), nullptr)"
    using r by (simp add: make_all_promise_def make_resolved_promise_def new_promise_def
        outcome_upd_state_same new_state_def)
qed

lemma resolve_all_keeps:
  "r < length (states h) \<Longrightarrow> \<not> is_pending h r \<Longrightarrow>
   outcome (resolve_all ps vs ord h) r = outcome h r"
proof (induction ord arbitrary: h)
  case Nil
  show ?case by simp
next
  case (Cons i ord)
  let ?h = "snd (resolve (ps ! i) (vs ! i) h)"
  have o: "outcome ?h r = outcome h r" using resolve_keeps_settled(1)[OF Cons.prems] .
  then have "\<not> is_pending ?h r" using Cons.prems by (simp add: is_pending_def outcome_def)
  then have "outcome (resolve_all ps vs ord ?h) r = outcome ?h r"
    using Cons.prems(1) by (intro Cons.IH) simp_all
  then show ?case using o by simp
qed

lemma all_inv_pending:
  assumes "\<forall>p \<in> set ps. is_pending h0 p" "all_inv h0 dflt ps vs R h" "i < length ps" "i \<notin> R"
  shows "is_pending h (ps ! i)"
proof -
  have p: "is_pending h0 (ps ! i)" using assms(1,3) by simp
  have "states h ! (ps ! i)
          = (states h0 ! (ps ! i))\<lparr>st_handlers := st_handlers (states h0 ! (ps ! i))
                  @ [then_handler (Suc (length (states h0)) + 2 * i)
                       (all_resolve (length (contexts h0)) (length (states h0)) i) then_default]\<rparr>"
    and "length (states h) = Suc (length (states h0)) + 2 * length ps"
    using assms(2-4) unfolding all_inv_def by simp_all
  then show ?thesis using p by (simp add: is_pending_def)
qed

lemma inputs_resolve_all:
  fixes h0 h :: "('a, 'e) heap"
  assumes wf: "wf_heap h0" and indep: "no_handler_refers h0 ps"
    and pend0: "\<forall>p \<in> set ps. is_pending h0 p" and dist: "distinct ps"
    and len: "length vs = length ps"
  shows "all_inv h0 dflt ps vs R h \<Longrightarrow> R \<subseteq> {..< length ps} \<Longrightarrow> distinct ord \<Longrightarrow>
         set ord \<subseteq> {..< length ps} \<Longrightarrow> set ord \<inter> R = {} \<Longrightarrow> i \<in> set ord \<Longrightarrow>
         fst (outcome (resolve_all ps vs ord h) (ps ! i)) = resolved
         \<and> fst (snd (outcome (resolve_all ps vs ord h) (ps ! i))) = Some (vs ! i)"
proof (induction ord arbitrary: R h)
  case Nil
  then show ?case by simp
next
  case (Cons a ord)
  let ?h = "snd (resolve (ps ! a) (vs ! a) h)"
  have a: "a < length ps" "a \<notin> R" using Cons.prems by auto
  have step: "all_inv h0 dflt ps vs (insert a R) ?h"
    using all_inv_resolve[OF wf indep pend0 dist len Cons.prems(1,2) a] by simp
  show ?case
  proof (cases "i = a")
    case True
    have p: "is_pending h (ps ! a)" using all_inv_pending[OF pend0 Cons.prems(1) a] .
    have o: "outcome ?h (ps ! a) = (resolved, Some (vs ! a), st_exception (states h ! (ps ! a)))"
      using resolve_outcome[OF p] .
    have "outcome (resolve_all ps vs ord ?h) (ps ! a) = outcome ?h (ps ! a)"
      using p o by (intro resolve_all_keeps) (simp_all add: is_pending_def outcome_def)
    then show ?thesis using True o by simp
  next
    case False
    then have "i \<in> set ord" using Cons.prems(6) by simp
    then have "fst (outcome (resolve_all ps vs ord ?h) (ps ! i)) = resolved
         \<and> fst (snd (outcome (resolve_all ps vs ord ?h) (ps ! i))) = Some (vs ! i)"
      using Cons.prems a by (intro Cons.IH[OF step]) auto
    then show ?thesis by simp
  qed
qed

text \<open>One round of \<open>make_all_promise\<close> on an input that is already resolved.\<close>

lemma round_all_on_resolved:
  fixes h :: "('a, 'e) heap" and c i k q :: nat and v :: "'a val"
  assumes q: "q < length (states h)" "st_status (states h ! q) = resolved"
    "st_storage (states h ! q) = Some v"
    and c: "c < length (contexts h)"
    and k: "k < length (states h)"
      "Suc (counter (contexts h ! c)) = length (results (contexts h ! c)) \<Longrightarrow>
       states h ! k = new_state"
  defines "ctx' \<equiv> (contexts h ! c)\<lparr>results := (results (contexts h ! c))[i := v],
                                   counter := Suc (counter (contexts h ! c))\<rparr>"
  defines "hb \<equiv> snd (fail (length (states h)) (forward_reject k)
                       (snd (then1 q (all_resolve c k i) h)))"
  shows "length (states hb) = Suc (Suc (length (states h)))"
    and "contexts hb = (contexts h)[c := ctx']"
    and "\<And>r. r < length (states h) \<Longrightarrow> r \<noteq> k \<Longrightarrow> states hb ! r = states h ! r"
    and "if Suc (counter (contexts h ! c)) = length (results (contexts h ! c))
         then outcome hb k = (resolved, Some (VVec (results ctx')), nullptr)
         else states hb ! k = states h ! k"
proof -
  define n1 where "n1 = length (states h)"
  define n2 where "n2 = Suc n1"
  let ?filled = "Suc (counter (contexts h ! c)) = length (results (contexts h ! c))"
  let ?settle = "\<lambda>w (s :: ('a, 'e) state). s\<lparr>st_storage := Some w, st_status := resolved\<rparr>"
  let ?h0 = "h\<lparr>states := states h @ [new_state]\<rparr>"
  let ?hc = "?h0\<lparr>contexts := (contexts h)[c := ctx']\<rparr>"
  define hA where "hA = (if ?filled then upd_state k (?settle (VVec (results ctx'))) ?hc else ?hc)"
  define ha where "ha = upd_state n1 (?settle VUnit) hA"
  let ?h1 = "ha\<lparr>states := states ha @ [new_state]\<rparr>"
  have ap: "apply_result c i v ?h0 = (?filled, ?hc)"
    using c by (simp add: apply_result_def Let_def ctx'_def)
  have res: "results (contexts ?hc ! c) = results ctx'" using c by simp
  have lA: "length (states hA) = Suc n1" unfolding hA_def n1_def by simp
  have sA: "states hA ! r = states ?h0 ! r" if "r \<noteq> k" for r
    using that unfolding hA_def by simp
  have kn: "k \<noteq> n1" "k \<noteq> n2" "n1 \<noteq> n2" using k(1) by (simp_all add: n1_def n2_def)
  have f1: "is_pending hA n1" "st_handlers (states hA ! n1) = []"
    using sA[of n1] kn lA by (simp_all add: is_pending_def new_state_def n1_def)
  have e1: "run [call_resolve_h (resolve_h n1 (all_resolve c k i) (reject_h n1 then_default)) v] ?h0
              = run [call_resolve n1 VUnit] hA"
  proof (cases ?filled)
    case True
    have fk: "is_pending ?hc k" "st_handlers (states ?hc ! k) = []"
      using k(1) k(2)[OF True] by (simp_all add: is_pending_def new_state_def nth_append)
    have "run [call_resolve_h (resolve_h n1 (all_resolve c k i) (reject_h n1 then_default)) v] ?h0
            = run [call_resolve k (VVec (results ctx')), call_resolve n1 VUnit] ?hc"
      using True ap res
      by (simp del: run.simps add: run.simps(2)[of "call_resolve_h _ _"])
    also have "\<dots> = run [call_resolve n1 VUnit] hA"
      unfolding hA_def using True run_call_resolve_fresh[OF fk] by simp
    finally show ?thesis .
  next
    case False
    then show ?thesis
      unfolding hA_def using ap
      by (simp del: run.simps add: run.simps(2)[of "call_resolve_h _ _"])
  qed
  have e2: "run [call_resolve n1 VUnit] hA = ha"
    unfolding ha_def using run_call_resolve_fresh[OF f1, of VUnit "[]"] by simp
  have then1: "snd (then1 q (all_resolve c k i) h) = ha"
    unfolding then1_def then2_resolved[OF q] snd_conv n1_def[symmetric] e1 e2 ..
  have a1: "n1 < length (states ha)" "st_status (states ha ! n1) = resolved"
    "st_storage (states ha ! n1) = Some VUnit" "length (states ha) = n2"
    unfolding ha_def using lA by (simp_all add: n2_def)
  have f2: "n2 < length (states ?h1)" "states ?h1 ! n2 = new_state"
    using a1(4)[symmetric] by simp_all
  have hb: "hb = upd_state n2 (?settle VUnit) ?h1"
    unfolding hb_def fail_def n1_def[symmetric]
    using then2_resolved[OF a1(1-3), of fail_identity "forward_reject k"] a1(4)
      fire_resolve_identity[OF f2, of "reject_h n2 (forward_reject k)" VUnit]
    by (simp add: then1 del: run.simps)
  show "length (states hb) = Suc (Suc (length (states h)))"
    unfolding hb using a1(4) by (simp add: n2_def n1_def)
  show "contexts hb = (contexts h)[c := ctx']"
    unfolding hb ha_def hA_def by simp
  show "states hb ! r = states h ! r" if "r < length (states h)" "r \<noteq> k" for r
  proof -
    have "r \<noteq> n1" "r \<noteq> n2" "r < length (states ha)"
      using that(1) a1(4) by (simp_all add: n1_def n2_def)
    then show ?thesis
      unfolding hb using sA[OF that(2)] that(1) by (simp add: nth_append ha_def)
  qed
  have kk: "states hb ! k = states hA ! k"
    unfolding hb using kn k(1) a1(4) by (simp add: nth_append ha_def n2_def n1_def)
  show "if ?filled then outcome hb k = (resolved, Some (VVec (results ctx')), nullptr)
        else states hb ! k = states h ! k"
  proof (cases ?filled)
    case True
    then show ?thesis
      using kk k(1) k(2)[OF True] unfolding hA_def
      by (simp add: outcome_def new_state_def nth_append)
  next
    case False
    then show ?thesis using kk k(1) unfolding hA_def by (simp add: nth_append)
  qed
qed

lemma rounds_all_resolved:
  fixes h :: "('a, 'e) heap"
  assumes "\<forall>j < length ps. ps ! j < k \<and> st_status (states h ! (ps ! j)) = resolved
              \<and> st_storage (states h ! (ps ! j)) = Some (ws ! j)"
    and "length ws = length ps" and "ps \<noteq> []"
    and "k < length (states h)" and "states h ! k = new_state" and "c < length (contexts h)"
    and "contexts h ! c = \<lparr>results = dn @ replicate (length ps) dflt, counter = length dn\<rparr>"
  shows "outcome (rounds (\<lambda>i. all_resolve c k i) k (length dn) ps h) k
           = (resolved, Some (VVec (dn @ ws)), nullptr)"
  using assms
proof (induction ps arbitrary: h dn ws)
  case Nil
  then show ?case by simp
next
  case (Cons p ps)
  obtain w ws' where ws: "ws = w # ws'" using Cons.prems(2) by (cases ws) auto
  let ?hb = "snd (fail (length (states h)) (forward_reject k)
                    (snd (then1 p (all_resolve c k (length dn)) h)))"
  have p: "p < length (states h)" "st_status (states h ! p) = resolved"
    "st_storage (states h ! p) = Some w"
    using Cons.prems(1,4) ws by force+
  have filled: "(Suc (counter (contexts h ! c)) = length (results (contexts h ! c))) = (ps = [])"
    unfolding Cons.prems(7) by simp
  note r = round_all_on_resolved[OF p Cons.prems(6,4), where i = "length dn",
      unfolded filled, OF Cons.prems(5)]
  have ctx: "contexts ?hb ! c
               = \<lparr>results = (dn @ [w]) @ replicate (length ps) dflt, counter = length (dn @ [w])\<rparr>"
    unfolding r(2) using Cons.prems(6) unfolding Cons.prems(7) by (simp add: list_update_append)
  have rd: "rounds (\<lambda>i. all_resolve c k i) k (length dn) (p # ps) h
              = rounds (\<lambda>i. all_resolve c k i) k (length (dn @ [w])) ps ?hb"
    by simp
  show ?case
  proof (cases "ps = []")
    case True
    then have "ws' = []" using Cons.prems(2) ws by simp
    then show ?thesis
      unfolding rd using True r(4) Cons.prems(6,7) ws by simp
  next
    case False
    have kb: "k < length (states ?hb)" "states ?hb ! k = new_state" "c < length (contexts ?hb)"
      using r(1,2,4) False Cons.prems(4,5,6) by simp_all
    have inputs: "\<forall>j < length ps. ps ! j < k \<and> st_status (states ?hb ! (ps ! j)) = resolved
              \<and> st_storage (states ?hb ! (ps ! j)) = Some (ws' ! j)"
    proof (intro allI impI)
      fix j assume j: "j < length ps"
      have a: "(p # ps) ! Suc j < k \<and> st_status (states h ! ((p # ps) ! Suc j)) = resolved
              \<and> st_storage (states h ! ((p # ps) ! Suc j)) = Some (ws ! Suc j)"
        using Cons.prems(1) j by (intro Cons.prems(1)[rule_format]) simp
      then have lt: "ps ! j < k" by simp
      have "states ?hb ! (ps ! j) = states h ! (ps ! j)"
        using lt Cons.prems(4) by (intro r(3)) simp_all
      then show "ps ! j < k \<and> st_status (states ?hb ! (ps ! j)) = resolved
              \<and> st_storage (states ?hb ! (ps ! j)) = Some (ws' ! j)"
        using a ws by simp
    qed
    have len: "length ws' = length ps" using Cons.prems(2) ws by simp
    show ?thesis
      unfolding rd using Cons.IH[OF inputs len False kb ctx] ws by simp
  qed
qed

lemma round_on_unset:
  fixes h :: "('a, 'e) heap" and f :: "('a, 'e) resolve_f" and k p :: addr
  assumes p: "p < length (states h)" "st_status (states h ! p) = resolved"
    "st_storage (states h ! p) = None"
  defines "hb \<equiv> snd (fail (length (states h)) (forward_reject k) (snd (then1 p f h)))"
  shows "length (states hb) = Suc (Suc (length (states h)))"
    and "contexts hb = contexts h"
    and "\<And>r. r < length (states h) \<Longrightarrow> states hb ! r = states h ! r"
proof -
  let ?h0 = "h\<lparr>states := states h @ [new_state]\<rparr>"
  have a: "snd (then1 p f h) = ?h0"
    using p by (simp add: then1_def then2_def new_promise_def attach_def add_handlers_def
        nth_append)
  have pend: "is_pending ?h0 (length (states h))" by (simp add: is_pending_def new_state_def)
  have hb: "hb = upd_state (length (states h))
                   (\<lambda>s. s\<lparr>st_handlers := st_handlers s
                       @ [then_handler (Suc (length (states h))) fail_identity (forward_reject k)]\<rparr>)
                   (?h0\<lparr>states := states ?h0 @ [new_state]\<rparr>)"
    unfolding hb_def fail_def a using then2_pending[OF pend, of fail_identity "forward_reject k"]
    by simp
  show "length (states hb) = Suc (Suc (length (states h)))" unfolding hb by simp
  show "contexts hb = contexts h" unfolding hb by simp
  show "states hb ! r = states h ! r" if "r < length (states h)" for r
    unfolding hb using that by (simp add: nth_append)
qed

text \<open>The rounds on inputs that are not rejected leave the output as it was created, as long as
  more inputs follow.\<close>

lemma rounds_all_unrejected:
  fixes h :: "('a, 'e) heap"
  assumes "\<forall>p \<in> set pre. p < k \<and> st_status (states h ! p) \<noteq> rejected"
    and "k < length (states h)" and "states h ! k = new_state" and "c < length (contexts h)"
    and "counter (contexts h ! c) + length pre < length (results (contexts h ! c))"
  shows "k < length (states (rounds (\<lambda>i. all_resolve c k i) k i pre h))
       \<and> states (rounds (\<lambda>i. all_resolve c k i) k i pre h) ! k = new_state
       \<and> (\<forall>r < k. outcome (rounds (\<lambda>i. all_resolve c k i) k i pre h) r = outcome h r)"
  using assms
proof (induction pre arbitrary: h i)
  case Nil
  then show ?case by simp
next
  case (Cons p pre)
  let ?hb = "snd (fail (length (states h)) (forward_reject k)
                    (snd (then1 p (all_resolve c k i) h)))"
  have pk: "p < k" "st_status (states h ! p) \<noteq> rejected" using Cons.prems(1) by simp_all
  have rd: "rounds (\<lambda>i. all_resolve c k i) k i (p # pre) h
              = rounds (\<lambda>i. all_resolve c k i) k (Suc i) pre ?hb"
    by simp
  have step: "k < length (states ?hb) \<and> states ?hb ! k = new_state \<and> c < length (contexts ?hb)
        \<and> counter (contexts ?hb ! c) + length pre < length (results (contexts ?hb ! c))
        \<and> (\<forall>r < k. outcome ?hb r = outcome h r)"
  proof (cases "st_status (states h ! p) = resolved \<and> st_storage (states h ! p) \<noteq> None")
    case True
    then obtain v where v: "st_storage (states h ! p) = Some v" by auto
    have True: "st_status (states h ! p) = resolved" using True by simp
    have pl: "p < length (states h)" using pk(1) Cons.prems(2) by simp
    have nf: "\<not> Suc (counter (contexts h ! c)) = length (results (contexts h ! c))"
      using Cons.prems(5) by simp
    have kf: "Suc (counter (contexts h ! c)) = length (results (contexts h ! c)) \<Longrightarrow>
               states h ! k = new_state"
      using Cons.prems(3) by simp
    note r = round_all_on_resolved[OF pl True v Cons.prems(4,2) kf, where i = i]
    have k': "states ?hb ! k = states h ! k" using r(4) nf by simp
    have "outcome ?hb r = outcome h r" if "r < k" for r
      using r(3)[of r] that Cons.prems(2) by (simp add: outcome_def)
    moreover have "c < length (contexts ?hb)"
      "counter (contexts ?hb ! c) = Suc (counter (contexts h ! c))"
      "length (results (contexts ?hb ! c)) = length (results (contexts h ! c))"
      using r(2) Cons.prems(4) by simp_all
    ultimately show ?thesis
      using r(1) k' Cons.prems(2-5) by simp
  next
    case False
    show ?thesis
    proof (cases "st_status (states h ! p) = resolved")
      case True
      then have un: "st_storage (states h ! p) = None" using False by simp
      have pl: "p < length (states h)" using pk(1) Cons.prems(2) by simp
      note r = round_on_unset[OF pl True un, where f = "all_resolve c k i" and k = k]
      have "outcome ?hb r = outcome h r" if "r < k" for r
        using r(3)[of r] that Cons.prems(2) by (simp add: outcome_def)
      then show ?thesis
        using r(1) r(3)[OF Cons.prems(2)] Cons.prems(2-5) unfolding r(2) by simp
    next
      case False
      then have pend: "is_pending h p"
        using pk Cons.prems(2) by (cases "st_status (states h ! p)") (simp_all add: is_pending_def)
      note r = round_pending[OF pend, of "all_resolve c k i" k, unfolded fst_then1]
      have "outcome ?hb r = outcome h r" if "r < k" for r
        unfolding outcome_def r(1) using that Cons.prems(2)
        by (cases "r = p") (simp_all add: nth_append)
      then show ?thesis
        using pk(1) Cons.prems(2-5) unfolding r(3)
        by (simp add: r(1) nth_append)
    qed
  qed
  have inputs: "\<forall>p \<in> set pre. p < k \<and> st_status (states ?hb ! p) \<noteq> rejected"
  proof
    fix x assume x: "x \<in> set pre"
    then have a: "x < k" "st_status (states h ! x) \<noteq> rejected"
      using Cons.prems(1) by simp_all
    have "outcome ?hb x = outcome h x" using step a(1) by simp
    then show "x < k \<and> st_status (states ?hb ! x) \<noteq> rejected"
      using a by (simp add: outcome_def)
  qed
  have "k < length (states (rounds (\<lambda>i. all_resolve c k i) k (Suc i) pre ?hb))
       \<and> states (rounds (\<lambda>i. all_resolve c k i) k (Suc i) pre ?hb) ! k = new_state
       \<and> (\<forall>r < k. outcome (rounds (\<lambda>i. all_resolve c k i) k (Suc i) pre ?hb) r = outcome ?hb r)"
    using step by (intro Cons.IH[OF inputs]) simp_all
  then show ?case unfolding rd using step by simp
qed

lemma make_all_settled_inputs:
  fixes h :: "('a, 'e) heap"
  shows "ps \<noteq> [] \<Longrightarrow> length vs = length ps \<Longrightarrow>
         \<forall>j < length ps. ps ! j < length (states h) \<and> st_status (states h ! (ps ! j)) = resolved
              \<and> st_storage (states h ! (ps ! j)) = Some (vs ! j) \<Longrightarrow>
         fst (make_all_promise dflt ps h) = length (states h)
         \<and> outcome (snd (make_all_promise dflt ps h)) (length (states h))
             = (resolved, Some (VVec vs), nullptr)"
    and "\<forall>p \<in> set pre. p < length (states h) \<and> st_status (states h ! p) \<noteq> rejected \<Longrightarrow>
         q < length (states h) \<Longrightarrow> st_status (states h ! q) = rejected \<Longrightarrow>
         fst (make_all_promise dflt (pre @ q # post) h) = length (states h)
         \<and> outcome (snd (make_all_promise dflt (pre @ q # post) h)) (length (states h))
             = (rejected, None, st_exception (states h ! q))"
proof -
  define k where "k = length (states h)"
  define c where "c = length (contexts h)"
  let ?F = "\<lambda>i. all_resolve c k i :: ('a, 'e) resolve_f"
  have mk: "make_all_promise dflt xs h
          = (k, rounds ?F k 0 xs
                  (h\<lparr>states := states h @ [new_state],
                     contexts := contexts h @ [\<lparr>results = replicate (length xs) dflt, counter = 0\<rparr>]\<rparr>))"
    if "xs \<noteq> []" for xs
    using that unfolding k_def c_def
    by (simp add: make_all_promise_def make_promise_def new_promise_def new_context_def
        make_all_loop_rounds)
  {
    assume ne: "ps \<noteq> []" and len: "length vs = length ps"
      and res: "\<forall>j < length ps. ps ! j < length (states h)
              \<and> st_status (states h ! (ps ! j)) = resolved
              \<and> st_storage (states h ! (ps ! j)) = Some (vs ! j)"
    let ?h0 = "h\<lparr>states := states h @ [new_state],
                  contexts := contexts h @ [\<lparr>results = replicate (length ps) dflt, counter = 0\<rparr>]\<rparr>"
    have inputs: "\<forall>j < length ps. ps ! j < k \<and> st_status (states ?h0 ! (ps ! j)) = resolved
              \<and> st_storage (states ?h0 ! (ps ! j)) = Some (vs ! j)"
      using res by (simp add: k_def nth_append)
    have "outcome (rounds ?F k (length ([] :: 'a val list)) ps ?h0) k
            = (resolved, Some (VVec ([] @ vs)), nullptr)"
      by (rule rounds_all_resolved[OF inputs len ne, where dflt = dflt and dn = "[]"])
        (simp_all add: k_def c_def)
    then show "fst (make_all_promise dflt ps h) = length (states h)
         \<and> outcome (snd (make_all_promise dflt ps h)) (length (states h))
             = (resolved, Some (VVec vs), nullptr)"
      unfolding mk[OF ne] by (simp add: k_def)
  }
  {
    assume pre: "\<forall>p \<in> set pre. p < length (states h) \<and> st_status (states h ! p) \<noteq> rejected"
      and q: "q < length (states h)" "st_status (states h ! q) = rejected"
    let ?ps = "pre @ q # post"
    let ?h0 = "h\<lparr>states := states h @ [new_state],
                  contexts := contexts h @ [\<lparr>results = replicate (length ?ps) dflt, counter = 0\<rparr>]\<rparr>"
    let ?ha = "rounds ?F k 0 pre ?h0"
    let ?hb = "snd (fail (length (states ?ha)) (forward_reject k)
                      (snd (then1 q (all_resolve c k (length pre)) ?ha)))"
    have pre0: "\<forall>p \<in> set pre. p < k \<and> st_status (states ?h0 ! p) \<noteq> rejected"
      using pre by (simp add: k_def nth_append)
    have a: "k < length (states ?ha)" "states ?ha ! k = new_state"
      "\<forall>r < k. outcome ?ha r = outcome ?h0 r"
      using rounds_all_unrejected[OF pre0, where c = c and i = 0]
      by (simp_all add: k_def c_def)
    have qa: "q < length (states ?ha)" "st_status (states ?ha ! q) = rejected"
      and e: "st_exception (states ?ha ! q) = st_exception (states h ! q)"
      using a(1,3) q by (simp_all add: k_def outcome_def nth_append)
    note b = round_on_rejected[OF qa a(1,2), where f = "all_resolve c k (length pre)", unfolded e]
    have split: "rounds ?F k 0 ?ps ?h0 = rounds ?F k (Suc (length pre)) post ?hb"
      unfolding rounds_append by simp
    have "outcome (rounds ?F k 0 ?ps ?h0) k = outcome ?hb k"
      unfolding split using b by (intro rounds_keeps_settled) (simp_all add: outcome_def)
    then show "fst (make_all_promise dflt ?ps h) = length (states h)
         \<and> outcome (snd (make_all_promise dflt ?ps h)) (length (states h))
             = (rejected, None, st_exception (states h ! q))"
      using b unfolding mk[of ?ps, simplified] by (simp add: k_def)
  }
qed

lemma join_handler_sel:
  "h_resolve (join_handler k c j)
     = resolve_h (Suc k + 2 * j) (all_resolve c k j) (reject_h (Suc k + 2 * j) then_default)"
  "h_reject (join_handler k c j) = reject_h (Suc k + 2 * j) then_default"
  by (simp_all add: join_handler_def then_handler_def)

lemma join_handler_inj [simp]:
  "(join_handler k c i = (join_handler k c j :: ('a, 'e) handler)) = (i = j)"
  by (auto simp: join_handler_def then_handler_def)

lemma is_entry_join [simp]:
  "is_entry k c i (call_resolve_h (h_resolve (join_handler k c j)) v) = (i = j)"
  "is_entry k c i (call_reject_h (h_reject (join_handler k c j)) e) = (i = j)"
  by (auto simp: join_handler_sel)

lemma is_entry_cases:
  assumes "is_entry k c j x"
  shows "(\<exists>v. x = call_resolve_h (h_resolve (join_handler k c j)) v)
       \<or> (\<exists>e. x = call_reject_h (h_reject (join_handler k c j)) e)"
  using assms by (cases x) simp_all

lemma join_handler_not_old:
  "\<not> (\<forall>r \<in> set (resolve_h_refs (h_resolve (join_handler k c j))). old_ref k c r)"
  "\<not> (\<forall>r \<in> set (reject_h_refs (h_reject (join_handler k c j))). old_ref k c r)"
  by (simp_all add: join_handler_sel old_ref_def)

lemma old_not_entry:
  assumes "\<forall>r \<in> set (call_refs x). old_ref k c r"
  shows "\<not> is_entry k c j x"
proof
  assume "is_entry k c j x"
  from is_entry_cases[OF this] assms show False
    using join_handler_not_old[of k c j] by auto
qed

lemma old_handler_calls:
  assumes "\<forall>r \<in> set (handler_refs x). old_ref k c r"
  shows "\<forall>r \<in> set (call_refs (call_resolve_h (h_resolve x) v)). old_ref k c r"
    and "\<forall>r \<in> set (call_refs (call_reject_h (h_reject x) e)). old_ref k c r"
  using assms by (simp_all add: handler_refs_def)

lemma entries_of_handlers:
  fixes xs :: "('a, 'e) handler list"
  assumes "\<forall>x \<in> set xs. (\<forall>r \<in> set (handler_refs x). old_ref k c r)
                          \<or> (\<exists>i. x = join_handler k c i)"
  shows "length (filter (is_entry k c j) (map (\<lambda>x. call_resolve_h (h_resolve x) v) xs))
           = count_list xs (join_handler k c j)"
    and "length (filter (is_entry k c j) (map (\<lambda>x. call_reject_h (h_reject x) e) xs))
           = count_list xs (join_handler k c j)"
proof -
  have a: "is_entry k c j (call_resolve_h (h_resolve x) v) = (x = join_handler k c j)"
    and b: "is_entry k c j (call_reject_h (h_reject x) e) = (x = join_handler k c j)"
    if "(\<forall>r \<in> set (handler_refs x). old_ref k c r) \<or> (\<exists>i. x = join_handler k c i)"
    for x :: "('a, 'e) handler"
  proof -
    from that show "is_entry k c j (call_resolve_h (h_resolve x) v) = (x = join_handler k c j)"
    proof
      assume old: "\<forall>r \<in> set (handler_refs x). old_ref k c r"
      then have "\<not> is_entry k c j (call_resolve_h (h_resolve x) v)"
        by (intro old_not_entry old_handler_calls)
      moreover have "x \<noteq> join_handler k c j"
        using old join_handler_not_old(1)[of k c j] by (auto simp: handler_refs_def)
      ultimately show ?thesis by simp
    next
      assume "\<exists>i. x = join_handler k c i"
      then show ?thesis by (auto simp: join_handler_sel)
    qed
    from that show "is_entry k c j (call_reject_h (h_reject x) e) = (x = join_handler k c j)"
    proof
      assume old: "\<forall>r \<in> set (handler_refs x). old_ref k c r"
      then have "\<not> is_entry k c j (call_reject_h (h_reject x) e)"
        by (intro old_not_entry old_handler_calls)
      moreover have "x \<noteq> join_handler k c j"
        using old join_handler_not_old(1)[of k c j] by (auto simp: handler_refs_def)
      ultimately show ?thesis by simp
    next
      assume "\<exists>i. x = join_handler k c i"
      then show ?thesis by (auto simp: join_handler_sel)
    qed
  qed
  show "length (filter (is_entry k c j) (map (\<lambda>x. call_resolve_h (h_resolve x) v) xs))
           = count_list xs (join_handler k c j)"
    using assms by (induction xs) (simp_all add: a del: is_entry.simps)
  show "length (filter (is_entry k c j) (map (\<lambda>x. call_reject_h (h_reject x) e) xs))
           = count_list xs (join_handler k c j)"
    using assms by (induction xs) (simp_all add: b del: is_entry.simps)
qed

lemma join_invI:
  assumes "m \<le> length ps" "R \<subseteq> {..< m}" "D \<subseteq> {..< m}" "R \<inter> D = {}"
    and "length (states h) = Suc k + 2 * m" "c < length (contexts h)"
    and "\<forall>x \<in> set cs. (\<forall>r \<in> set (call_refs x). old_ref k c r) \<or> (\<exists>j < m. is_entry k c j x)"
    and "\<forall>p. call_clear p \<in> set cs \<longrightarrow> \<not> is_pending h p"
    and "\<forall>q < k. is_pending h q \<longrightarrow>
            (\<forall>x \<in> set (st_handlers (states h ! q)).
               (\<forall>r \<in> set (handler_refs x). old_ref k c r)
               \<or> (\<exists>j < m. x = join_handler k c j \<and> ps ! j = q))"
    and "length (results (contexts h ! c)) = length ps" "counter (contexts h ! c) = card R"
    and "\<forall>j \<in> R. st_status (states h ! (ps ! j)) = resolved
                  \<and> st_storage (states h ! (ps ! j)) = Some (results (contexts h ! c) ! j)
                  \<and> tok k c ps j cs h = 0"
    and "\<forall>j \<in> D. st_status (states h ! (ps ! j)) = rejected \<and> tok k c ps j cs h = 0"
    and "\<forall>j < m. j \<notin> R \<longrightarrow> j \<notin> D \<longrightarrow>
            waiting k c ps j cs h
            \<or> (st_status (states h ! (ps ! j)) = resolved \<and> st_storage (states h ! (ps ! j)) = None
               \<and> tok k c ps j cs h = 0)"
    and "if D \<noteq> {}
          then st_status (states h ! k) = rejected \<and> st_storage (states h ! k) = None
               \<and> (\<exists>j \<in> D. st_exception (states h ! k) = st_exception (states h ! (ps ! j)))
          else if R = {..< length ps}
          then outcome h k = (resolved, Some (VVec (results (contexts h ! c))), nullptr)
          else states h ! k = new_state"
  shows "join_inv k c ps m R D cs h"
  unfolding join_inv_def using assms by (intro conjI)

lemma join_invD:
  assumes "join_inv k c ps m R D cs h"
  shows "m \<le> length ps" "R \<subseteq> {..< m}" "D \<subseteq> {..< m}" "R \<inter> D = {}"
    and "length (states h) = Suc k + 2 * m" "c < length (contexts h)"
    and "\<forall>x \<in> set cs. (\<forall>r \<in> set (call_refs x). old_ref k c r) \<or> (\<exists>j < m. is_entry k c j x)"
    and "\<forall>p. call_clear p \<in> set cs \<longrightarrow> \<not> is_pending h p"
    and "\<forall>q < k. is_pending h q \<longrightarrow>
            (\<forall>x \<in> set (st_handlers (states h ! q)).
               (\<forall>r \<in> set (handler_refs x). old_ref k c r)
               \<or> (\<exists>j < m. x = join_handler k c j \<and> ps ! j = q))"
    and "length (results (contexts h ! c)) = length ps" "counter (contexts h ! c) = card R"
    and "\<forall>j \<in> R. st_status (states h ! (ps ! j)) = resolved
                  \<and> st_storage (states h ! (ps ! j)) = Some (results (contexts h ! c) ! j)
                  \<and> tok k c ps j cs h = 0"
    and "\<forall>j \<in> D. st_status (states h ! (ps ! j)) = rejected \<and> tok k c ps j cs h = 0"
    and "\<forall>j < m. j \<notin> R \<longrightarrow> j \<notin> D \<longrightarrow>
            waiting k c ps j cs h
            \<or> (st_status (states h ! (ps ! j)) = resolved \<and> st_storage (states h ! (ps ! j)) = None
               \<and> tok k c ps j cs h = 0)"
    and "if D \<noteq> {}
          then st_status (states h ! k) = rejected \<and> st_storage (states h ! k) = None
               \<and> (\<exists>j \<in> D. st_exception (states h ! k) = st_exception (states h ! (ps ! j)))
          else if R = {..< length ps}
          then outcome h k = (resolved, Some (VVec (results (contexts h ! c))), nullptr)
          else states h ! k = new_state"
proof -
  note i = assms[unfolded join_inv_def]
  show "m \<le> length ps" using i by (elim conjE)
  show "R \<subseteq> {..< m}" using i by (elim conjE)
  show "D \<subseteq> {..< m}" using i by (elim conjE)
  show "R \<inter> D = {}" using i by (elim conjE)
  show "length (states h) = Suc k + 2 * m" using i by (elim conjE)
  show "c < length (contexts h)" using i by (elim conjE)
  show "\<forall>x \<in> set cs. (\<forall>r \<in> set (call_refs x). old_ref k c r) \<or> (\<exists>j < m. is_entry k c j x)"
    using i by (elim conjE)
  show "\<forall>p. call_clear p \<in> set cs \<longrightarrow> \<not> is_pending h p" using i by (elim conjE)
  show "\<forall>q < k. is_pending h q \<longrightarrow>
            (\<forall>x \<in> set (st_handlers (states h ! q)).
               (\<forall>r \<in> set (handler_refs x). old_ref k c r)
               \<or> (\<exists>j < m. x = join_handler k c j \<and> ps ! j = q))"
    using i by (elim conjE)
  show "length (results (contexts h ! c)) = length ps" using i by (elim conjE)
  show "counter (contexts h ! c) = card R" using i by (elim conjE)
  show "\<forall>j \<in> R. st_status (states h ! (ps ! j)) = resolved
                  \<and> st_storage (states h ! (ps ! j)) = Some (results (contexts h ! c) ! j)
                  \<and> tok k c ps j cs h = 0"
    using i by (elim conjE)
  show "\<forall>j \<in> D. st_status (states h ! (ps ! j)) = rejected \<and> tok k c ps j cs h = 0"
    using i by (elim conjE)
  show "\<forall>j < m. j \<notin> R \<longrightarrow> j \<notin> D \<longrightarrow>
            waiting k c ps j cs h
            \<or> (st_status (states h ! (ps ! j)) = resolved \<and> st_storage (states h ! (ps ! j)) = None
               \<and> tok k c ps j cs h = 0)"
    using i by (elim conjE)
  show "if D \<noteq> {}
          then st_status (states h ! k) = rejected \<and> st_storage (states h ! k) = None
               \<and> (\<exists>j \<in> D. st_exception (states h ! k) = st_exception (states h ! (ps ! j)))
          else if R = {..< length ps}
          then outcome h k = (resolved, Some (VVec (results (contexts h ! c))), nullptr)
          else states h ! k = new_state"
    using i by (elim conjE)
qed

text \<open>A round that is not waiting has no closure left to run, and a waiting round whose closure
  is on the stack has a settled input.\<close>

lemma join_inv_entry:
  assumes inv: "join_inv k c ps m R D cs h" and j: "j < m" and x: "x \<in> set cs" "is_entry k c j x"
  shows "j \<notin> R" "j \<notin> D" "waiting k c ps j cs h"
proof -
  note i = join_invD[OF inv]
  have "filter (is_entry k c j) cs \<noteq> []" using x by (auto simp: filter_empty_conv)
  then have "0 < length (filter (is_entry k c j) cs)" by simp
  then have pos: "0 < tok k c ps j cs h" unfolding tok_def by simp
  show "j \<notin> R" using i(12) pos by auto
  show "j \<notin> D" using i(13) pos by auto
  with \<open>j \<notin> R\<close> show "waiting k c ps j cs h" using i(14) j pos by auto
qed

text \<open>A change of the store that leaves the statuses, the pending states, the states of the
  join and the context as they are, together with a change of the stack that adds old calls
  only and keeps the calls of the closures of the join.\<close>

lemma join_inv_transfer:
  fixes h h' :: "('a, 'e) heap"
  assumes inv: "join_inv k c ps m R D cs h"
    and inputs: "\<forall>j < length ps. ps ! j < k"
    and len: "length (states h') = length (states h)"
    and clen: "c < length (contexts h')" and ctx: "contexts h' ! c = contexts h ! c"
    and same: "\<forall>q. k \<le> q \<or> is_pending h q \<longrightarrow> states h' ! q = states h ! q"
    and out: "\<forall>q < k. outcome h' q = outcome h q"
    and calls: "\<forall>x \<in> set cs'. (\<forall>r \<in> set (call_refs x). old_ref k c r) \<or> x \<in> set cs"
    and clear: "\<forall>p. call_clear p \<in> set cs' \<longrightarrow> \<not> is_pending h p"
    and toks: "\<forall>j < m. length (filter (is_entry k c j) cs') = length (filter (is_entry k c j) cs)"
  shows "join_inv k c ps m R D cs' h'"
proof -
  note i = join_invD[OF inv]
  have pend: "is_pending h' q = is_pending h q" for q
  proof (cases "q < k")
    case True
    then show ?thesis using out len by (auto simp: is_pending_def outcome_def)
  next
    case False
    then show ?thesis using same len by (simp add: is_pending_def)
  qed
  have pst: "states h' ! q = states h ! q" if "is_pending h q" for q using same that by simp
  have inp: "ps ! j < k" if "j < m" for j using inputs that i(1) by simp
  have oin: "outcome h' (ps ! j) = outcome h (ps ! j)" if "j < m" for j using out inp[OF that] by simp
  have tk: "tok k c ps j cs' h' = tok k c ps j cs h" if "j < m" for j
    unfolding tok_def using toks that pend pst[of "ps ! j"] by simp
  have ent: "x \<in> set cs" if "x \<in> set cs'" "is_entry k c j x" for x j
    using calls that old_not_entry[of x k c j] by blast
  have wait: "waiting k c ps j cs' h'" if "waiting k c ps j cs h" "j < m" for j
    using that(1) tk[OF that(2)] oin[OF that(2)] same ent[of _ j]
    unfolding waiting_def outcome_def by (simp del: is_entry.simps) (metis is_entry_join)
  show ?thesis
  proof (rule join_invI)
    show "m \<le> length ps" "R \<subseteq> {..< m}" "D \<subseteq> {..< m}" "R \<inter> D = {}" by (fact i)+
    show "length (states h') = Suc k + 2 * m" using len i(5) by simp
    show "c < length (contexts h')" by (fact clen)
    show "\<forall>x \<in> set cs'. (\<forall>r \<in> set (call_refs x). old_ref k c r) \<or> (\<exists>j < m. is_entry k c j x)"
      using calls i(7) by blast
    show "\<forall>p. call_clear p \<in> set cs' \<longrightarrow> \<not> is_pending h' p" using clear pend by simp
    show "\<forall>q < k. is_pending h' q \<longrightarrow>
            (\<forall>x \<in> set (st_handlers (states h' ! q)).
               (\<forall>r \<in> set (handler_refs x). old_ref k c r)
               \<or> (\<exists>j < m. x = join_handler k c j \<and> ps ! j = q))"
      using i(9) pend pst by simp
    show "length (results (contexts h' ! c)) = length ps" "counter (contexts h' ! c) = card R"
      using i(10,11) ctx by simp_all
    show "\<forall>j \<in> R. st_status (states h' ! (ps ! j)) = resolved
                  \<and> st_storage (states h' ! (ps ! j)) = Some (results (contexts h' ! c) ! j)
                  \<and> tok k c ps j cs' h' = 0"
    proof
      fix j assume j: "j \<in> R"
      then have jm: "j < m" using i(2) by auto
      show "st_status (states h' ! (ps ! j)) = resolved
                  \<and> st_storage (states h' ! (ps ! j)) = Some (results (contexts h' ! c) ! j)
                  \<and> tok k c ps j cs' h' = 0"
        using i(12) j tk[OF jm] oin[OF jm] ctx by (simp add: outcome_def)
    qed
    show "\<forall>j \<in> D. st_status (states h' ! (ps ! j)) = rejected \<and> tok k c ps j cs' h' = 0"
    proof
      fix j assume j: "j \<in> D"
      then have jm: "j < m" using i(3) by auto
      show "st_status (states h' ! (ps ! j)) = rejected \<and> tok k c ps j cs' h' = 0"
        using i(13) j tk[OF jm] oin[OF jm] by (simp add: outcome_def)
    qed
    show "\<forall>j < m. j \<notin> R \<longrightarrow> j \<notin> D \<longrightarrow>
            waiting k c ps j cs' h'
            \<or> (st_status (states h' ! (ps ! j)) = resolved \<and> st_storage (states h' ! (ps ! j)) = None
               \<and> tok k c ps j cs' h' = 0)"
    proof (intro allI impI)
      fix j assume j: "j < m" "j \<notin> R" "j \<notin> D"
      from i(14) j consider "waiting k c ps j cs h"
        | "st_status (states h ! (ps ! j)) = resolved \<and> st_storage (states h ! (ps ! j)) = None
               \<and> tok k c ps j cs h = 0" by blast
      then show "waiting k c ps j cs' h'
            \<or> (st_status (states h' ! (ps ! j)) = resolved \<and> st_storage (states h' ! (ps ! j)) = None
               \<and> tok k c ps j cs' h' = 0)"
      proof cases
        case 1
        then show ?thesis using wait j(1) by simp
      next
        case 2
        then show ?thesis using tk[OF j(1)] oin[OF j(1)] by (simp add: outcome_def)
      qed
    qed
    have kk: "states h' ! k = states h ! k" using same by simp
    have exc: "st_exception (states h' ! (ps ! j)) = st_exception (states h ! (ps ! j))"
      if "j \<in> D" for j
    proof -
      have "j < m" using that i(3) by auto
      from oin[OF this] show ?thesis by (simp add: outcome_def)
    qed
    show "if D \<noteq> {}
          then st_status (states h' ! k) = rejected \<and> st_storage (states h' ! k) = None
               \<and> (\<exists>j \<in> D. st_exception (states h' ! k) = st_exception (states h' ! (ps ! j)))
          else if R = {..< length ps}
          then outcome h' k = (resolved, Some (VVec (results (contexts h' ! c))), nullptr)
          else states h' ! k = new_state"
      using i(15) kk exc ctx by (auto simp: outcome_def)
  qed
qed

text \<open>An old call that does not settle a pending state.\<close>

lemma quiet_step_facts:
  fixes h h' :: "('a, 'e) heap"
  assumes old: "\<forall>r \<in> set (call_refs x). old_ref k c r" and st: "step x h = (body, h')"
    and q1: "\<forall>p v. x = call_resolve p v \<longrightarrow> \<not> is_pending h p"
    and q2: "\<forall>p e. x = call_reject p e \<longrightarrow> \<not> is_pending h p"
    and q3: "\<forall>p. x = call_clear p \<longrightarrow> \<not> is_pending h p"
  shows "length (states h') = length (states h)"
    and "length (contexts h') = length (contexts h)"
    and "contexts h' ! c = contexts h ! c"
    and "\<forall>q. k \<le> q \<or> is_pending h q \<longrightarrow> states h' ! q = states h ! q"
    and "\<forall>q. outcome h' q = outcome h q"
    and "\<forall>y \<in> set body. \<forall>r \<in> set (call_refs y). old_ref k c r"
    and "\<forall>p. call_clear p \<notin> set body"
proof -
  have "length (states h') = length (states h)
      \<and> length (contexts h') = length (contexts h)
      \<and> contexts h' ! c = contexts h ! c
      \<and> (\<forall>q. k \<le> q \<or> is_pending h q \<longrightarrow> states h' ! q = states h ! q)
      \<and> (\<forall>q. outcome h' q = outcome h q)
      \<and> (\<forall>y \<in> set body. \<forall>r \<in> set (call_refs y). old_ref k c r)
      \<and> (\<forall>p. call_clear p \<notin> set body)"
  proof (cases x)
    case (call_resolve p v)
    then show ?thesis using st q1 by (simp add: resolve_enter_settled)
  next
    case (call_reject p e)
    then show ?thesis using st q2 by (simp add: reject_enter_settled)
  next
    case (call_clear p)
    have np: "\<not> is_pending h p" using q3 call_clear by simp
    have h': "h' = upd_state p (\<lambda>s. s\<lparr>st_handlers := []\<rparr>) h" and b: "body = []"
      using st call_clear by simp_all
    have pk: "p < k" using old call_clear by (simp add: old_ref_def)
    have "states h' ! q = states h ! q" if "k \<le> q \<or> is_pending h q" for q
    proof -
      have "q \<noteq> p" using that pk np by auto
      then show ?thesis unfolding h' by simp
    qed
    moreover have "outcome h' q = outcome h q" for q
      unfolding h' by (cases "q = p"; cases "p < length (states h)")
        (simp_all add: outcome_def nth_states_upd_state)
    ultimately show ?thesis unfolding h' b by simp
  next
    case (call_resolve_h rh v)
    obtain n f j where rh: "rh = resolve_h n f j" by (cases rh)
    show ?thesis
    proof (cases f)
      case (user_resolve g)
      then show ?thesis
        using st old unfolding call_resolve_h rh
        by (cases "g v") (auto simp: Let_def outcome_def)
    next
      case fail_identity
      then show ?thesis using st old unfolding call_resolve_h rh by (auto simp: outcome_def)
    next
      case (all_resolve c' res i)
      have c': "c' < c" "old_ref k c (State res)" "old_ref k c (State n)"
        using old unfolding call_resolve_h rh all_resolve by (simp_all add: old_ref_def)
      obtain filled h1 where ap: "apply_result c' i v h = (filled, h1)"
        by (cases "apply_result c' i v h")
      have h1: "states h1 = states h" "length (contexts h1) = length (contexts h)"
        "contexts h1 ! c = contexts h ! c"
        using ap c'(1) by (auto simp: apply_result_def Let_def)
      have "h' = h1" "set body \<subseteq> {call_resolve res (VVec (results (contexts h1 ! c'))),
                                     call_resolve n VUnit}"
        using st ap unfolding call_resolve_h rh all_resolve by (auto split: if_splits)
      then show ?thesis using h1 c' by (auto simp: outcome_def is_pending_def)
    next
      case (any_resolve res)
      then show ?thesis using st old unfolding call_resolve_h rh by (auto simp: outcome_def)
    qed
  next
    case (call_reject_h jh e)
    obtain n f where jh: "jh = reject_h n f" by (cases jh)
    show ?thesis
    proof (cases f)
      case (user_reject g)
      then show ?thesis
        using st old unfolding call_reject_h jh
        by (cases "g e") (auto simp: Let_def outcome_def)
    next
      case then_default
      then show ?thesis using st old unfolding call_reject_h jh by (auto simp: outcome_def)
    next
      case (forward_reject res)
      then show ?thesis using st old unfolding call_reject_h jh by (auto simp: outcome_def)
    qed
  qed
  then show "length (states h') = length (states h)"
    and "length (contexts h') = length (contexts h)"
    and "contexts h' ! c = contexts h ! c"
    and "\<forall>q. k \<le> q \<or> is_pending h q \<longrightarrow> states h' ! q = states h ! q"
    and "\<forall>q. outcome h' q = outcome h q"
    and "\<forall>y \<in> set body. \<forall>r \<in> set (call_refs y). old_ref k c r"
    and "\<forall>p. call_clear p \<notin> set body"
    by blast+
qed

lemma filter_entries_old:
  assumes "\<forall>y \<in> set body. \<forall>r \<in> set (call_refs y). old_ref k c r"
  shows "filter (is_entry k c j) body = []"
proof -
  have "\<not> is_entry k c j y" if "y \<in> set body" for y
    using assms that by (intro old_not_entry) simp
  then show ?thesis by (simp add: filter_empty_conv)
qed

lemma quiet_step:
  fixes h h' :: "('a, 'e) heap"
  assumes inv: "join_inv k c ps m R D (x # rest) h"
    and inputs: "\<forall>j < length ps. ps ! j < k"
    and old: "\<forall>r \<in> set (call_refs x). old_ref k c r" and st: "step x h = (body, h')"
    and q1: "\<forall>p v. x = call_resolve p v \<longrightarrow> \<not> is_pending h p"
    and q2: "\<forall>p e. x = call_reject p e \<longrightarrow> \<not> is_pending h p"
  shows "join_inv k c ps m R D (body @ rest) h'"
proof -
  note i = join_invD[OF inv]
  have q3: "\<forall>p. x = call_clear p \<longrightarrow> \<not> is_pending h p" using i(8) by simp
  note f = quiet_step_facts[OF old st q1 q2 q3]
  have nx: "\<not> is_entry k c j x" for j using old by (rule old_not_entry)
  show ?thesis
  proof (rule join_inv_transfer[OF inv inputs f(1)])
    show "c < length (contexts h')" using f(2) i(6) by simp
    show "contexts h' ! c = contexts h ! c" by (fact f(3))
    show "\<forall>q. k \<le> q \<or> is_pending h q \<longrightarrow> states h' ! q = states h ! q" by (fact f(4))
    show "\<forall>q < k. outcome h' q = outcome h q" using f(5) by simp
    show "\<forall>y \<in> set (body @ rest). (\<forall>r \<in> set (call_refs y). old_ref k c r) \<or> y \<in> set (x # rest)"
      using f(6) by auto
    show "\<forall>p. call_clear p \<in> set (body @ rest) \<longrightarrow> \<not> is_pending h p"
      using f(7) i(8) by auto
    show "\<forall>j < m. length (filter (is_entry k c j) (body @ rest))
                   = length (filter (is_entry k c j) (x # rest))"
      using filter_entries_old[OF f(6)] nx by simp
  qed
qed

lemma is_entry_unique:
  assumes "is_entry k c i x" "is_entry k c j x"
  shows "i = j"
  using is_entry_cases[OF assms(1)] assms(2) by (auto simp: join_handler_sel)

text \<open>An old call that settles a pending old state \<open>p\<close>: the closures queued on \<open>p\<close> go on
  the stack.\<close>

lemma settle_step:
  fixes h h' :: "('a, 'e) heap" and F :: "('a, 'e) handler \<Rightarrow> ('a, 'e) call"
  assumes inv: "join_inv k c ps m R D (x # rest) h"
    and inputs: "\<forall>j < length ps. ps ! j < k"
    and xold: "\<forall>r \<in> set (call_refs x). old_ref k c r"
    and pk: "p < k" and pend: "is_pending h p"
    and h': "h' = upd_state p sf h" and sf: "st_status (sf (states h ! p)) \<noteq> pending"
    and body: "body = map F (st_handlers (states h ! p)) @ [call_clear p]"
    and Fold: "\<And>y. \<forall>r \<in> set (handler_refs y). old_ref k c r \<Longrightarrow>
                  \<forall>r \<in> set (call_refs (F y)). old_ref k c r"
    and Fent: "\<And>j ys. \<forall>y \<in> set ys. (\<forall>r \<in> set (handler_refs y). old_ref k c r)
                                      \<or> (\<exists>i. y = join_handler k c i) \<Longrightarrow>
                  length (filter (is_entry k c j) (map F ys)) = count_list ys (join_handler k c j)"
    and Fjoin: "\<And>j. is_entry k c j (F (join_handler k c j))"
    and Fclear: "\<And>y q. F y \<noteq> call_clear q"
    and cons1: "\<And>y rh w. F y = call_resolve_h rh w \<Longrightarrow>
                  st_status (sf (states h ! p)) = resolved \<and> st_storage (sf (states h ! p)) = Some w"
    and cons2: "\<And>y jh e. F y = call_reject_h jh e \<Longrightarrow>
                  st_status (sf (states h ! p)) = rejected \<and> st_exception (sf (states h ! p)) = e"
  shows "join_inv k c ps m R D (body @ rest) h'"
proof -
  note i = join_invD[OF inv]
  let ?hs = "st_handlers (states h ! p)"
  have pl: "p < length (states h)" using pend by (simp add: is_pending_def)
  have st: "states h' ! q = states h ! q" if "q \<noteq> p" for q unfolding h' using that by simp
  have stp: "states h' ! p = sf (states h ! p)" unfolding h' using pl by simp
  have np: "\<not> is_pending h' p" using stp sf by (simp add: is_pending_def)
  have pd: "is_pending h' q = is_pending h q" if "q \<noteq> p" for q unfolding h' using that by simp
  have pd': "is_pending h' q \<Longrightarrow> is_pending h q \<and> q \<noteq> p" for q using np pd[of q] by auto
  have cl: "\<forall>y \<in> set ?hs. (\<forall>r \<in> set (handler_refs y). old_ref k c r)
                            \<or> (\<exists>j < m. y = join_handler k c j \<and> ps ! j = p)"
    using i(9) pk pend by simp
  then have cl': "\<forall>y \<in> set ?hs. (\<forall>r \<in> set (handler_refs y). old_ref k c r)
                            \<or> (\<exists>j. y = join_handler k c j)"
    by blast
  have nx: "\<not> is_entry k c j x" for j using xold by (rule old_not_entry)
  have ncl: "\<not> is_entry k c j (call_clear p)" for j by simp
  have inp: "ps ! j < k" if "j < m" for j using inputs that i(1) by simp
  have ent_body: "length (filter (is_entry k c j) body) = count_list ?hs (join_handler k c j)" for j
    unfolding body using Fent[OF cl', of j] by simp
  have no_join: "count_list ?hs (join_handler k c j) = 0" if "ps ! j \<noteq> p" for j
  proof -
    have "join_handler k c j \<notin> set ?hs"
    proof
      assume a: "join_handler k c j \<in> set ?hs"
      from cl[rule_format, OF a] show False
        using that join_handler_not_old(1)[of k c j] by (auto simp: handler_refs_def)
    qed
    then show ?thesis by (simp add: count_list_0_iff)
  qed
  have tk: "tok k c ps j (body @ rest) h' = tok k c ps j (x # rest) h" for j
  proof (cases "ps ! j = p")
    case True
    then show ?thesis unfolding tok_def using ent_body[of j] nx[of j] np pend by simp
  next
    case False
    then show ?thesis
      unfolding tok_def using ent_body[of j] nx[of j] no_join[OF False] pd[OF False] st[OF False]
      by simp
  qed
  have body_entry: "ps ! j = p" if "y \<in> set body" "is_entry k c j y" "j < m" for y j
  proof -
    from that(1,2) obtain z where z: "z \<in> set ?hs" "y = F z" unfolding body by auto
    from cl[rule_format, OF z(1)] show ?thesis
    proof
      assume "\<forall>r \<in> set (handler_refs z). old_ref k c r"
      from old_not_entry[OF Fold[OF this], of j] that(2) z(2) show ?thesis by simp
    next
      assume "\<exists>i < m. z = join_handler k c i \<and> ps ! i = p"
      then obtain i where i: "z = join_handler k c i" "ps ! i = p" by blast
      have "is_entry k c i y" unfolding z(2) i(1) by (rule Fjoin)
      from is_entry_unique[OF this that(2)] i(2) show ?thesis by simp
    qed
  qed
  have wait: "waiting k c ps j (body @ rest) h'" if w: "waiting k c ps j (x # rest) h" and j: "j < m"
    for j
  proof -
    note w' = w[unfolded waiting_def]
    have ge: "states h' ! q = states h ! q" if "k \<le> q" for q using st[of q] that pk by simp
    have a: "st_status (states h' ! (ps ! j)) = resolved \<and> st_storage (states h' ! (ps ! j)) = Some v"
      if v: "call_resolve_h (h_resolve (join_handler k c j)) v \<in> set (body @ rest)" for v
    proof (cases "call_resolve_h (h_resolve (join_handler k c j)) v \<in> set rest")
      case True
      then have s: "st_status (states h ! (ps ! j)) = resolved
                   \<and> st_storage (states h ! (ps ! j)) = Some v" using w' by simp
      then have "ps ! j \<noteq> p" using pend by (auto simp: is_pending_def)
      then show ?thesis using s st by simp
    next
      case False
      then have b: "call_resolve_h (h_resolve (join_handler k c j)) v \<in> set body" using v by simp
      have pj: "ps ! j = p" using body_entry[OF b _ j] by simp
      from b obtain z where "F z = call_resolve_h (h_resolve (join_handler k c j)) v"
        unfolding body by auto
      from cons1[OF this] show ?thesis unfolding pj stp .
    qed
    have b: "st_status (states h' ! (ps ! j)) = rejected \<and> st_exception (states h' ! (ps ! j)) = e"
      if e: "call_reject_h (h_reject (join_handler k c j)) e \<in> set (body @ rest)" for e
    proof (cases "call_reject_h (h_reject (join_handler k c j)) e \<in> set rest")
      case True
      then have s: "st_status (states h ! (ps ! j)) = rejected
                   \<and> st_exception (states h ! (ps ! j)) = e" using w' by simp
      then have "ps ! j \<noteq> p" using pend by (auto simp: is_pending_def)
      then show ?thesis using s st by simp
    next
      case False
      then have b: "call_reject_h (h_reject (join_handler k c j)) e \<in> set body" using e by simp
      have pj: "ps ! j = p" using body_entry[OF b _ j] by simp
      from b obtain z where "F z = call_reject_h (h_reject (join_handler k c j)) e"
        unfolding body by auto
      from cons2[OF this] show ?thesis unfolding pj stp .
    qed
    show ?thesis
      unfolding waiting_def using w' tk[of j] ge a b by simp
  qed
  have settled_same: "states h' ! (ps ! j) = states h ! (ps ! j)"
    if "st_status (states h ! (ps ! j)) \<noteq> pending" for j
  proof -
    have "ps ! j \<noteq> p" using that pend by (auto simp: is_pending_def)
    then show ?thesis by (rule st)
  qed
  show ?thesis
  proof (rule join_invI)
    show "m \<le> length ps" "R \<subseteq> {..< m}" "D \<subseteq> {..< m}" "R \<inter> D = {}" by (fact i)+
    show "length (states h') = Suc k + 2 * m" unfolding h' using i(5) by simp
    show "c < length (contexts h')" unfolding h' using i(6) by simp
    show "\<forall>y \<in> set (body @ rest).
            (\<forall>r \<in> set (call_refs y). old_ref k c r) \<or> (\<exists>j < m. is_entry k c j y)"
    proof
      fix y assume "y \<in> set (body @ rest)"
      then consider z where "z \<in> set ?hs" "y = F z" | "y = call_clear p" | "y \<in> set rest"
        unfolding body by auto
      then show "(\<forall>r \<in> set (call_refs y). old_ref k c r) \<or> (\<exists>j < m. is_entry k c j y)"
      proof cases
        case 1
        from cl[rule_format, OF 1(1)] show ?thesis
        proof
          assume "\<forall>r \<in> set (handler_refs z). old_ref k c r"
          from Fold[OF this] show ?thesis unfolding 1(2) by simp
        next
          assume "\<exists>j < m. z = join_handler k c j \<and> ps ! j = p"
          then show ?thesis unfolding 1(2) using Fjoin by blast
        qed
      next
        case 2
        then show ?thesis using pk by (simp add: old_ref_def)
      next
        case 3
        then show ?thesis using i(7) by simp
      qed
    qed
    show "\<forall>q. call_clear q \<in> set (body @ rest) \<longrightarrow> \<not> is_pending h' q"
    proof (intro allI impI)
      fix q assume "call_clear q \<in> set (body @ rest)"
      then consider "q = p" | "call_clear q \<in> set rest" | z where "F z = call_clear q"
        unfolding body by auto
      then show "\<not> is_pending h' q"
      proof cases
        case 1
        then show ?thesis using np by simp
      next
        case 2
        then have "\<not> is_pending h q" using i(8) by simp
        then show ?thesis using pd' by blast
      next
        case 3
        then show ?thesis using Fclear by simp
      qed
    qed
    show "\<forall>q < k. is_pending h' q \<longrightarrow>
            (\<forall>y \<in> set (st_handlers (states h' ! q)).
               (\<forall>r \<in> set (handler_refs y). old_ref k c r)
               \<or> (\<exists>j < m. y = join_handler k c j \<and> ps ! j = q))"
      using i(9) pd' st by simp
    show "length (results (contexts h' ! c)) = length ps" "counter (contexts h' ! c) = card R"
      unfolding h' using i(10,11) by simp_all
    show "\<forall>j \<in> R. st_status (states h' ! (ps ! j)) = resolved
                  \<and> st_storage (states h' ! (ps ! j)) = Some (results (contexts h' ! c) ! j)
                  \<and> tok k c ps j (body @ rest) h' = 0"
    proof
      fix j assume j: "j \<in> R"
      have "states h' ! (ps ! j) = states h ! (ps ! j)" using i(12) j by (intro settled_same) simp
      moreover have "contexts h' = contexts h" unfolding h' by simp
      ultimately show "st_status (states h' ! (ps ! j)) = resolved
                  \<and> st_storage (states h' ! (ps ! j)) = Some (results (contexts h' ! c) ! j)
                  \<and> tok k c ps j (body @ rest) h' = 0"
        using i(12) j tk[of j] by simp
    qed
    show "\<forall>j \<in> D. st_status (states h' ! (ps ! j)) = rejected \<and> tok k c ps j (body @ rest) h' = 0"
    proof
      fix j assume j: "j \<in> D"
      have "states h' ! (ps ! j) = states h ! (ps ! j)" using i(13) j by (intro settled_same) simp
      then show "st_status (states h' ! (ps ! j)) = rejected \<and> tok k c ps j (body @ rest) h' = 0"
        using i(13) j tk[of j] by simp
    qed
    show "\<forall>j < m. j \<notin> R \<longrightarrow> j \<notin> D \<longrightarrow>
            waiting k c ps j (body @ rest) h'
            \<or> (st_status (states h' ! (ps ! j)) = resolved \<and> st_storage (states h' ! (ps ! j)) = None
               \<and> tok k c ps j (body @ rest) h' = 0)"
    proof (intro allI impI)
      fix j assume j: "j < m" "j \<notin> R" "j \<notin> D"
      from i(14) j consider "waiting k c ps j (x # rest) h"
        | "st_status (states h ! (ps ! j)) = resolved \<and> st_storage (states h ! (ps ! j)) = None
               \<and> tok k c ps j (x # rest) h = 0" by blast
      then show "waiting k c ps j (body @ rest) h'
            \<or> (st_status (states h' ! (ps ! j)) = resolved \<and> st_storage (states h' ! (ps ! j)) = None
               \<and> tok k c ps j (body @ rest) h' = 0)"
      proof cases
        case 1
        then show ?thesis using wait j(1) by simp
      next
        case 2
        have "states h' ! (ps ! j) = states h ! (ps ! j)" using 2 by (intro settled_same) simp
        then show ?thesis using 2 tk[of j] by simp
      qed
    qed
    have kk: "states h' ! k = states h ! k" using st[of k] pk by simp
    have exc: "states h' ! (ps ! j) = states h ! (ps ! j)" if "j \<in> D" for j
      using i(13) that by (intro settled_same) simp
    have "contexts h' = contexts h" unfolding h' by simp
    then show "if D \<noteq> {}
          then st_status (states h' ! k) = rejected \<and> st_storage (states h' ! k) = None
               \<and> (\<exists>j \<in> D. st_exception (states h' ! k) = st_exception (states h' ! (ps ! j)))
          else if R = {..< length ps}
          then outcome h' k = (resolved, Some (VVec (results (contexts h' ! c))), nullptr)
          else states h' ! k = new_state"
      using i(15) kk exc by (auto simp: outcome_def)
  qed
qed

lemma pending_count_less:
  fixes h h' :: "('a, 'e) heap"
  assumes len: "length (states h') = length (states h)"
    and mono: "\<forall>q < length (states h). st_status (states h' ! q) = pending \<longrightarrow>
                 st_status (states h ! q) = pending"
    and n: "n < length (states h)" "st_status (states h ! n) = pending"
      "st_status (states h' ! n) \<noteq> pending"
  shows "pending_count h' < pending_count h"
proof -
  let ?A = "{q. q < length (states h) \<and> st_status (states h ! q) = pending}"
  let ?B = "{q. q < length (states h') \<and> st_status (states h' ! q) = pending}"
  have "?B \<subseteq> ?A" using mono len by auto
  moreover have "n \<in> ?A" "n \<notin> ?B" using n by simp_all
  ultimately have "?B \<subset> ?A" by blast
  moreover have "finite ?A" by simp
  ultimately have "card ?B < card ?A" by (rule psubset_card_mono[rotated])
  then show ?thesis unfolding pending_count_def length_filter_conv_card by simp
qed

text \<open>The closure \<^verbatim>\<open>reject_h\<close> of a round runs: the error goes through the two states of the
  round to the output, which takes it unless it is settled.\<close>

lemma fire_forward_reject_any:
  fixes h3 :: "('a, 'e) heap"
  assumes n1: "n1 < length (states h3)"
      "states h3 ! n1 = new_state\<lparr>st_handlers := [then_handler n2 fail_identity (forward_reject k)]\<rparr>"
    and n2: "n2 < length (states h3)" "states h3 ! n2 = new_state"
    and neq: "n1 \<noteq> n2" "k \<noteq> n1" "k \<noteq> n2"
    and k: "k < length (states h3)"
      "states h3 ! k = new_state \<or> st_status (states h3 ! k) \<noteq> pending"
  shows "\<exists>h'. run (call_reject_h (reject_h n1 then_default) e # rest) h3 = run rest h'
            \<and> length (states h') = length (states h3)
            \<and> contexts h' = contexts h3
            \<and> (\<forall>q. q \<noteq> k \<and> q \<noteq> n1 \<and> q \<noteq> n2 \<longrightarrow> states h' ! q = states h3 ! q)
            \<and> (if states h3 ! k = new_state then outcome h' k = (rejected, None, e)
                else states h' ! k = states h3 ! k)
            \<and> st_status (states h' ! n1) = rejected \<and> st_status (states h' ! n2) = rejected"
proof -
  let ?rej = "\<lambda>s :: ('a, 'e) state. s\<lparr>st_exception := e, st_status := rejected\<rparr>"
  define h4 where "h4 = upd_state n1 ?rej h3"
  define h5 where "h5 = (if states h3 ! k = new_state then upd_state k ?rej h4 else h4)"
  define h6 where "h6 = upd_state n2 ?rej h5"
  define h7 where "h7 = upd_state n1 (\<lambda>s. s\<lparr>st_handlers := []\<rparr>) h6"
  have f1: "is_pending h3 n1"
    "st_handlers (states h3 ! n1) = [then_handler n2 fail_identity (forward_reject k)]"
    using n1 by (simp_all add: is_pending_def new_state_def)
  have e1: "run (call_reject_h (reject_h n1 then_default) e # rest) h3
              = run (call_reject n1 e # rest) h3"
    by (simp del: run.simps add: run.simps(2)[of "call_reject_h _ _"])
  have e2: "run (call_reject n1 e # rest) h3
              = run (call_reject_h (reject_h n2 (forward_reject k)) e # call_clear n1 # rest) h4"
    unfolding h4_def using run_call_reject_pending[OF f1(1), of e rest] f1(2)
    by (simp add: then_handler_def del: run.simps)
  have e3: "run (call_reject_h (reject_h n2 (forward_reject k)) e # call_clear n1 # rest) h4
              = run (call_reject k e # call_reject n2 e # call_clear n1 # rest) h4"
    by (simp del: run.simps add: run.simps(2)[of "call_reject_h _ _"])
  have e4: "run (call_reject k e # call_reject n2 e # call_clear n1 # rest) h4
              = run (call_reject n2 e # call_clear n1 # rest) h5"
  proof (cases "states h3 ! k = new_state")
    case True
    have fk: "is_pending h4 k" "st_handlers (states h4 ! k) = []"
      unfolding h4_def using k(1) True neq by (simp_all add: is_pending_def new_state_def)
    show ?thesis unfolding h5_def using True run_call_reject_fresh[OF fk] by (simp del: run.simps)
  next
    case False
    then have "\<not> is_pending h4 k"
      unfolding h4_def using k(2) neq by (simp add: is_pending_def)
    then have "run (call_reject k e # call_reject n2 e # call_clear n1 # rest) h4
                 = run (call_reject n2 e # call_clear n1 # rest) h4"
      by (rule run_call_reject_settled)
    then show ?thesis unfolding h5_def using False by (simp del: run.simps)
  qed
  have l5: "length (states h5) = length (states h3)" unfolding h5_def h4_def by simp
  have s5: "states h5 ! q = states h3 ! q" if "q \<noteq> k" "q \<noteq> n1" for q
    unfolding h5_def h4_def using that by simp
  have f2: "is_pending h5 n2" "st_handlers (states h5 ! n2) = []"
    using n2 neq s5[of n2] l5 by (simp_all add: is_pending_def new_state_def)
  have e5: "run (call_reject n2 e # call_clear n1 # rest) h5 = run (call_clear n1 # rest) h6"
    unfolding h6_def by (rule run_call_reject_fresh[OF f2])
  have e6: "run (call_clear n1 # rest) h6 = run rest h7"
    unfolding h7_def by (rule run_call_clear)
  have run: "run (call_reject_h (reject_h n1 then_default) e # rest) h3 = run rest h7"
    unfolding e1 e2 e3 e4 e5 e6 ..
  have len: "length (states h7) = length (states h3)"
    unfolding h7_def h6_def using l5 by simp
  have ctx: "contexts h7 = contexts h3"
    unfolding h7_def h6_def h5_def h4_def by simp
  have other: "states h7 ! q = states h3 ! q" if "q \<noteq> k" "q \<noteq> n1" "q \<noteq> n2" for q
    using that s5[of q] unfolding h7_def h6_def by simp
  have kk: "states h7 ! k = states h5 ! k"
    using neq unfolding h7_def h6_def by simp
  have out: "if states h3 ! k = new_state then outcome h7 k = (rejected, None, e)
             else states h7 ! k = states h3 ! k"
    using kk k(1) neq unfolding h5_def h4_def by (simp add: outcome_def new_state_def)
  have settled12: "st_status (states h7 ! n1) = rejected" "st_status (states h7 ! n2) = rejected"
    unfolding h7_def h6_def using n1(1) n2(1) neq l5 s5[of n1] 
    by (simp_all add: h5_def h4_def)
  show ?thesis
    using run len ctx other out settled12 by (intro exI[of _ h7]) simp
qed

text \<open>A closure of round \<open>j\<close> has run: the round is done, with its input resolved (\<open>R'\<close>) or
  rejected (\<open>D'\<close>).\<close>

lemma entry_step:
  fixes h h' :: "('a, 'e) heap"
  assumes inv: "join_inv k c ps m R D (x # rest) h"
    and inputs: "\<forall>j < length ps. ps ! j < k"
    and j: "j < m" and x: "is_entry k c j x"
    and RD: "(R' = insert j R \<and> D' = D) \<or> (R' = R \<and> D' = insert j D)"
    and len: "length (states h') = length (states h)"
    and clen: "c < length (contexts h')"
    and other: "\<forall>q. q \<noteq> k \<and> q \<noteq> Suc k + 2 * j \<and> q \<noteq> Suc (Suc k + 2 * j) \<longrightarrow>
                  states h' ! q = states h ! q"
    and res_len: "length (results (contexts h' ! c)) = length ps"
    and cnt: "counter (contexts h' ! c) = card R'"
    and resR: "\<forall>i \<in> R. results (contexts h' ! c) ! i = results (contexts h ! c) ! i"
    and newR: "j \<in> R' \<longrightarrow> st_status (states h ! (ps ! j)) = resolved
                 \<and> st_storage (states h ! (ps ! j)) = Some (results (contexts h' ! c) ! j)"
    and newD: "j \<in> D' \<longrightarrow> st_status (states h ! (ps ! j)) = rejected"
    and out: "if D' \<noteq> {}
          then st_status (states h' ! k) = rejected \<and> st_storage (states h' ! k) = None
               \<and> (\<exists>j \<in> D'. st_exception (states h' ! k) = st_exception (states h ! (ps ! j)))
          else if R' = {..< length ps}
          then outcome h' k = (resolved, Some (VVec (results (contexts h' ! c))), nullptr)
          else states h' ! k = new_state"
  shows "join_inv k c ps m R' D' rest h'"
proof -
  note i = join_invD[OF inv]
  note e = join_inv_entry[OF inv j _ x, simplified]
  have old: "states h' ! q = states h ! q" if "q < k" for q using other that by simp
  have pd: "is_pending h' q = is_pending h q" if "q < k" for q
    using old[OF that] len by (simp add: is_pending_def)
  have inp: "ps ! a < k" if "a < m" for a using inputs that i(1) by simp
  have sin: "states h' ! (ps ! a) = states h ! (ps ! a)" if "a < m" for a
    using old inp[OF that] by simp
  have pin: "is_pending h' (ps ! a) = is_pending h (ps ! a)" if "a < m" for a
    using pd inp[OF that] by simp
  have tk: "tok k c ps a rest h' = tok k c ps a (x # rest) h - (if a = j then 1 else 0)"
    if "a < m" for a
  proof -
    have "is_entry k c a x = (a = j)" using x is_entry_unique[of k c a x j] by auto
    then show ?thesis unfolding tok_def using sin[OF that] pin[OF that] by auto
  qed
  have tj: "tok k c ps j (x # rest) h = 1" using e(3) by (simp add: waiting_def)
  have RDm: "R' \<subseteq> {..< m}" "D' \<subseteq> {..< m}" "R' \<inter> D' = {}"
    using RD i(2,3,4) j e(1,2) by auto
  have in_old: "a \<in> R \<or> a \<in> D \<or> a = j" if "a \<in> R' \<or> a \<in> D'" for a using RD that by auto
  show ?thesis
  proof (rule join_invI)
    show "m \<le> length ps" by (fact i(1))
    show "R' \<subseteq> {..< m}" "D' \<subseteq> {..< m}" "R' \<inter> D' = {}" by (fact RDm)+
    show "length (states h') = Suc k + 2 * m" using len i(5) by simp
    show "c < length (contexts h')" by (fact clen)
    show "\<forall>y \<in> set rest. (\<forall>r \<in> set (call_refs y). old_ref k c r) \<or> (\<exists>j < m. is_entry k c j y)"
      using i(7) by simp
    show "\<forall>p. call_clear p \<in> set rest \<longrightarrow> \<not> is_pending h' p"
    proof (intro allI impI)
      fix p assume p: "call_clear p \<in> set rest"
      then have np: "\<not> is_pending h p" using i(8) by simp
      have "(\<forall>r \<in> set (call_refs (call_clear p :: ('a, 'e) call)). old_ref k c r)"
        using i(7) p by auto
      then have "p < k" by (simp add: old_ref_def)
      then show "\<not> is_pending h' p" using pd np by simp
    qed
    show "\<forall>q < k. is_pending h' q \<longrightarrow>
            (\<forall>y \<in> set (st_handlers (states h' ! q)).
               (\<forall>r \<in> set (handler_refs y). old_ref k c r)
               \<or> (\<exists>j < m. y = join_handler k c j \<and> ps ! j = q))"
      using i(9) pd old by simp
    show "length (results (contexts h' ! c)) = length ps" by (fact res_len)
    show "counter (contexts h' ! c) = card R'" by (fact cnt)
    show "\<forall>a \<in> R'. st_status (states h' ! (ps ! a)) = resolved
                  \<and> st_storage (states h' ! (ps ! a)) = Some (results (contexts h' ! c) ! a)
                  \<and> tok k c ps a rest h' = 0"
    proof
      fix a assume a: "a \<in> R'"
      then have am: "a < m" using RDm by auto
      show "st_status (states h' ! (ps ! a)) = resolved
                  \<and> st_storage (states h' ! (ps ! a)) = Some (results (contexts h' ! c) ! a)
                  \<and> tok k c ps a rest h' = 0"
      proof (cases "a = j")
        case True
        then show ?thesis using newR a tk[OF am] tj sin[OF am] by simp
      next
        case False
        then have "a \<in> R" using a RD by auto
        then show ?thesis using i(12) resR tk[OF am] sin[OF am] False by simp
      qed
    qed
    show "\<forall>a \<in> D'. st_status (states h' ! (ps ! a)) = rejected \<and> tok k c ps a rest h' = 0"
    proof
      fix a assume a: "a \<in> D'"
      then have am: "a < m" using RDm by auto
      show "st_status (states h' ! (ps ! a)) = rejected \<and> tok k c ps a rest h' = 0"
      proof (cases "a = j")
        case True
        then show ?thesis using newD a tk[OF am] tj sin[OF am] by simp
      next
        case False
        then have "a \<in> D" using a RD by auto
        then show ?thesis using i(13) tk[OF am] sin[OF am] False by simp
      qed
    qed
    show "\<forall>a < m. a \<notin> R' \<longrightarrow> a \<notin> D' \<longrightarrow>
            waiting k c ps a rest h'
            \<or> (st_status (states h' ! (ps ! a)) = resolved \<and> st_storage (states h' ! (ps ! a)) = None
               \<and> tok k c ps a rest h' = 0)"
    proof (intro allI impI)
      fix a assume a: "a < m" "a \<notin> R'" "a \<notin> D'"
      then have aj: "a \<noteq> j" "a \<notin> R" "a \<notin> D" using RD by auto
      have n12: "states h' ! (Suc k + 2 * a) = states h ! (Suc k + 2 * a)"
        "states h' ! Suc (Suc k + 2 * a) = states h ! Suc (Suc k + 2 * a)"
        using aj(1) by (intro other[rule_format]; simp; presburger)+
      from i(14) a(1) aj consider "waiting k c ps a (x # rest) h"
        | "st_status (states h ! (ps ! a)) = resolved \<and> st_storage (states h ! (ps ! a)) = None
               \<and> tok k c ps a (x # rest) h = 0" by blast
      then show "waiting k c ps a rest h'
            \<or> (st_status (states h' ! (ps ! a)) = resolved \<and> st_storage (states h' ! (ps ! a)) = None
               \<and> tok k c ps a rest h' = 0)"
      proof cases
        case 1
        then have "waiting k c ps a rest h'"
          unfolding waiting_def using tk[OF a(1)] aj(1) n12 sin[OF a(1)] by simp
        then show ?thesis by simp
      next
        case 2
        then show ?thesis using tk[OF a(1)] sin[OF a(1)] aj(1) by simp
      qed
    qed
    have "st_exception (states h' ! (ps ! a)) = st_exception (states h ! (ps ! a))" if "a \<in> D'" for a
    proof -
      have "a < m" using that RDm by auto
      from sin[OF this] show ?thesis by simp
    qed
    then show "if D' \<noteq> {}
          then st_status (states h' ! k) = rejected \<and> st_storage (states h' ! k) = None
               \<and> (\<exists>j \<in> D'. st_exception (states h' ! k) = st_exception (states h' ! (ps ! j)))
          else if R' = {..< length ps}
          then outcome h' k = (resolved, Some (VVec (results (contexts h' ! c))), nullptr)
          else states h' ! k = new_state"
      using out by auto
  qed
qed

lemma entry_resolve_step:
  fixes h :: "('a, 'e) heap"
  assumes inv: "join_inv k c ps m R D (x # rest) h"
    and inputs: "\<forall>j < length ps. ps ! j < k"
    and j: "j < m" and x: "x = call_resolve_h (h_resolve (join_handler k c j)) v"
  shows "\<exists>h'. run (x # rest) h = run rest h' \<and> pending_count h' < pending_count h
              \<and> join_inv k c ps m (insert j R) D rest h'"
proof -
  note i = join_invD[OF inv]
  have ent: "is_entry k c j x" unfolding x by simp
  note e = join_inv_entry[OF inv j _ ent, simplified]
  note w = e(3)[unfolded waiting_def]
  define n where "n = length ps"
  define n1 where "n1 = Suc k + 2 * j"
  define n2 where "n2 = Suc (Suc k + 2 * j)"
  have jn: "j < n" using j i(1) by (simp add: n_def)
  have Rn: "R \<subseteq> {..< n}" using i(1,2) by (auto simp: n_def)
  have inj: "st_status (states h ! (ps ! j)) = resolved" "st_storage (states h ! (ps ! j)) = Some v"
    using w unfolding x by simp_all
  have lens: "n1 < length (states h)" "n2 < length (states h)" "k < length (states h)"
    using i(5) j by (simp_all add: n1_def n2_def)
  have neq: "n1 \<noteq> n2" "k \<noteq> n1" "k \<noteq> n2" by (simp_all add: n1_def n2_def)
  have st12: "states h ! n1
      = new_state\<lparr>st_handlers := [then_handler n2 fail_identity (forward_reject k)]\<rparr>"
    "states h ! n2 = new_state"
    using w by (simp_all add: n1_def n2_def)
  let ?filled = "Suc (counter (contexts h ! c)) = length (results (contexts h ! c))"
  have filled: "?filled = (insert j R = {..< n})"
    using filled_iff(1)[OF Rn jn e(1)] i(10,11) by (simp add: n_def)
  have noD: "D = {}" if "insert j R = {..< n}"
  proof -
    have "D \<subseteq> {..< n}" using i(1,3) by (auto simp: n_def)
    then show ?thesis using that i(4) e(2) by auto
  qed
  have Rne: "R \<noteq> {..< n}" using e(1) jn by auto
  have kfresh: "?filled \<Longrightarrow> states h ! k = new_state"
    using filled noD i(15) Rne by (simp add: n_def)
  define ctx' where "ctx' = (contexts h ! c)\<lparr>results := (results (contexts h ! c))[j := v],
                                    counter := Suc (counter (contexts h ! c))\<rparr>"
  obtain h' where h':
    "run (call_resolve_h (resolve_h n1 (all_resolve c k j) (reject_h n1 then_default)) v # rest) h
       = run rest h'"
    "length (states h') = length (states h)"
    "contexts h' = (contexts h)[c := ctx']"
    "\<forall>q. q \<noteq> k \<and> q \<noteq> n1 \<and> q \<noteq> n2 \<longrightarrow> states h' ! q = states h ! q"
    "if ?filled then outcome h' k = (resolved, Some (VVec (results ctx')), nullptr)
     else states h' ! k = states h ! k"
    "st_status (states h' ! n1) = resolved" "st_status (states h' ! n2) = resolved"
    using fire_all_resolve[where c = c and ?h3.0 = h and ?n1.0 = n1 and ?n2.0 = n2 and k = k
          and i = j and v = v and j = "reject_h n1 then_default" and rest = rest,
          OF i(6) lens(1) st12(1) lens(2) st12(2) neq lens(3) kfresh]
    unfolding ctx'_def by blast
  have run: "run (x # rest) h = run rest h'"
    unfolding x join_handler_sel n1_def[symmetric] by (fact h'(1))
  have cnt: "pending_count h' < pending_count h"
  proof (rule pending_count_less[OF h'(2) _ lens(1)])
    show "st_status (states h ! n1) = pending" unfolding st12 by (simp add: new_state_def)
    show "st_status (states h' ! n1) \<noteq> pending" using h'(6) by simp
    show "\<forall>q < length (states h). st_status (states h' ! q) = pending \<longrightarrow>
             st_status (states h ! q) = pending"
    proof (intro allI impI)
      fix q assume q: "st_status (states h' ! q) = pending"
      then have "q \<noteq> n1" "q \<noteq> n2" using h'(6,7) by auto
      show "st_status (states h ! q) = pending"
      proof (cases "q = k")
        case True
        then show ?thesis using q h'(5) by (auto simp: outcome_def split: if_splits)
      next
        case False
        then show ?thesis using q h'(4) \<open>q \<noteq> n1\<close> \<open>q \<noteq> n2\<close> by simp
      qed
    qed
  qed
  have rs: "results (contexts h' ! c) = (results (contexts h ! c))[j := v]"
    "counter (contexts h' ! c) = Suc (card R)"
    unfolding h'(3) ctx'_def using i(6,11) by simp_all
  have "join_inv k c ps m (insert j R) D rest h'"
  proof (rule entry_step[OF inv inputs j ent _ h'(2)])
    show "(insert j R = insert j R \<and> D = D) \<or> (insert j R = R \<and> D = insert j D)" by simp
    show "c < length (contexts h')" unfolding h'(3) using i(6) by simp
    show "\<forall>q. q \<noteq> k \<and> q \<noteq> Suc k + 2 * j \<and> q \<noteq> Suc (Suc k + 2 * j) \<longrightarrow>
                  states h' ! q = states h ! q"
      using h'(4) by (simp add: n1_def n2_def)
    show "length (results (contexts h' ! c)) = length ps" unfolding rs using i(10) by simp
    show "counter (contexts h' ! c) = card (insert j R)"
      unfolding rs using filled_iff(2)[OF Rn jn e(1)] by simp
    show "\<forall>a \<in> R. results (contexts h' ! c) ! a = results (contexts h ! c) ! a"
    proof
      fix a assume "a \<in> R"
      then have "a \<noteq> j" using e(1) by auto
      then show "results (contexts h' ! c) ! a = results (contexts h ! c) ! a"
        unfolding rs by simp
    qed
    show "j \<in> insert j R \<longrightarrow> st_status (states h ! (ps ! j)) = resolved
                 \<and> st_storage (states h ! (ps ! j)) = Some (results (contexts h' ! c) ! j)"
      unfolding rs using inj i(10) jn by (simp add: n_def)
    show "j \<in> D \<longrightarrow> st_status (states h ! (ps ! j)) = rejected" using e(2) by simp
    show "if D \<noteq> {}
          then st_status (states h' ! k) = rejected \<and> st_storage (states h' ! k) = None
               \<and> (\<exists>j \<in> D. st_exception (states h' ! k) = st_exception (states h ! (ps ! j)))
          else if insert j R = {..< length ps}
          then outcome h' k = (resolved, Some (VVec (results (contexts h' ! c))), nullptr)
          else states h' ! k = new_state"
    proof (cases "D = {}")
      case True
      show ?thesis
      proof (cases "insert j R = {..< n}")
        case f: True
        then show ?thesis using True h'(5) filled rs by (simp add: n_def ctx'_def)
      next
        case f: False
        then have "states h' ! k = states h ! k" using h'(5) filled by simp
        then show ?thesis using True f i(15) Rne by (simp add: n_def)
      qed
    next
      case False
      then have "\<not> ?filled" using filled noD by blast
      then have "states h' ! k = states h ! k" using h'(5) by simp
      then show ?thesis using False i(15) by simp
    qed
  qed
  then show ?thesis using run cnt by blast
qed

lemma entry_reject_step:
  fixes h :: "('a, 'e) heap"
  assumes inv: "join_inv k c ps m R D (x # rest) h"
    and inputs: "\<forall>j < length ps. ps ! j < k"
    and j: "j < m" and x: "x = call_reject_h (h_reject (join_handler k c j)) e"
  shows "\<exists>h'. run (x # rest) h = run rest h' \<and> pending_count h' < pending_count h
              \<and> join_inv k c ps m R (insert j D) rest h'"
proof -
  note i = join_invD[OF inv]
  have ent: "is_entry k c j x" unfolding x by simp
  note en = join_inv_entry[OF inv j _ ent, simplified]
  note w = en(3)[unfolded waiting_def]
  define n where "n = length ps"
  define n1 where "n1 = Suc k + 2 * j"
  define n2 where "n2 = Suc (Suc k + 2 * j)"
  have jn: "j < n" using j i(1) by (simp add: n_def)
  have inj: "st_status (states h ! (ps ! j)) = rejected" "st_exception (states h ! (ps ! j)) = e"
    using w unfolding x by simp_all
  have lens: "n1 < length (states h)" "n2 < length (states h)" "k < length (states h)"
    using i(5) j by (simp_all add: n1_def n2_def)
  have neq: "n1 \<noteq> n2" "k \<noteq> n1" "k \<noteq> n2" by (simp_all add: n1_def n2_def)
  have st12: "states h ! n1
      = new_state\<lparr>st_handlers := [then_handler n2 fail_identity (forward_reject k)]\<rparr>"
    "states h ! n2 = new_state"
    using w by (simp_all add: n1_def n2_def)
  have Rne: "R \<noteq> {..< n}" using en(1) jn by auto
  have Rne': "R \<noteq> {..< length ps}" using Rne by (simp add: n_def)
  have kfresh: "states h ! k = new_state" if "D = {}" using i(15) that Rne' by simp
  have krej: "st_status (states h ! k) = rejected" if "D \<noteq> {}" using i(15) that by simp
  have kst: "states h ! k = new_state \<or> st_status (states h ! k) \<noteq> pending"
    using kfresh krej by (cases "D = {}") simp_all
  have kD: "D \<noteq> {}" if "states h ! k \<noteq> new_state" using kfresh that by blast
  obtain h' where h':
    "run (call_reject_h (reject_h n1 then_default) e # rest) h = run rest h'"
    "length (states h') = length (states h)"
    "contexts h' = contexts h"
    "\<forall>q. q \<noteq> k \<and> q \<noteq> n1 \<and> q \<noteq> n2 \<longrightarrow> states h' ! q = states h ! q"
    "if states h ! k = new_state then outcome h' k = (rejected, None, e)
     else states h' ! k = states h ! k"
    "st_status (states h' ! n1) = rejected" "st_status (states h' ! n2) = rejected"
    using fire_forward_reject_any[OF lens(1) st12(1) lens(2) st12(2) neq lens(3) kst,
        of e rest]
    by blast
  have run: "run (x # rest) h = run rest h'"
    unfolding x join_handler_sel n1_def[symmetric] by (fact h'(1))
  have cnt: "pending_count h' < pending_count h"
  proof (rule pending_count_less[OF h'(2) _ lens(1)])
    show "st_status (states h ! n1) = pending" unfolding st12 by (simp add: new_state_def)
    show "st_status (states h' ! n1) \<noteq> pending" using h'(6) by simp
    show "\<forall>q < length (states h). st_status (states h' ! q) = pending \<longrightarrow>
             st_status (states h ! q) = pending"
    proof (intro allI impI)
      fix q assume q: "st_status (states h' ! q) = pending"
      then have "q \<noteq> n1" "q \<noteq> n2" using h'(6,7) by auto
      show "st_status (states h ! q) = pending"
      proof (cases "q = k")
        case True
        then show ?thesis using q h'(5) by (auto simp: outcome_def split: if_splits)
      next
        case False
        then show ?thesis using q h'(4) \<open>q \<noteq> n1\<close> \<open>q \<noteq> n2\<close> by simp
      qed
    qed
  qed
  have "join_inv k c ps m R (insert j D) rest h'"
  proof (rule entry_step[OF inv inputs j ent _ h'(2)])
    show "(R = insert j R \<and> insert j D = D) \<or> (R = R \<and> insert j D = insert j D)" by simp
    show "c < length (contexts h')" unfolding h'(3) using i(6) by simp
    show "\<forall>q. q \<noteq> k \<and> q \<noteq> Suc k + 2 * j \<and> q \<noteq> Suc (Suc k + 2 * j) \<longrightarrow>
                  states h' ! q = states h ! q"
      using h'(4) by (simp add: n1_def n2_def)
    show "length (results (contexts h' ! c)) = length ps" unfolding h'(3) using i(10) by simp
    show "counter (contexts h' ! c) = card R" unfolding h'(3) using i(11) by simp
    show "\<forall>a \<in> R. results (contexts h' ! c) ! a = results (contexts h ! c) ! a"
      unfolding h'(3) by simp
    show "j \<in> R \<longrightarrow> st_status (states h ! (ps ! j)) = resolved
                 \<and> st_storage (states h ! (ps ! j)) = Some (results (contexts h' ! c) ! j)"
      using en(1) by simp
    show "j \<in> insert j D \<longrightarrow> st_status (states h ! (ps ! j)) = rejected" using inj by simp
    show "if insert j D \<noteq> {}
          then st_status (states h' ! k) = rejected \<and> st_storage (states h' ! k) = None
               \<and> (\<exists>a \<in> insert j D. st_exception (states h' ! k) = st_exception (states h ! (ps ! a)))
          else if R = {..< length ps}
          then outcome h' k = (resolved, Some (VVec (results (contexts h' ! c))), nullptr)
          else states h' ! k = new_state"
    proof (cases "states h ! k = new_state")
      case True
      then have "outcome h' k = (rejected, None, e)" using h'(5) by simp
      then show ?thesis using inj by (simp add: outcome_def)
    next
      case False
      then have same: "states h' ! k = states h ! k" using h'(5) by simp
      have "D \<noteq> {}" using kD[OF False] .
      then show ?thesis using i(15) same by auto
    qed
  qed
  then show ?thesis using run cnt by blast
qed

lemma settle_resolve_step:
  fixes h :: "('a, 'e) heap"
  assumes inv: "join_inv k c ps m R D (call_resolve p v # rest) h"
    and inputs: "\<forall>j < length ps. ps ! j < k"
    and pk: "p < k" and pend: "is_pending h p"
  shows "join_inv k c ps m R D
           (map (\<lambda>x. call_resolve_h (h_resolve x) v) (st_handlers (states h ! p)) @ [call_clear p]
            @ rest)
           (upd_state p (\<lambda>s. s\<lparr>st_storage := Some v, st_status := resolved\<rparr>) h)"
proof -
  have "join_inv k c ps m R D
           ((map (\<lambda>x. call_resolve_h (h_resolve x) v) (st_handlers (states h ! p)) @ [call_clear p])
            @ rest)
           (upd_state p (\<lambda>s. s\<lparr>st_storage := Some v, st_status := resolved\<rparr>) h)"
  proof (rule settle_step[OF inv inputs _ pk pend refl _ refl])
    show "\<forall>r \<in> set (call_refs (call_resolve p v :: ('a, 'e) call)). old_ref k c r"
      using pk by (simp add: old_ref_def)
    show "st_status ((states h ! p)\<lparr>st_storage := Some v, st_status := resolved\<rparr>) \<noteq> pending"
      by simp
    show "\<And>y :: ('a, 'e) handler. \<forall>r \<in> set (handler_refs y). old_ref k c r \<Longrightarrow>
            \<forall>r \<in> set (call_refs (call_resolve_h (h_resolve y) v)). old_ref k c r"
      by (rule old_handler_calls)
    show "\<And>j (ys :: ('a, 'e) handler list).
            \<forall>y \<in> set ys. (\<forall>r \<in> set (handler_refs y). old_ref k c r)
                            \<or> (\<exists>i. y = join_handler k c i) \<Longrightarrow>
            length (filter (is_entry k c j) (map (\<lambda>x. call_resolve_h (h_resolve x) v) ys))
              = count_list ys (join_handler k c j)"
      by (rule entries_of_handlers)
  qed simp_all
  then show ?thesis by simp
qed

lemma settle_reject_step:
  fixes h :: "('a, 'e) heap"
  assumes inv: "join_inv k c ps m R D (call_reject p e # rest) h"
    and inputs: "\<forall>j < length ps. ps ! j < k"
    and pk: "p < k" and pend: "is_pending h p"
  shows "join_inv k c ps m R D
           (map (\<lambda>x. call_reject_h (h_reject x) e) (st_handlers (states h ! p)) @ [call_clear p]
            @ rest)
           (upd_state p (\<lambda>s. s\<lparr>st_exception := e, st_status := rejected\<rparr>) h)"
proof -
  have "join_inv k c ps m R D
           ((map (\<lambda>x. call_reject_h (h_reject x) e) (st_handlers (states h ! p)) @ [call_clear p])
            @ rest)
           (upd_state p (\<lambda>s. s\<lparr>st_exception := e, st_status := rejected\<rparr>) h)"
  proof (rule settle_step[OF inv inputs _ pk pend refl _ refl])
    show "\<forall>r \<in> set (call_refs (call_reject p e :: ('a, 'e) call)). old_ref k c r"
      using pk by (simp add: old_ref_def)
    show "st_status ((states h ! p)\<lparr>st_exception := e, st_status := rejected\<rparr>) \<noteq> pending"
      by simp
    show "\<And>y :: ('a, 'e) handler. \<forall>r \<in> set (handler_refs y). old_ref k c r \<Longrightarrow>
            \<forall>r \<in> set (call_refs (call_reject_h (h_reject y) e)). old_ref k c r"
      by (rule old_handler_calls)
    show "\<And>j (ys :: ('a, 'e) handler list).
            \<forall>y \<in> set ys. (\<forall>r \<in> set (handler_refs y). old_ref k c r)
                            \<or> (\<exists>i. y = join_handler k c i) \<Longrightarrow>
            length (filter (is_entry k c j) (map (\<lambda>x. call_reject_h (h_reject x) e) ys))
              = count_list ys (join_handler k c j)"
      by (rule entries_of_handlers)
  qed simp_all
  then show ?thesis by simp
qed

text \<open>Running the stack keeps the state of the join.\<close>

lemma run_join_inv:
  fixes h :: "('a, 'e) heap"
  assumes inputs: "\<forall>j < length ps. ps ! j < k"
  shows "join_inv k c ps m R D cs h \<Longrightarrow> \<exists>R' D'. join_inv k c ps m R' D' [] (run cs h)"
proof (induction "(cs, h)" arbitrary: cs h R D
    rule: wf_induct_rule[OF wf_measures[of "[\<lambda>(cs, h). pending_count h,
                                               \<lambda>(cs, h). sum_list (map weight cs)]"]])
  case (1 cs h R D)
  note IH = "1.hyps" and inv = "1.prems"
  show ?case
  proof (cases cs)
    case Nil
    then show ?thesis using inv by auto
  next
    case (Cons x rest)
    note inv' = inv[unfolded Cons]
    note i = join_invD[OF inv']
    from i(7) consider (old) "\<forall>r \<in> set (call_refs x). old_ref k c r"
      | (entry) j where "j < m" "is_entry k c j x" by auto
    then show ?thesis
    proof cases
      case entry
      have "\<exists>h' R1 D1. run (x # rest) h = run rest h' \<and> pending_count h' < pending_count h
              \<and> join_inv k c ps m R1 D1 rest h'"
        using is_entry_cases[OF entry(2)] entry_resolve_step[OF inv' inputs entry(1)]
          entry_reject_step[OF inv' inputs entry(1)]
        by blast
      then obtain h' R1 D1 where h': "run (x # rest) h = run rest h'"
        "pending_count h' < pending_count h" "join_inv k c ps m R1 D1 rest h'" by blast
      have "((rest, h'), (cs, h)) \<in> measures [\<lambda>(cs, h). pending_count h,
                                               \<lambda>(cs, h). sum_list (map weight cs)]"
        using h'(2) by simp
      from IH[OF this h'(3)] show ?thesis unfolding Cons h'(1) .
    next
      case old
      obtain body h' where st: "step x h = (body, h')" by (cases "step x h")
      have ord: "((body @ rest, h'), (cs, h)) \<in> measures [\<lambda>(cs, h). pending_count h,
                                               \<lambda>(cs, h). sum_list (map weight cs)]"
        using step_decreases[OF st] unfolding Cons by auto
      have run: "run (x # rest) h = run (body @ rest) h'" using st by simp
      have "join_inv k c ps m R D (body @ rest) h'"
      proof (cases "(\<exists>p v. x = call_resolve p v \<and> is_pending h p)
                    \<or> (\<exists>p e. x = call_reject p e \<and> is_pending h p)")
        case False
        then show ?thesis by (intro quiet_step[OF inv' inputs old st]) blast+
      next
        case True
        then show ?thesis
        proof (elim disjE exE conjE)
          fix p v assume x: "x = call_resolve p v" and pend: "is_pending h p"
          have pk: "p < k" using old unfolding x by (simp add: old_ref_def)
          have "body = map (\<lambda>x. call_resolve_h (h_resolve x) v) (st_handlers (states h ! p))
                         @ [call_clear p]"
            "h' = upd_state p (\<lambda>s. s\<lparr>st_storage := Some v, st_status := resolved\<rparr>) h"
            using st unfolding x by (simp_all add: resolve_enter_pending[OF pend])
          then show ?thesis
            using settle_resolve_step[OF inv'[unfolded x] inputs pk pend] by simp
        next
          fix p e assume x: "x = call_reject p e" and pend: "is_pending h p"
          have pk: "p < k" using old unfolding x by (simp add: old_ref_def)
          have "body = map (\<lambda>x. call_reject_h (h_reject x) e) (st_handlers (states h ! p))
                         @ [call_clear p]"
            "h' = upd_state p (\<lambda>s. s\<lparr>st_exception := e, st_status := rejected\<rparr>) h"
            using st unfolding x by (simp_all add: reject_enter_pending[OF pend])
          then show ?thesis
            using settle_reject_step[OF inv'[unfolded x] inputs pk pend] by simp
        qed
      qed
      from IH[OF ord this] show ?thesis unfolding Cons run .
    qed
  qed
qed

text \<open>One round on an input that is already rejected: the output takes the error unless it is
  settled.\<close>

lemma round_on_rejected_any:
  fixes h :: "('a, 'e) heap" and f :: "('a, 'e) resolve_f"
  assumes q: "q < length (states h)" "st_status (states h ! q) = rejected"
    and k: "k < length (states h)"
      "states h ! k = new_state \<or> st_status (states h ! k) \<noteq> pending"
  defines "hb \<equiv> snd (fail (length (states h)) (forward_reject k) (snd (then1 q f h)))"
  shows "length (states hb) = Suc (Suc (length (states h)))"
    and "contexts hb = contexts h"
    and "\<And>r. r < length (states h) \<Longrightarrow> r \<noteq> k \<Longrightarrow> states hb ! r = states h ! r"
    and "if states h ! k = new_state
         then outcome hb k = (rejected, None, st_exception (states h ! q))
         else states hb ! k = states h ! k"
proof -
  define n1 where "n1 = length (states h)"
  define n2 where "n2 = Suc n1"
  let ?e = "st_exception (states h ! q)"
  let ?rej = "\<lambda>s :: ('a, 'e) state. s\<lparr>st_exception := ?e, st_status := rejected\<rparr>"
  let ?h0 = "h\<lparr>states := states h @ [new_state]\<rparr>"
  let ?ha = "snd (then1 q f h)"
  have f1: "n1 < length (states ?h0)" "states ?h0 ! n1 = new_state" by (simp_all add: n1_def)
  have ha: "?ha = upd_state n1 ?rej ?h0"
    unfolding then1_def
    by (simp add: then2_rejected[OF q] fire_reject_default[OF f1, unfolded n1_def] n1_def
        del: run.simps)
  have kn: "k \<noteq> n1" "k \<noteq> n2" using k(1) by (simp_all add: n1_def n2_def)
  have a1: "n1 < length (states ?ha)" "st_status (states ?ha ! n1) = rejected"
    "st_exception (states ?ha ! n1) = ?e" "length (states ?ha) = n2"
    unfolding ha by (simp_all add: n1_def n2_def)
  let ?h1 = "?ha\<lparr>states := states ?ha @ [new_state]\<rparr>"
  define h2 where "h2 = (if states h ! k = new_state then upd_state k ?rej ?h1 else ?h1)"
  have k1: "k < length (states ?h1)" using k(1) a1(4) by (simp add: n2_def n1_def)
  have sk1: "states ?h1 ! k = states h ! k"
    unfolding ha using k(1) kn by (simp add: nth_append n1_def)
  have e1: "snd (then2 n1 fail_identity (forward_reject k) ?ha)
          = run [call_reject k ?e, call_reject n2 ?e] ?h1"
    using then2_rejected[OF a1(1,2), of fail_identity "forward_reject k"] a1(3,4)
    by (simp del: run.simps add: run.simps(2)[of "call_reject_h _ _"])
  have e2: "run [call_reject k ?e, call_reject n2 ?e] ?h1 = run [call_reject n2 ?e] h2"
  proof (cases "states h ! k = new_state")
    case True
    have fk: "is_pending ?h1 k" "st_handlers (states ?h1 ! k) = []"
      using k1 sk1 True by (simp_all add: is_pending_def new_state_def)
    show ?thesis unfolding h2_def using True run_call_reject_fresh[OF fk] by (simp del: run.simps)
  next
    case False
    then have "\<not> is_pending ?h1 k" using k(2) sk1 by (simp add: is_pending_def)
    then have "run [call_reject k ?e, call_reject n2 ?e] ?h1 = run [call_reject n2 ?e] ?h1"
      by (rule run_call_reject_settled)
    then show ?thesis unfolding h2_def using False by (simp del: run.simps)
  qed
  have l2: "length (states h2) = Suc n2" unfolding h2_def using a1(4) by simp
  have s2: "states h2 ! r = states ?h1 ! r" if "r \<noteq> k" for r unfolding h2_def using that by simp
  have f2: "is_pending h2 n2" "st_handlers (states h2 ! n2) = []"
    using l2 s2[of n2] kn a1(4)[symmetric] by (simp_all add: is_pending_def new_state_def)
  have e3: "run [call_reject n2 ?e] h2 = upd_state n2 ?rej h2"
    using run_call_reject_fresh[OF f2, of ?e "[]"] by simp
  have hb: "hb = upd_state n2 ?rej h2"
    unfolding hb_def fail_def n1_def[symmetric] e1 e2 e3 ..
  show "length (states hb) = Suc (Suc (length (states h)))"
    unfolding hb using l2 by (simp add: n2_def n1_def)
  show "contexts hb = contexts h" unfolding hb h2_def ha by simp
  show "states hb ! r = states h ! r" if "r < length (states h)" "r \<noteq> k" for r
  proof -
    have "r \<noteq> n1" "r \<noteq> n2" using that(1) by (simp_all add: n1_def n2_def)
    then show ?thesis
      unfolding hb using s2[OF that(2)] that(1) by (simp add: ha nth_append n1_def)
  qed
  have kk: "states hb ! k = states h2 ! k" unfolding hb using kn by simp
  show "if states h ! k = new_state
        then outcome hb k = (rejected, None, st_exception (states h ! q))
        else states hb ! k = states h ! k"
    using kk k1 sk1 unfolding h2_def by (simp add: outcome_def new_state_def)
qed

text \<open>One round of the loop, on the input at position \<open>m\<close>.\<close>

lemma round_step:
  fixes h hb :: "('a, 'e) heap"
  assumes inv: "join_inv k c ps m R D [] h"
    and inputs: "\<forall>j < length ps. ps ! j < k" and m: "m < length ps"
    and RD: "R' = R \<or> R' = insert m R" "D' = D \<or> D' = insert m D" "m \<notin> R' \<or> m \<notin> D'"
    and len: "length (states hb) = Suc (Suc (length (states h)))"
    and clen: "c < length (contexts hb)"
    and below: "\<forall>q < length (states h). q \<noteq> k \<longrightarrow> q \<noteq> ps ! m \<longrightarrow> states hb ! q = states h ! q"
    and inp: "states hb ! (ps ! m)
                = (if is_pending h (ps ! m)
                   then (states h ! (ps ! m))\<lparr>st_handlers :=
                          st_handlers (states h ! (ps ! m)) @ [join_handler k c m]\<rparr>
                   else states h ! (ps ! m))"
    and res_len: "length (results (contexts hb ! c)) = length ps"
    and cnt: "counter (contexts hb ! c) = card R'"
    and resR: "\<forall>i \<in> R. results (contexts hb ! c) ! i = results (contexts h ! c) ! i"
    and newR: "m \<in> R' \<longrightarrow> st_status (states h ! (ps ! m)) = resolved
                 \<and> st_storage (states h ! (ps ! m)) = Some (results (contexts hb ! c) ! m)"
    and newD: "m \<in> D' \<longrightarrow> st_status (states h ! (ps ! m)) = rejected"
    and newW: "m \<notin> R' \<longrightarrow> m \<notin> D' \<longrightarrow>
                 (is_pending h (ps ! m)
                  \<and> states hb ! (Suc k + 2 * m)
                      = new_state\<lparr>st_handlers :=
                          [then_handler (Suc (Suc k + 2 * m)) fail_identity (forward_reject k)]\<rparr>
                  \<and> states hb ! Suc (Suc k + 2 * m) = new_state)
                 \<or> (st_status (states h ! (ps ! m)) = resolved
                    \<and> st_storage (states h ! (ps ! m)) = None)"
    and out: "if D' \<noteq> {}
          then st_status (states hb ! k) = rejected \<and> st_storage (states hb ! k) = None
               \<and> (\<exists>j \<in> D'. st_exception (states hb ! k) = st_exception (states h ! (ps ! j)))
          else if R' = {..< length ps}
          then outcome hb k = (resolved, Some (VVec (results (contexts hb ! c))), nullptr)
          else states hb ! k = new_state"
  shows "join_inv k c ps (Suc m) R' D' [] hb"
proof -
  note i = join_invD[OF inv]
  define p where "p = ps ! m"
  let ?hs = "st_handlers (states h ! p)"
  have L: "length (states h) = Suc k + 2 * m" by (fact i(5))
  have pk: "p < k" using inputs m by (simp add: p_def)
  have inj: "ps ! a < k" if "a < Suc m" for a using inputs that m by simp
  have old: "states hb ! q = states h ! q" if "q < k" "q \<noteq> p" for q
    using below that L by (simp add: p_def)
  have oc: "outcome hb q = outcome h q" if "q < k" for q
  proof (cases "q = p")
    case True
    then show ?thesis using inp by (simp add: outcome_def p_def)
  next
    case False
    then show ?thesis using old[OF that] by (simp add: outcome_def)
  qed
  have pd: "is_pending hb q = is_pending h q" if "q < k" for q
    using oc[OF that] that len L by (simp add: is_pending_def outcome_def)
  have hd: "st_handlers (states hb ! q)
              = st_handlers (states h ! q) @ (if q = p then [join_handler k c m] else [])"
    if "q < k" "is_pending h q" for q
  proof (cases "q = p")
    case True
    then show ?thesis using inp that(2) by (simp add: p_def)
  next
    case False
    then show ?thesis using old[OF that(1)] by simp
  qed
  have cls: "\<forall>y \<in> set (st_handlers (states h ! q)).
               (\<forall>r \<in> set (handler_refs y). old_ref k c r)
               \<or> (\<exists>j < m. y = join_handler k c j \<and> ps ! j = q)"
    if "q < k" "is_pending h q" for q
    using i(9) that by simp
  have no_m: "count_list (st_handlers (states h ! q)) (join_handler k c m) = 0"
    if "q < k" "is_pending h q" for q
  proof -
    have "join_handler k c m \<notin> set (st_handlers (states h ! q))"
    proof
      assume a: "join_handler k c m \<in> set (st_handlers (states h ! q))"
      from cls[OF that, rule_format, OF a] show False
        using join_handler_not_old(1)[of k c m] by (auto simp: handler_refs_def)
    qed
    then show ?thesis by (simp add: count_list_0_iff)
  qed
  have tk: "tok k c ps a [] hb = tok k c ps a [] h" if "a < m" for a
  proof (cases "is_pending h (ps ! a)")
    case True
    have ak: "ps ! a < k" using inj[of a] that by simp
    show ?thesis
      unfolding tok_def using True pd[OF ak] hd[OF ak True] that by simp
  next
    case False
    have ak: "ps ! a < k" using inj[of a] that by simp
    show ?thesis unfolding tok_def using False pd[OF ak] by simp
  qed
  have tm: "tok k c ps m [] hb = (if is_pending h p then 1 else 0)"
    unfolding tok_def using pd[OF pk] hd[OF pk] no_m[OF pk] by (simp add: p_def)
  have sin: "st_status (states hb ! (ps ! a)) = st_status (states h ! (ps ! a))"
    "st_storage (states hb ! (ps ! a)) = st_storage (states h ! (ps ! a))"
    "st_exception (states hb ! (ps ! a)) = st_exception (states h ! (ps ! a))"
    if "a < Suc m" for a
    using oc[OF inj[OF that]] by (simp_all add: outcome_def)
  have RDm: "R' \<subseteq> {..< Suc m}" "D' \<subseteq> {..< Suc m}" "R' \<inter> D' = {}"
    using RD i(2,3,4) by auto
  have mR: "m \<notin> R" "m \<notin> D" using i(2,3) by auto
  have priv: "states hb ! q = states h ! q" if "k < q" "q < length (states h)" for q
    using below that pk by (simp add: p_def)
  show ?thesis
  proof (rule join_invI)
    show "Suc m \<le> length ps" using m by simp
    show "R' \<subseteq> {..< Suc m}" "D' \<subseteq> {..< Suc m}" "R' \<inter> D' = {}" by (fact RDm)+
    show "length (states hb) = Suc k + 2 * Suc m" using len L by simp
    show "c < length (contexts hb)" by (fact clen)
    show "\<forall>y \<in> set ([] :: ('a, 'e) call list).
            (\<forall>r \<in> set (call_refs y). old_ref k c r) \<or> (\<exists>j < Suc m. is_entry k c j y)"
      by simp
    show "\<forall>q. call_clear q \<in> set ([] :: ('a, 'e) call list) \<longrightarrow> \<not> is_pending hb q" by simp
    show "\<forall>q < k. is_pending hb q \<longrightarrow>
            (\<forall>y \<in> set (st_handlers (states hb ! q)).
               (\<forall>r \<in> set (handler_refs y). old_ref k c r)
               \<or> (\<exists>j < Suc m. y = join_handler k c j \<and> ps ! j = q))"
    proof (intro allI impI ballI)
      fix q y assume q: "q < k" "is_pending hb q" and y: "y \<in> set (st_handlers (states hb ! q))"
      have qp: "is_pending h q" using pd q by simp
      from y consider "y \<in> set (st_handlers (states h ! q))" | "q = p" "y = join_handler k c m"
        unfolding hd[OF q(1) qp] by (auto split: if_splits)
      then show "(\<forall>r \<in> set (handler_refs y). old_ref k c r)
               \<or> (\<exists>j < Suc m. y = join_handler k c j \<and> ps ! j = q)"
      proof cases
        case 1
        from cls[OF q(1) qp, rule_format, OF 1] show ?thesis using less_Suc_eq by auto
      next
        case 2
        then show ?thesis by (auto simp: p_def)
      qed
    qed
    show "length (results (contexts hb ! c)) = length ps" by (fact res_len)
    show "counter (contexts hb ! c) = card R'" by (fact cnt)
    show "\<forall>a \<in> R'. st_status (states hb ! (ps ! a)) = resolved
                  \<and> st_storage (states hb ! (ps ! a)) = Some (results (contexts hb ! c) ! a)
                  \<and> tok k c ps a [] hb = 0"
    proof
      fix a assume a: "a \<in> R'"
      then have am: "a < Suc m" using RDm by auto
      show "st_status (states hb ! (ps ! a)) = resolved
                  \<and> st_storage (states hb ! (ps ! a)) = Some (results (contexts hb ! c) ! a)
                  \<and> tok k c ps a [] hb = 0"
      proof (cases "a = m")
        case True
        have "\<not> is_pending h p" using newR a True by (simp add: is_pending_def p_def)
        then show ?thesis using newR a True tm sin[OF am] by simp
      next
        case False
        then have aR: "a \<in> R" "a < m" using a RD(1) am by auto
        then show ?thesis using i(12) resR tk[OF aR(2)] sin[OF am] by simp
      qed
    qed
    show "\<forall>a \<in> D'. st_status (states hb ! (ps ! a)) = rejected \<and> tok k c ps a [] hb = 0"
    proof
      fix a assume a: "a \<in> D'"
      then have am: "a < Suc m" using RDm by auto
      show "st_status (states hb ! (ps ! a)) = rejected \<and> tok k c ps a [] hb = 0"
      proof (cases "a = m")
        case True
        have "\<not> is_pending h p" using newD a True by (simp add: is_pending_def p_def)
        then show ?thesis using newD a True tm sin[OF am] by simp
      next
        case False
        then have aD: "a \<in> D" "a < m" using a RD(2) am by auto
        then show ?thesis using i(13) tk[OF aD(2)] sin[OF am] by simp
      qed
    qed
    show "\<forall>a < Suc m. a \<notin> R' \<longrightarrow> a \<notin> D' \<longrightarrow>
            waiting k c ps a [] hb
            \<or> (st_status (states hb ! (ps ! a)) = resolved \<and> st_storage (states hb ! (ps ! a)) = None
               \<and> tok k c ps a [] hb = 0)"
    proof (intro allI impI)
      fix a assume a: "a < Suc m" "a \<notin> R'" "a \<notin> D'"
      show "waiting k c ps a [] hb
            \<or> (st_status (states hb ! (ps ! a)) = resolved \<and> st_storage (states hb ! (ps ! a)) = None
               \<and> tok k c ps a [] hb = 0)"
      proof (cases "a = m")
        case True
        from newW a True consider
          "is_pending h (ps ! m)
             \<and> states hb ! (Suc k + 2 * m)
                = new_state\<lparr>st_handlers :=
                     [then_handler (Suc (Suc k + 2 * m)) fail_identity (forward_reject k)]\<rparr>
             \<and> states hb ! Suc (Suc k + 2 * m) = new_state"
          | "st_status (states h ! (ps ! m)) = resolved \<and> st_storage (states h ! (ps ! m)) = None"
          by blast
        then show ?thesis
        proof cases
          case 1
          then have "waiting k c ps m [] hb" unfolding waiting_def using tm by (simp add: p_def)
          then show ?thesis using True by simp
        next
          case 2
          then have "\<not> is_pending h p" by (simp add: is_pending_def p_def)
          then show ?thesis using 2 tm sin[OF a(1)] True by simp
        qed
      next
        case False
        then have am: "a < m" "a \<notin> R" "a \<notin> D" using a RD by auto
        have n12: "states hb ! (Suc k + 2 * a) = states h ! (Suc k + 2 * a)"
          "states hb ! Suc (Suc k + 2 * a) = states h ! Suc (Suc k + 2 * a)"
          using am(1) L by (intro priv; simp)+
        from i(14) am consider "waiting k c ps a [] h"
          | "st_status (states h ! (ps ! a)) = resolved \<and> st_storage (states h ! (ps ! a)) = None
               \<and> tok k c ps a [] h = 0" by blast
        then show ?thesis
        proof cases
          case 1
          then have "waiting k c ps a [] hb"
            unfolding waiting_def using tk[OF am(1)] n12 by simp
          then show ?thesis by simp
        next
          case 2
          then show ?thesis using tk[OF am(1)] sin[OF a(1)] by simp
        qed
      qed
    qed
    have "st_exception (states hb ! (ps ! a)) = st_exception (states h ! (ps ! a))" if "a \<in> D'" for a
    proof -
      have "a < Suc m" using that RDm by auto
      from sin(3)[OF this] show ?thesis .
    qed
    then show "if D' \<noteq> {}
          then st_status (states hb ! k) = rejected \<and> st_storage (states hb ! k) = None
               \<and> (\<exists>j \<in> D'. st_exception (states hb ! k) = st_exception (states hb ! (ps ! j)))
          else if R' = {..< length ps}
          then outcome hb k = (resolved, Some (VVec (results (contexts hb ! c))), nullptr)
          else states hb ! k = new_state"
      using out by auto
  qed
qed

lemma round_join_inv:
  fixes h :: "('a, 'e) heap"
  assumes inv: "join_inv k c ps m R D [] h"
    and inputs: "\<forall>j < length ps. ps ! j < k" and m: "m < length ps"
  shows "\<exists>R' D'. join_inv k c ps (Suc m) R' D' []
           (snd (fail (length (states h)) (forward_reject k)
                   (snd (then1 (ps ! m) (all_resolve c k m) h))))"
proof -
  note i = join_invD[OF inv]
  define p where "p = ps ! m"
  define n where "n = length ps"
  let ?hb = "snd (fail (length (states h)) (forward_reject k) (snd (then1 p (all_resolve c k m) h)))"
  have L: "length (states h) = Suc k + 2 * m" by (fact i(5))
  have pk: "p < k" using inputs m by (simp add: p_def)
  have pl: "p < length (states h)" "k < length (states h)" "p \<noteq> k" using pk L by simp_all
  have mR: "m \<notin> R" "m \<notin> D" using i(2,3) by auto
  have Rn: "R \<subseteq> {..< n}" using i(2) m by (auto simp: n_def)
  have mn: "m < n" using m by (simp add: n_def)
  have Rne: "R \<noteq> {..< length ps}" using mR(1) m by auto
  have kfresh: "states h ! k = new_state" if "D = {}" using i(15) that Rne by simp
  have krej: "st_status (states h ! k) = rejected \<and> st_storage (states h ! k) = None
                \<and> (\<exists>j \<in> D. st_exception (states h ! k) = st_exception (states h ! (ps ! j)))"
    if "D \<noteq> {}" using i(15) that by simp
  have kst: "states h ! k = new_state \<or> st_status (states h ! k) \<noteq> pending"
    using kfresh krej by (cases "D = {}") simp_all
  have same_out: "if D \<noteq> {}
          then st_status (states hb ! k) = rejected \<and> st_storage (states hb ! k) = None
               \<and> (\<exists>j \<in> D. st_exception (states hb ! k) = st_exception (states h ! (ps ! j)))
          else if R = {..< length ps}
          then outcome hb k = (resolved, Some (VVec (results (contexts hb ! c))), nullptr)
          else states hb ! k = new_state"
    if "states hb ! k = states h ! k" for hb :: "('a, 'e) heap"
    using that kfresh krej Rne by (cases "D = {}") simp_all
  consider (pend) "is_pending h p"
    | (rej) "st_status (states h ! p) = rejected"
    | (res) v where "st_status (states h ! p) = resolved" "st_storage (states h ! p) = Some v"
    | (unset) "st_status (states h ! p) = resolved" "st_storage (states h ! p) = None"
    using pl(1) by (cases "st_status (states h ! p)"; cases "st_storage (states h ! p)")
      (auto simp: is_pending_def)
  then have "\<exists>R' D'. join_inv k c ps (Suc m) R' D' [] ?hb"
  proof cases
    case pend
    note r = round_pending[OF pend, of "all_resolve c k m" k, unfolded fst_then1]
    have jh: "then_handler (length (states h)) (all_resolve c k m) then_default
                = (join_handler k c m :: ('a, 'e) handler)"
      unfolding join_handler_def L ..
    have "join_inv k c ps (Suc m) R D [] ?hb"
    proof (rule round_step[OF inv inputs m])
      show "R = R \<or> R = insert m R" "D = D \<or> D = insert m D" "m \<notin> R \<or> m \<notin> D"
        using mR by simp_all
      show "length (states ?hb) = Suc (Suc (length (states h)))" unfolding r(1) by simp
      show "c < length (contexts ?hb)" unfolding r(3) by (fact i(6))
      show "\<forall>q < length (states h). q \<noteq> k \<longrightarrow> q \<noteq> ps ! m \<longrightarrow> states ?hb ! q = states h ! q"
        unfolding r(1) by (simp add: nth_append p_def)
      show "states ?hb ! (ps ! m)
                = (if is_pending h (ps ! m)
                   then (states h ! (ps ! m))\<lparr>st_handlers :=
                          st_handlers (states h ! (ps ! m)) @ [join_handler k c m]\<rparr>
                   else states h ! (ps ! m))"
        unfolding r(1) jh using pend pl(1) by (simp add: nth_append p_def)
      show "length (results (contexts ?hb ! c)) = length ps" unfolding r(3) by (fact i(10))
      show "counter (contexts ?hb ! c) = card R" unfolding r(3) by (fact i(11))
      show "\<forall>i \<in> R. results (contexts ?hb ! c) ! i = results (contexts h ! c) ! i"
        unfolding r(3) by simp
      show "m \<in> R \<longrightarrow> st_status (states h ! (ps ! m)) = resolved
                 \<and> st_storage (states h ! (ps ! m)) = Some (results (contexts ?hb ! c) ! m)"
        using mR by simp
      show "m \<in> D \<longrightarrow> st_status (states h ! (ps ! m)) = rejected" using mR by simp
      show "m \<notin> R \<longrightarrow> m \<notin> D \<longrightarrow>
                 (is_pending h (ps ! m)
                  \<and> states ?hb ! (Suc k + 2 * m)
                      = new_state\<lparr>st_handlers :=
                          [then_handler (Suc (Suc k + 2 * m)) fail_identity (forward_reject k)]\<rparr>
                  \<and> states ?hb ! Suc (Suc k + 2 * m) = new_state)
                 \<or> (st_status (states h ! (ps ! m)) = resolved
                    \<and> st_storage (states h ! (ps ! m)) = None)"
        unfolding r(1) using pend L[symmetric] by (simp add: nth_append p_def)
      have "states ?hb ! k = states h ! k"
        unfolding r(1) using pl by (simp add: nth_append)
      from same_out[OF this] show "if D \<noteq> {}
          then st_status (states ?hb ! k) = rejected \<and> st_storage (states ?hb ! k) = None
               \<and> (\<exists>j \<in> D. st_exception (states ?hb ! k) = st_exception (states h ! (ps ! j)))
          else if R = {..< length ps}
          then outcome ?hb k = (resolved, Some (VVec (results (contexts ?hb ! c))), nullptr)
          else states ?hb ! k = new_state" .
    qed
    then show ?thesis by blast
  next
    case rej
    note r = round_on_rejected_any[OF pl(1) rej pl(2) kst, where f = "all_resolve c k m"]
    have "join_inv k c ps (Suc m) R (insert m D) [] ?hb"
    proof (rule round_step[OF inv inputs m])
      show "R = R \<or> R = insert m R" "insert m D = D \<or> insert m D = insert m D"
        "m \<notin> R \<or> m \<notin> insert m D"
        using mR by simp_all
      show "length (states ?hb) = Suc (Suc (length (states h)))" by (fact r(1))
      show "c < length (contexts ?hb)" unfolding r(2) by (fact i(6))
      show "\<forall>q < length (states h). q \<noteq> k \<longrightarrow> q \<noteq> ps ! m \<longrightarrow> states ?hb ! q = states h ! q"
        using r(3) by simp
      show "states ?hb ! (ps ! m)
                = (if is_pending h (ps ! m)
                   then (states h ! (ps ! m))\<lparr>st_handlers :=
                          st_handlers (states h ! (ps ! m)) @ [join_handler k c m]\<rparr>
                   else states h ! (ps ! m))"
        using r(3)[OF pl(1,3)] rej by (simp add: is_pending_def p_def)
      show "length (results (contexts ?hb ! c)) = length ps" unfolding r(2) by (fact i(10))
      show "counter (contexts ?hb ! c) = card R" unfolding r(2) by (fact i(11))
      show "\<forall>i \<in> R. results (contexts ?hb ! c) ! i = results (contexts h ! c) ! i"
        unfolding r(2) by simp
      show "m \<in> R \<longrightarrow> st_status (states h ! (ps ! m)) = resolved
                 \<and> st_storage (states h ! (ps ! m)) = Some (results (contexts ?hb ! c) ! m)"
        using mR by simp
      show "m \<in> insert m D \<longrightarrow> st_status (states h ! (ps ! m)) = rejected"
        using rej by (simp add: p_def)
      show "m \<notin> R \<longrightarrow> m \<notin> insert m D \<longrightarrow>
                 (is_pending h (ps ! m)
                  \<and> states ?hb ! (Suc k + 2 * m)
                      = new_state\<lparr>st_handlers :=
                          [then_handler (Suc (Suc k + 2 * m)) fail_identity (forward_reject k)]\<rparr>
                  \<and> states ?hb ! Suc (Suc k + 2 * m) = new_state)
                 \<or> (st_status (states h ! (ps ! m)) = resolved
                    \<and> st_storage (states h ! (ps ! m)) = None)"
        by simp
      show "if insert m D \<noteq> {}
          then st_status (states ?hb ! k) = rejected \<and> st_storage (states ?hb ! k) = None
               \<and> (\<exists>j \<in> insert m D. st_exception (states ?hb ! k) = st_exception (states h ! (ps ! j)))
          else if R = {..< length ps}
          then outcome ?hb k = (resolved, Some (VVec (results (contexts ?hb ! c))), nullptr)
          else states ?hb ! k = new_state"
      proof (cases "states h ! k = new_state")
        case True
        then have "outcome ?hb k = (rejected, None, st_exception (states h ! p))"
          using r(4) by simp
        then show ?thesis by (simp add: outcome_def p_def)
      next
        case False
        then have same: "states ?hb ! k = states h ! k" using r(4) by simp
        have "D \<noteq> {}" using kfresh False by blast
        from krej[OF this] show ?thesis unfolding same by auto
      qed
    qed
    then show ?thesis by blast
  next
    case res
    let ?filled = "Suc (counter (contexts h ! c)) = length (results (contexts h ! c))"
    have filled: "?filled = (insert m R = {..< n})"
      using filled_iff(1)[OF Rn mn mR(1)] i(10,11) by (simp add: n_def)
    have noD: "D = {}" if "insert m R = {..< n}"
    proof -
      have "D \<subseteq> {..< n}" using i(3) m by (auto simp: n_def)
      then show ?thesis using that i(4) mR(2) by auto
    qed
    have kf: "?filled \<Longrightarrow> states h ! k = new_state" using filled noD kfresh by simp
    note r0 = round_all_on_resolved[OF pl(1) res i(6) pl(2), where i = m]
    have r: "length (states ?hb) = Suc (Suc (length (states h)))"
      "contexts ?hb = (contexts h)[c := (contexts h ! c)\<lparr>results := (results (contexts h ! c))[m := v],
                                   counter := Suc (counter (contexts h ! c))\<rparr>]"
      "\<And>q. q < length (states h) \<Longrightarrow> q \<noteq> k \<Longrightarrow> states ?hb ! q = states h ! q"
      "if ?filled
       then outcome ?hb k = (resolved, Some (VVec ((results (contexts h ! c))[m := v])), nullptr)
       else states ?hb ! k = states h ! k"
    proof -
      show "length (states ?hb) = Suc (Suc (length (states h)))" by (rule r0(1)) (rule kf)
      show "contexts ?hb = (contexts h)[c := (contexts h ! c)\<lparr>results := (results (contexts h ! c))[m := v],
                                   counter := Suc (counter (contexts h ! c))\<rparr>]"
        by (rule r0(2)) (rule kf)
      show "states ?hb ! q = states h ! q" if "q < length (states h)" "q \<noteq> k" for q
        using that by (intro r0(3) kf)
      have "if ?filled
       then outcome ?hb k = (resolved, Some (VVec (results ((contexts h ! c)\<lparr>results := (results (contexts h ! c))[m := v],
                                   counter := Suc (counter (contexts h ! c))\<rparr>))), nullptr)
       else states ?hb ! k = states h ! k"
        by (rule r0(4)) (rule kf)
      then show "if ?filled
       then outcome ?hb k = (resolved, Some (VVec ((results (contexts h ! c))[m := v])), nullptr)
       else states ?hb ! k = states h ! k" by simp
    qed
    have rs: "results (contexts ?hb ! c) = (results (contexts h ! c))[m := v]"
      "counter (contexts ?hb ! c) = Suc (card R)"
      using r(2) i(6,11) by simp_all
    have "join_inv k c ps (Suc m) (insert m R) D [] ?hb"
    proof (rule round_step[OF inv inputs m])
      show "insert m R = R \<or> insert m R = insert m R" "D = D \<or> D = insert m D"
        "m \<notin> insert m R \<or> m \<notin> D"
        using mR by simp_all
      show "length (states ?hb) = Suc (Suc (length (states h)))" by (fact r(1))
      show "c < length (contexts ?hb)" using r(2) i(6) by simp
      show "\<forall>q < length (states h). q \<noteq> k \<longrightarrow> q \<noteq> ps ! m \<longrightarrow> states ?hb ! q = states h ! q"
        using r(3) by simp
      show "states ?hb ! (ps ! m)
                = (if is_pending h (ps ! m)
                   then (states h ! (ps ! m))\<lparr>st_handlers :=
                          st_handlers (states h ! (ps ! m)) @ [join_handler k c m]\<rparr>
                   else states h ! (ps ! m))"
        using r(3)[OF pl(1,3)] res by (simp add: is_pending_def p_def)
      show "length (results (contexts ?hb ! c)) = length ps" unfolding rs using i(10) by simp
      show "counter (contexts ?hb ! c) = card (insert m R)"
        unfolding rs using filled_iff(2)[OF Rn mn mR(1)] by simp
      show "\<forall>a \<in> R. results (contexts ?hb ! c) ! a = results (contexts h ! c) ! a"
      proof
        fix a assume "a \<in> R"
        then have "a \<noteq> m" using mR(1) by auto
        then show "results (contexts ?hb ! c) ! a = results (contexts h ! c) ! a"
          unfolding rs by simp
      qed
      show "m \<in> insert m R \<longrightarrow> st_status (states h ! (ps ! m)) = resolved
                 \<and> st_storage (states h ! (ps ! m)) = Some (results (contexts ?hb ! c) ! m)"
        unfolding rs using res i(10) m by (simp add: p_def)
      show "m \<in> D \<longrightarrow> st_status (states h ! (ps ! m)) = rejected" using mR by simp
      show "m \<notin> insert m R \<longrightarrow> m \<notin> D \<longrightarrow>
                 (is_pending h (ps ! m)
                  \<and> states ?hb ! (Suc k + 2 * m)
                      = new_state\<lparr>st_handlers :=
                          [then_handler (Suc (Suc k + 2 * m)) fail_identity (forward_reject k)]\<rparr>
                  \<and> states ?hb ! Suc (Suc k + 2 * m) = new_state)
                 \<or> (st_status (states h ! (ps ! m)) = resolved
                    \<and> st_storage (states h ! (ps ! m)) = None)"
        by simp
      show "if D \<noteq> {}
          then st_status (states ?hb ! k) = rejected \<and> st_storage (states ?hb ! k) = None
               \<and> (\<exists>j \<in> D. st_exception (states ?hb ! k) = st_exception (states h ! (ps ! j)))
          else if insert m R = {..< length ps}
          then outcome ?hb k = (resolved, Some (VVec (results (contexts ?hb ! c))), nullptr)
          else states ?hb ! k = new_state"
      proof (cases "D = {}")
        case True
        show ?thesis
        proof (cases "insert m R = {..< n}")
          case f: True
          then show ?thesis using True r(4) filled rs by (simp add: n_def)
        next
          case f: False
          then have "states ?hb ! k = states h ! k" using r(4) filled by simp
          then show ?thesis using True f kfresh by (simp add: n_def)
        qed
      next
        case False
        then have "\<not> ?filled" using filled noD by blast
        then have "states ?hb ! k = states h ! k" using r(4) by simp
        then show ?thesis using False krej by simp
      qed
    qed
    then show ?thesis by blast
  next
    case unset
    note r = round_on_unset[OF pl(1) unset, where f = "all_resolve c k m" and k = k]
    have "join_inv k c ps (Suc m) R D [] ?hb"
    proof (rule round_step[OF inv inputs m])
      show "R = R \<or> R = insert m R" "D = D \<or> D = insert m D" "m \<notin> R \<or> m \<notin> D"
        using mR by simp_all
      show "length (states ?hb) = Suc (Suc (length (states h)))" by (fact r(1))
      show "c < length (contexts ?hb)" unfolding r(2) by (fact i(6))
      show "\<forall>q < length (states h). q \<noteq> k \<longrightarrow> q \<noteq> ps ! m \<longrightarrow> states ?hb ! q = states h ! q"
        using r(3) by simp
      show "states ?hb ! (ps ! m)
                = (if is_pending h (ps ! m)
                   then (states h ! (ps ! m))\<lparr>st_handlers :=
                          st_handlers (states h ! (ps ! m)) @ [join_handler k c m]\<rparr>
                   else states h ! (ps ! m))"
        using r(3)[OF pl(1)] unset by (simp add: is_pending_def p_def)
      show "length (results (contexts ?hb ! c)) = length ps" unfolding r(2) by (fact i(10))
      show "counter (contexts ?hb ! c) = card R" unfolding r(2) by (fact i(11))
      show "\<forall>i \<in> R. results (contexts ?hb ! c) ! i = results (contexts h ! c) ! i"
        unfolding r(2) by simp
      show "m \<in> R \<longrightarrow> st_status (states h ! (ps ! m)) = resolved
                 \<and> st_storage (states h ! (ps ! m)) = Some (results (contexts ?hb ! c) ! m)"
        using mR by simp
      show "m \<in> D \<longrightarrow> st_status (states h ! (ps ! m)) = rejected" using mR by simp
      show "m \<notin> R \<longrightarrow> m \<notin> D \<longrightarrow>
                 (is_pending h (ps ! m)
                  \<and> states ?hb ! (Suc k + 2 * m)
                      = new_state\<lparr>st_handlers :=
                          [then_handler (Suc (Suc k + 2 * m)) fail_identity (forward_reject k)]\<rparr>
                  \<and> states ?hb ! Suc (Suc k + 2 * m) = new_state)
                 \<or> (st_status (states h ! (ps ! m)) = resolved
                    \<and> st_storage (states h ! (ps ! m)) = None)"
        using unset by (simp add: p_def)
      from same_out[OF r(3)[OF pl(2)]] show "if D \<noteq> {}
          then st_status (states ?hb ! k) = rejected \<and> st_storage (states ?hb ! k) = None
               \<and> (\<exists>j \<in> D. st_exception (states ?hb ! k) = st_exception (states h ! (ps ! j)))
          else if R = {..< length ps}
          then outcome ?hb k = (resolved, Some (VVec (results (contexts ?hb ! c))), nullptr)
          else states ?hb ! k = new_state" .
    qed
    then show ?thesis by blast
  qed
  then show ?thesis unfolding p_def .
qed

lemma resolve_as_run:
  "snd (resolve p v h) = run [call_resolve p v] h"
  "snd (reject p e h) = run [call_reject p e] h"
  by (simp_all add: resolve_def reject_def split_beta)

lemma rounds_join_inv:
  fixes h :: "('a, 'e) heap"
  assumes inputs: "\<forall>j < length ps. ps ! j < k"
  shows "join_inv k c ps m R D [] h \<Longrightarrow> qs = drop m ps \<Longrightarrow>
         \<exists>R' D'. join_inv k c ps (length ps) R' D' [] (rounds (\<lambda>i. all_resolve c k i) k m qs h)"
proof (induction qs arbitrary: m R D h)
  case Nil
  have "m \<le> length ps" using join_invD(1)[OF Nil(1)] .
  then have "m = length ps" using Nil(2) by simp
  then show ?case using Nil(1) by auto
next
  case (Cons q qs)
  have m: "m < length ps" using Cons.prems(2) by (cases "m < length ps") simp_all
  have "q # qs = ps ! m # drop (Suc m) ps"
    using Cons.prems(2) Cons_nth_drop_Suc[OF m] by simp
  then have q: "q = ps ! m" "qs = drop (Suc m) ps" by simp_all
  let ?hb = "snd (fail (length (states h)) (forward_reject k)
                    (snd (then1 (ps ! m) (all_resolve c k m) h)))"
  obtain R1 D1 where r: "join_inv k c ps (Suc m) R1 D1 [] ?hb"
    using round_join_inv[OF Cons.prems(1) inputs m] by blast
  show ?case using Cons.IH[OF r q(2)] unfolding q(1) by simp
qed

lemma join_inv_initial:
  fixes h :: "('a, 'e) heap"
  assumes wf: "wf_heap h" and ne: "ps \<noteq> []"
  shows "join_inv (length (states h)) (length (contexts h)) ps 0 {} {} []
           (h\<lparr>states := states h @ [new_state],
              contexts := contexts h @ [\<lparr>results = replicate (length ps) dflt, counter = 0\<rparr>]\<rparr>)"
proof (rule join_invI)
  let ?k = "length (states h)" and ?c = "length (contexts h)"
  let ?h1 = "h\<lparr>states := states h @ [new_state],
              contexts := contexts h @ [\<lparr>results = replicate (length ps) dflt, counter = 0\<rparr>]\<rparr>"
  show "\<forall>q < ?k. is_pending ?h1 q \<longrightarrow>
            (\<forall>x \<in> set (st_handlers (states ?h1 ! q)).
               (\<forall>r \<in> set (handler_refs x). old_ref ?k ?c r)
               \<or> (\<exists>j < 0. x = join_handler ?k ?c j \<and> ps ! j = q))"
  proof (intro allI impI ballI)
    fix q x assume q: "q < ?k" "is_pending ?h1 q" and x: "x \<in> set (st_handlers (states ?h1 ! q))"
    have "st_status (states h ! q) = pending" "x \<in> set (st_handlers (states h ! q))"
      using q x by (simp_all add: is_pending_def nth_append)
    then have "\<forall>r \<in> set (handler_refs x). ref_ok h r"
      using wf q(1) unfolding wf_heap_def by blast
    then have "\<forall>r \<in> set (handler_refs x). old_ref ?k ?c r"
      by (simp add: ref_ok_def old_ref_def)
    then show "(\<forall>r \<in> set (handler_refs x). old_ref ?k ?c r)
               \<or> (\<exists>j < 0. x = join_handler ?k ?c j \<and> ps ! j = q)" by simp
  qed
  have "({} :: nat set) \<noteq> {..< length ps}" using ne by auto
  then show "if ({} :: nat set) \<noteq> {}
          then st_status (states ?h1 ! ?k) = rejected \<and> st_storage (states ?h1 ! ?k) = None
               \<and> (\<exists>j \<in> {}. st_exception (states ?h1 ! ?k) = st_exception (states ?h1 ! (ps ! j)))
          else if {} = {..< length ps}
          then outcome ?h1 ?k = (resolved, Some (VVec (results (contexts ?h1 ! ?c))), nullptr)
          else states ?h1 ! ?k = new_state"
    by simp
qed simp_all

lemma make_all_join_inv:
  fixes h :: "('a, 'e) heap"
  assumes wf: "wf_heap h" and ne: "ps \<noteq> []"
    and inputs: "\<forall>j < length ps. ps ! j < length (states h)"
  shows "fst (make_all_promise dflt ps h) = length (states h)"
    and "\<exists>R D. join_inv (length (states h)) (length (contexts h)) ps (length ps) R D []
                  (snd (make_all_promise dflt ps h))"
proof -
  let ?k = "length (states h)" and ?c = "length (contexts h)"
  let ?h1 = "h\<lparr>states := states h @ [new_state],
              contexts := contexts h @ [\<lparr>results = replicate (length ps) dflt, counter = 0\<rparr>]\<rparr>"
  have mk: "make_all_promise dflt ps h = (?k, rounds (\<lambda>i. all_resolve ?c ?k i) ?k 0 ps ?h1)"
    using ne
    by (simp add: make_all_promise_def make_promise_def new_promise_def new_context_def
        make_all_loop_rounds)
  show "fst (make_all_promise dflt ps h) = length (states h)" unfolding mk by simp
  show "\<exists>R D. join_inv ?k ?c ps (length ps) R D [] (snd (make_all_promise dflt ps h))"
    unfolding mk snd_conv
    by (rule rounds_join_inv[OF inputs join_inv_initial[OF wf ne]]) simp
qed

lemma settle_calls_join_inv:
  fixes h :: "('a, 'e) heap"
  assumes inputs: "\<forall>j < length ps. ps ! j < k"
  shows "join_inv k c ps m R D [] h \<Longrightarrow> \<forall>op \<in> set ops. fst op < k \<Longrightarrow>
         \<exists>R' D'. join_inv k c ps m R' D' [] (settle_calls ops h)"
proof (induction ops arbitrary: R D h)
  case Nil
  then show ?case by auto
next
  case (Cons op ops)
  obtain p a where op: "op = (p, a)" by (cases op)
  have pk: "p < k" using Cons.prems(2) op by simp
  have start: "join_inv k c ps m R D [x] h"
    if "\<forall>r \<in> set (call_refs x). old_ref k c r" "\<forall>q. x \<noteq> call_clear q" for x :: "('a, 'e) call"
  proof (rule join_inv_transfer[OF Cons.prems(1) inputs])
    show "c < length (contexts h)" using join_invD(6)[OF Cons.prems(1)] .
    show "\<forall>j < m. length (filter (is_entry k c j) [x]) = length (filter (is_entry k c j) [])"
      using old_not_entry[OF that(1)] by simp
  qed (use that in auto)
  show ?case
  proof (cases a)
    case (do_resolve v)
    have "join_inv k c ps m R D [call_resolve p v] h"
      using pk by (intro start) (simp_all add: old_ref_def)
    from run_join_inv[OF inputs this] obtain R1 D1
      where "join_inv k c ps m R1 D1 [] (snd (resolve p v h))"
      unfolding resolve_as_run by blast
    from Cons.IH[OF this] Cons.prems(2) show ?thesis unfolding op do_resolve by simp
  next
    case (do_reject e)
    have "join_inv k c ps m R D [call_reject p e] h"
      using pk by (intro start) (simp_all add: old_ref_def)
    from run_join_inv[OF inputs this] obtain R1 D1
      where "join_inv k c ps m R1 D1 [] (snd (reject p e h))"
      unfolding resolve_as_run by blast
    from Cons.IH[OF this] Cons.prems(2) show ?thesis unfolding op do_reject by simp
  qed
qed

text \<open>What the state of the join says of the output when no call is on the stack.\<close>

lemma join_inv_final:
  fixes h :: "('a, 'e) heap"
  assumes inv: "join_inv k c ps (length ps) R D [] h"
  shows "length vs = length ps \<Longrightarrow>
         \<forall>j < length ps. st_status (states h ! (ps ! j)) = resolved
                          \<and> st_storage (states h ! (ps ! j)) = Some (vs ! j) \<Longrightarrow>
         outcome h k = (resolved, Some (VVec vs), nullptr)"
    and "\<exists>j < length ps. st_status (states h ! (ps ! j)) = rejected \<Longrightarrow>
         st_status (states h ! k) = rejected \<and> st_storage (states h ! k) = None
         \<and> (\<exists>j < length ps. st_status (states h ! (ps ! j)) = rejected
               \<and> st_exception (states h ! k) = st_exception (states h ! (ps ! j)))"
    and "\<forall>j < length ps. st_status (states h ! (ps ! j)) \<noteq> rejected \<Longrightarrow>
         \<exists>j < length ps. is_pending h (ps ! j) \<Longrightarrow> is_pending h k"
proof -
  note i = join_invD[OF inv]
  have wait: "is_pending h (ps ! j)" if "waiting k c ps j [] h" for j
  proof (rule ccontr)
    assume "\<not> is_pending h (ps ! j)"
    then have "tok k c ps j [] h = 0" by (simp add: tok_def)
    then show False using that by (simp add: waiting_def)
  qed
  have phase: "(j \<in> R \<and> st_status (states h ! (ps ! j)) = resolved
                  \<and> st_storage (states h ! (ps ! j)) = Some (results (contexts h ! c) ! j))
             \<or> (j \<in> D \<and> st_status (states h ! (ps ! j)) = rejected)
             \<or> (j \<notin> R \<and> j \<notin> D \<and> is_pending h (ps ! j))
             \<or> (j \<notin> R \<and> j \<notin> D \<and> st_status (states h ! (ps ! j)) = resolved
                  \<and> st_storage (states h ! (ps ! j)) = None)"
    if "j < length ps" for j
    using i(12,13,14) that wait[of j] by blast
  have inR: "j \<in> R" if "j < length ps" "st_status (states h ! (ps ! j)) = resolved"
    "st_storage (states h ! (ps ! j)) = Some w" for j w
    using phase[OF that(1)] that(2,3) by (auto simp: is_pending_def)
  have inD: "j \<in> D" if "j < length ps" "st_status (states h ! (ps ! j)) = rejected" for j
    using phase[OF that(1)] that(2) by (auto simp: is_pending_def)
  have kl: "k < length (states h)" using i(5) by simp
  {
    assume len: "length vs = length ps"
      and res: "\<forall>j < length ps. st_status (states h ! (ps ! j)) = resolved
                          \<and> st_storage (states h ! (ps ! j)) = Some (vs ! j)"
    have R: "R = {..< length ps}" using inR res i(2) by auto
    then have D: "D = {}" using i(3,4) by auto
    have "results (contexts h ! c) = vs"
    proof (rule nth_equalityI)
      show "length (results (contexts h ! c)) = length vs" using i(10) len by simp
      fix j assume "j < length (results (contexts h ! c))"
      then have j: "j < length ps" using i(10) by simp
      then have "j \<in> R" using R by simp
      then show "results (contexts h ! c) ! j = vs ! j" using i(12) res j by auto
    qed
    then show "outcome h k = (resolved, Some (VVec vs), nullptr)" using i(15) R D by simp
  }
  {
    assume "\<exists>j < length ps. st_status (states h ! (ps ! j)) = rejected"
    then have D: "D \<noteq> {}" using inD by auto
    then obtain j where j: "j \<in> D" "st_exception (states h ! k) = st_exception (states h ! (ps ! j))"
      and k: "st_status (states h ! k) = rejected" "st_storage (states h ! k) = None"
      using i(15) by auto
    have "j < length ps" "st_status (states h ! (ps ! j)) = rejected" using j(1) i(3,13) by auto
    then show "st_status (states h ! k) = rejected \<and> st_storage (states h ! k) = None
         \<and> (\<exists>j < length ps. st_status (states h ! (ps ! j)) = rejected
               \<and> st_exception (states h ! k) = st_exception (states h ! (ps ! j)))"
      using j(2) k by blast
  }
  {
    assume nr: "\<forall>j < length ps. st_status (states h ! (ps ! j)) \<noteq> rejected"
      and p: "\<exists>j < length ps. is_pending h (ps ! j)"
    have D: "D = {}" using nr i(3,13) by auto
    obtain j where j: "j < length ps" "is_pending h (ps ! j)" using p by blast
    then have "j \<notin> R" using i(12) by (auto simp: is_pending_def)
    then have "R \<noteq> {..< length ps}" using j(1) by auto
    then have "states h ! k = new_state" using i(15) D by simp
    then show "is_pending h k" using kl by (simp add: is_pending_def new_state_def)
  }
qed

text \<open>\<open>make_all_promise\<close> on any inputs of a well-formed store, followed by any calls of
  \<open>resolve\<close> and \<open>reject\<close> on promises of that store.\<close>

lemma make_all_general:
  fixes h :: "('a, 'e) heap"
  assumes wf: "wf_heap h" and ne: "ps \<noteq> []" and inp: "\<forall>p \<in> set ps. p < length (states h)"
    and ops: "\<forall>op \<in> set ops. fst op < length (states h)"
    and hs: "hs = settle_calls ops (snd (make_all_promise dflt ps h))"
  shows "fst (make_all_promise dflt ps h) = length (states h)
          \<and> (length ws = length ps
               \<and> (\<forall>j < length ps. st_status (states hs ! (ps ! j)) = resolved
                      \<and> st_storage (states hs ! (ps ! j)) = Some (ws ! j)) \<longrightarrow>
                outcome hs (length (states h)) = (resolved, Some (VVec ws), nullptr))
          \<and> ((\<exists>j < length ps. st_status (states hs ! (ps ! j)) = rejected) \<longrightarrow>
                st_status (states hs ! length (states h)) = rejected
                \<and> st_storage (states hs ! length (states h)) = None
                \<and> (\<exists>j < length ps. st_status (states hs ! (ps ! j)) = rejected
                      \<and> st_exception (states hs ! length (states h))
                          = st_exception (states hs ! (ps ! j))))
          \<and> ((\<forall>j < length ps. st_status (states hs ! (ps ! j)) \<noteq> rejected)
               \<and> (\<exists>j < length ps. is_pending hs (ps ! j)) \<longrightarrow>
                is_pending hs (length (states h)))"
proof -
  have inputs: "\<forall>j < length ps. ps ! j < length (states h)" using inp by simp
  note m = make_all_join_inv[OF wf ne inputs, of dflt]
  obtain R D where "join_inv (length (states h)) (length (contexts h)) ps (length ps) R D []
                      (snd (make_all_promise dflt ps h))"
    using m(2) by blast
  from settle_calls_join_inv[OF inputs this ops] obtain R' D'
    where inv: "join_inv (length (states h)) (length (contexts h)) ps (length ps) R' D' [] hs"
    unfolding hs by blast
  note f = join_inv_final[OF inv]
  show ?thesis using m(1) f(1)[of ws] f(2) f(3) by blast
qed

lemma map_take_nth:
  assumes "map f (take n xs) = ys" "j < length ys"
  shows "f (xs ! j) = ys ! j"
proof -
  have l: "j < length (take n xs)" using assms by (metis length_map)
  then have "f (take n xs ! j) = ys ! j" using assms(1) by (metis nth_map)
  then show ?thesis using l by simp
qed

section \<open>The claims\<close>

subsection \<open>C1: settlement happens at most once\<close>

text \<open>
  C1. A freshly created placeholder is pending (and holds neither value nor error nor handler).
  On a pending placeholder the first \<open>resolve\<close> (or \<open>reject\<close>), through any copy of the handle,
  returns true and settles the state with the given value (error). On a placeholder that is not
  pending every \<open>resolve\<close> and \<open>reject\<close> returns false and leaves the whole store unchanged, and
  nothing that runs afterwards changes the stored status, value and error of a settled state.
\<close>

theorem settle_once:
  "(is_pending (snd (new_promise h0)) (fst (new_promise h0))
      \<and> states (snd (new_promise h0)) ! fst (new_promise h0) = new_state)
   \<and> (is_pending h p \<longrightarrow>
        fst (resolve p v h)
        \<and> outcome (snd (resolve p v h)) p = (resolved, Some v, st_exception (states h ! p))
        \<and> fst (reject p e h)
        \<and> outcome (snd (reject p e h)) p = (rejected, st_storage (states h ! p), e))
   \<and> (\<not> is_pending h p \<longrightarrow> resolve p v h = (False, h) \<and> reject p e h = (False, h))
   \<and> (p < length (states h) \<and> \<not> is_pending h p \<longrightarrow> outcome (run cs h) p = outcome h p)"
proof -
  have "outcome (run cs h) p = outcome h p" if "p < length (states h)" "\<not> is_pending h p"
    using that by (intro run_settled) (simp_all add: is_pending_def)
  then show ?thesis
    using new_promise_fresh[of h0] resolve_outcome[of h p v] reject_outcome[of h p e]
    by (simp add: resolve_pending reject_pending resolve_settled reject_settled del: run.simps)
qed

theorem settle_once_witness:
  "is_pending one_promise 0
   \<and> resolve 0 (VAtom 7) one_promise = (True, snd (resolve 0 (VAtom 7) one_promise))
   \<and> outcome (snd (resolve 0 (VAtom 7) one_promise)) 0 = (resolved, Some (VAtom 7), nullptr)
   \<and> \<not> is_pending (snd (resolve 0 (VAtom 7) one_promise)) 0
   \<and> resolve 0 (VAtom 8) (snd (resolve 0 (VAtom 7) one_promise))
       = (False, snd (resolve 0 (VAtom 7) one_promise))
   \<and> reject 0 (thrown ''late'') (snd (resolve 0 (VAtom 7) one_promise))
       = (False, snd (resolve 0 (VAtom 7) one_promise))"
proof -
  have p: "is_pending one_promise 0"
    by (simp add: one_promise_def new_promise_def empty_heap_def is_pending_def new_state_def)
  have e: "st_exception (states one_promise ! 0) = nullptr"
    by (simp add: one_promise_def new_promise_def empty_heap_def new_state_def)
  let ?h = "snd (resolve 0 (VAtom 7) one_promise)"
  note first = settle_once[of "empty_heap :: (int, string) heap" one_promise 0 "VAtom 7" "thrown ''late''" "[]"]
  have r: "fst (resolve 0 (VAtom 7) one_promise)"
    and o: "outcome ?h 0 = (resolved, Some (VAtom 7), nullptr)"
    using first p e by simp_all
  have s: "\<not> is_pending ?h 0"
    using o by (simp add: is_pending_def outcome_def)
  note later = settle_once[of "empty_heap :: (int, string) heap" ?h 0 "VAtom 8" "thrown ''late''" "[]"]
  have l: "resolve 0 (VAtom 8) ?h = (False, ?h)" "reject 0 (thrown ''late'') ?h = (False, ?h)"
    using later s by simp_all
  show ?thesis
    using p r o s l by (simp add: prod_eq_iff)
qed

subsection \<open>C3: \<open>then\<close> maps the value and passes a rejection through\<close>



subsection \<open>C4: a callback that raises rejects the next placeholder\<close>

text \<open>
  C4. Let \<open>n\<close> be the placeholder returned by \<open>p.then(f)\<close> and let \<open>f v\<close> raise \<open>c\<close>. If \<open>p\<close>
  resolves with \<open>v\<close> after the call of \<open>then\<close>, the call of \<open>resolve\<close> returns (true, with a store)
  and \<open>n\<close> is rejected with \<open>c\<close>; if \<open>p\<close> is already resolved with \<open>v\<close>, the call of \<open>then\<close>
  returns and \<open>n\<close> is rejected with \<open>c\<close>. The raise is the value \<open>Inl c\<close> of \<open>f\<close>; it is taken
  by the catch branch of \<open>resolve_h\<close> (\<open>invoke_resolve_h\<close>) and neither \<open>resolve\<close> nor
  \<open>then1\<close> has an exceptional result.
\<close>

theorem then_raise_rejects:
  fixes h :: "('a, 'e) heap"
  assumes "wf_heap h" and "p < length (states h)" and "then1 p (user_resolve f) h = (n, h1)"
    and "f v = Inl c"
  shows "(is_pending h p \<longrightarrow>
            resolve p v h1 = (True, snd (resolve p v h1))
            \<and> outcome (snd (resolve p v h1)) n = (rejected, None, c))
       \<and> (st_status (states h ! p) = resolved \<and> st_storage (states h ! p) = Some v \<longrightarrow>
            outcome h1 n = (rejected, None, c))"
proof -
  have t: "then2 p (user_resolve f) then_default h = (n, h1)"
    using assms(3) by (simp add: then1_def)
  note tr = then2_transfer[OF assms(1,2) t]
  show ?thesis
  proof (intro conjI impI; (elim conjE)?)
    assume "is_pending h p"
    from tr(1)[OF this fired_resolve_raises_default[where fu = f, OF _ assms(4)]]
    show "resolve p v h1 = (True, snd (resolve p v h1))"
      "outcome (snd (resolve p v h1)) n = (rejected, None, c)"
      by (simp_all add: prod_eq_iff)
  next
    assume "st_status (states h ! p) = resolved" "st_storage (states h ! p) = Some v"
    from tr(3)[OF this fired_resolve_raises_default[where fu = f, OF _ assms(4)]]
    show "outcome h1 n = (rejected, None, c)" by blast
  qed
qed

theorem then_raise_rejects_witness:
  "wf_heap one_promise \<and> is_pending one_promise 0
   \<and> outcome (snd (resolve 0 (VAtom 7)
                  (snd (then1 0 (user_resolve (\<lambda>v. Inl (thrown ''bad''))) one_promise)))) 1
       = (rejected, None, thrown ''bad'')
   \<and> outcome (snd (then1 0 (user_resolve (\<lambda>v. Inl (thrown ''bad''))) resolved_promise)) 1
       = (rejected, None, thrown ''bad'')"
proof -
  let ?f = "\<lambda>v :: int val. Inl (thrown ''bad'') :: string exception_ptr + int val"
  have a: "then1 0 (user_resolve ?f) one_promise = (1, snd (then1 0 (user_resolve ?f) one_promise))"
    and b: "then1 0 (user_resolve ?f) resolved_promise
              = (1, snd (then1 0 (user_resolve ?f) resolved_promise))"
    by (simp_all add: prod_eq_iff)
  show ?thesis
    using then_raise_rejects[OF example_heaps_wf(1) example_heaps_status(2) a,
        where v = "VAtom 7" and c = "thrown ''bad''"]
      then_raise_rejects[OF example_heaps_wf(2) example_heaps_status(3) b,
        where v = "VAtom 7" and c = "thrown ''bad''"]
      example_heaps_wf example_heaps_status
    by simp
qed

subsection \<open>C5: \<open>on_reject\<close> observes a rejection\<close>



subsection \<open>C8: \<open>fail\<close>\<close>



subsection \<open>C9: \<open>on_reject\<close> also observes a fault of \<open>on_resolve\<close>\<close>

text \<open>
  C9. Let \<open>n\<close> be the placeholder returned by \<open>p.then(f, g)\<close>, let \<open>p\<close> resolve with \<open>v\<close> and let
  \<open>f v\<close> raise \<open>c\<close>. Then \<open>f\<close> is called with \<open>v\<close>, after it \<open>g\<close> is called with \<open>c\<close>, and
  \<open>n\<close> is rejected: with \<open>c\<close> when \<open>g\<close> returns, with \<open>c'\<close> when \<open>g\<close> raises \<open>c'\<close>.
\<close>

theorem then2_on_resolve_fault:
  fixes h :: "('a, 'e) heap"
  assumes "wf_heap h" and "p < length (states h)"
    and "then2 p (user_resolve f) (user_reject g) h = (n, h1)" and "f v = Inl c"
  shows "(is_pending h p \<longrightarrow>
            fst (resolve p v h1)
            \<and> events_of n (snd (resolve p v h1)) = [resolve_called n v, reject_called n c]
            \<and> outcome (snd (resolve p v h1)) n
                = (rejected, None, case g c of None \<Rightarrow> c | Some c' \<Rightarrow> c'))
       \<and> (st_status (states h ! p) = resolved \<and> st_storage (states h ! p) = Some v \<longrightarrow>
            events_of n h1 = [resolve_called n v, reject_called n c]
            \<and> outcome h1 n = (rejected, None, case g c of None \<Rightarrow> c | Some c' \<Rightarrow> c'))"
proof -
  note tr = then2_transfer[OF assms(1,2,3)]
  show ?thesis
  proof (intro conjI impI; (elim conjE)?)
    assume "is_pending h p"
    from tr(1)[OF this fired_resolve_raises_user[where fu = f and gu = g, OF _ assms(4)]]
    show "fst (resolve p v h1)"
      "events_of n (snd (resolve p v h1)) = [resolve_called n v, reject_called n c]"
      "outcome (snd (resolve p v h1)) n = (rejected, None, case g c of None \<Rightarrow> c | Some c' \<Rightarrow> c')"
      by blast+
  next
    assume "st_status (states h ! p) = resolved" "st_storage (states h ! p) = Some v"
    from tr(3)[OF this fired_resolve_raises_user[where fu = f and gu = g, OF _ assms(4)]]
    show "events_of n h1 = [resolve_called n v, reject_called n c]"
      "outcome h1 n = (rejected, None, case g c of None \<Rightarrow> c | Some c' \<Rightarrow> c')"
      by blast+
  qed
qed

theorem then2_on_resolve_fault_witness:
  "wf_heap one_promise \<and> is_pending one_promise 0
   \<and> events_of 1 (snd (resolve 0 (VAtom 7)
         (snd (then2 0 (user_resolve (\<lambda>v. Inl (thrown ''bad''))) (user_reject (\<lambda>e. None))
                one_promise))))
       = [resolve_called 1 (VAtom 7), reject_called 1 (thrown ''bad'')]
   \<and> outcome (snd (resolve 0 (VAtom 7)
         (snd (then2 0 (user_resolve (\<lambda>v. Inl (thrown ''bad''))) (user_reject (\<lambda>e. None))
                one_promise)))) 1
       = (rejected, None, thrown ''bad'')
   \<and> outcome (snd (resolve 0 (VAtom 7)
         (snd (then2 0 (user_resolve (\<lambda>v. Inl (thrown ''bad'')))
                (user_reject (\<lambda>e. Some (thrown ''worse''))) one_promise)))) 1
       = (rejected, None, thrown ''worse'')
   \<and> outcome (snd (then2 0 (user_resolve (\<lambda>v. Inl (thrown ''bad''))) (user_reject (\<lambda>e. None))
                resolved_promise)) 1
       = (rejected, None, thrown ''bad'')"
proof -
  let ?f = "\<lambda>v :: int val. Inl (thrown ''bad'') :: string exception_ptr + int val"
  let ?g = "\<lambda>e :: string exception_ptr. None :: string exception_ptr option"
  let ?g' = "\<lambda>e :: string exception_ptr. Some (thrown ''worse'' :: string exception_ptr)"
  have a: "then2 0 (user_resolve ?f) (user_reject ?g) one_promise
             = (1, snd (then2 0 (user_resolve ?f) (user_reject ?g) one_promise))"
    and b: "then2 0 (user_resolve ?f) (user_reject ?g') one_promise
             = (1, snd (then2 0 (user_resolve ?f) (user_reject ?g') one_promise))"
    and c: "then2 0 (user_resolve ?f) (user_reject ?g) resolved_promise
             = (1, snd (then2 0 (user_resolve ?f) (user_reject ?g) resolved_promise))"
    by (simp_all add: prod_eq_iff)
  show ?thesis
    using then2_on_resolve_fault[OF example_heaps_wf(1) example_heaps_status(2) a,
        where v = "VAtom 7" and c = "thrown ''bad''"]
      then2_on_resolve_fault[OF example_heaps_wf(1) example_heaps_status(2) b,
        where v = "VAtom 7" and c = "thrown ''bad''"]
      then2_on_resolve_fault[OF example_heaps_wf(2) example_heaps_status(3) c,
        where v = "VAtom 7" and c = "thrown ''bad''"]
      example_heaps_wf example_heaps_status
    by simp
qed

subsection \<open>C10: an initiator that settles and then raises\<close>

text \<open>
  C10. When the initiator passed to \<open>make_promise\<close> raises after the placeholder is settled, the
  \<open>reject\<close> of the catch branch changes nothing: \<open>make_promise\<close> returns the store that the
  initiator left. In particular an initiator that calls \<open>resolver(v)\<close> (or \<open>rejector(e)\<close>) first,
  then calls the two callables any number of times, and then raises \<open>c\<close>, leaves the placeholder
  resolved with \<open>v\<close> (rejected with \<open>e\<close>). An initiator that raises \<open>c\<close> without calling them
  leaves it rejected with \<open>c\<close>.
\<close>

theorem make_promise_keeps_first_settlement:
  fixes h :: "('a, 'e) heap"
  shows "(new_promise h = (r, h1) \<and> ini r h1 = (Some c, h2) \<and> \<not> is_pending h2 r
            \<longrightarrow> make_promise ini h = (r, h2))
       \<and> outcome (snd (make_promise (initiator (do_resolve v # as) (Some c)) h))
            (fst (make_promise (initiator (do_resolve v # as) (Some c)) h))
          = (resolved, Some v, nullptr)
       \<and> outcome (snd (make_promise (initiator (do_reject e # as) (Some c)) h))
            (fst (make_promise (initiator (do_reject e # as) (Some c)) h))
          = (rejected, None, e)
       \<and> outcome (snd (make_promise (initiator [] (Some c)) h))
            (fst (make_promise (initiator [] (Some c)) h))
          = (rejected, None, c)"
proof -
  let ?r = "length (states h)" and ?h1 = "h\<lparr>states := states h @ [new_state]\<rparr>"
  have fresh: "?r < length (states ?h1)" "states ?h1 ! ?r = new_state" by simp_all
  have a: "make_promise ini h = (r, h2)"
    if "new_promise h = (r, h1)" "ini r h1 = (Some c, h2)" "\<not> is_pending h2 r"
    using that by (simp add: make_promise_def reject_settled)
  let ?hv = "upd_state ?r (\<lambda>s. s\<lparr>st_storage := Some v, st_status := resolved\<rparr>) ?h1"
  have "\<not> is_pending ?hv ?r" by (simp add: is_pending_def)
  then have b: "make_promise (initiator (do_resolve v # as) (Some c)) h = (?r, ?hv)"
    by (simp add: make_promise_def initiator_def new_promise_def resolve_fresh[OF fresh]
        perform_settled reject_settled)
  let ?he = "upd_state ?r (\<lambda>s. s\<lparr>st_exception := e, st_status := rejected\<rparr>) ?h1"
  have "\<not> is_pending ?he ?r" by (simp add: is_pending_def)
  then have c: "make_promise (initiator (do_reject e # as) (Some c)) h = (?r, ?he)"
    by (simp add: make_promise_def initiator_def new_promise_def reject_fresh[OF fresh]
        perform_settled reject_settled)
  have d: "make_promise (initiator [] (Some c)) h
             = (?r, upd_state ?r (\<lambda>s. s\<lparr>st_exception := c, st_status := rejected\<rparr>) ?h1)"
    by (simp add: make_promise_def initiator_def new_promise_def reject_fresh[OF fresh])
  show ?thesis
    using a unfolding b c d
    by (simp add: outcome_upd_state_same new_state_def)
qed

theorem make_promise_keeps_first_settlement_witness:
  "make_promise (initiator [do_resolve (VAtom 7)] (Some (thrown ''late''))) (empty_heap :: (int, string) heap)
     = (0, resolved_promise)
   \<and> outcome resolved_promise 0 = (resolved, Some (VAtom 7), nullptr)"
proof -
  let ?ini = "initiator [do_resolve (VAtom 7)] (Some (thrown ''late'')) :: addr \<Rightarrow> (int, string) heap \<Rightarrow> _"
  have 1: "new_promise (empty_heap :: (int, string) heap) = (0, one_promise)"
    by (simp add: one_promise_def new_promise_def empty_heap_def)
  have 2: "?ini 0 one_promise = (Some (thrown ''late''), resolved_promise)"
    by (simp add: initiator_def resolved_promise_def)
  have 3: "\<not> is_pending resolved_promise 0"
    using example_heaps_status by (simp add: is_pending_def)
  show ?thesis
    using make_promise_keeps_first_settlement[of "empty_heap :: (int, string) heap" 0 one_promise
        ?ini "thrown ''late''" resolved_promise "VAtom 7" "[]" "thrown ''boom''"] 1 2 3
    by (simp add: resolved_promise_eq outcome_def)
qed

subsection \<open>C2: continuations fire once, in attachment order\<close>



subsection \<open>C7: \<open>make_any_promise\<close>\<close>

text \<open>
  C7, as amended. \<open>make_any_promise\<close> on an empty collection raises \<^verbatim>\<open>std::logic_error\<close> to its
  caller. On a non-empty collection it returns a placeholder \<open>r\<close>, attaches to every input, in
  input order, a continuation that forwards the outcome of the input to \<open>r\<close>, and \<open>r\<close> keeps the
  first outcome forwarded to it:
  \<^item> when every input is pending at the call, and no handler queued in the store holds a handle to
    an input (the inputs are settled by calls of \<open>resolve\<close> and \<open>reject\<close> only), \<open>r\<close> is pending
    after the call, and the first \<open>resolve\<close> or \<open>reject\<close> of an input gives \<open>r\<close> exactly that
    outcome;
  \<^item> when an input \<open>q\<close> is already settled at the call and the inputs before it in the collection
    are pending, \<open>r\<close> has the outcome of \<open>q\<close> when the call returns, whichever inputs after \<open>q\<close>
    are settled too and whenever they were settled;
  \<^item> a settled \<open>r\<close> keeps its outcome through every later \<open>resolve\<close> and \<open>reject\<close>.
\<close>

theorem make_any_first_forwarded:
  fixes h :: "('a, 'e) heap"
  shows "make_any_promise [] h
           = Inl (logic_error ''at least one input promise must be provided for make_any_promise'')
       \<and> (wf_heap h \<and> ps \<noteq> [] \<and> (\<forall>p \<in> set ps. is_pending h p) \<and> no_handler_refers h ps
            \<and> p \<in> set ps \<longrightarrow>
           (\<exists>h1. make_any_promise ps h = Inr (length (states h), h1)
                \<and> is_pending h1 (length (states h))
                \<and> fst (resolve p v h1)
                \<and> outcome (snd (resolve p v h1)) (length (states h)) = (resolved, Some v, nullptr)
                \<and> fst (reject p e h1)
                \<and> outcome (snd (reject p e h1)) (length (states h)) = (rejected, None, e)))
       \<and> ((\<forall>p \<in> set pre. is_pending h p) \<and> q < length (states h) \<longrightarrow>
           (\<exists>h1. make_any_promise (pre @ q # post) h = Inr (length (states h), h1)
                \<and> (st_status (states h ! q) = resolved \<and> st_storage (states h ! q) = Some v \<longrightarrow>
                     outcome h1 (length (states h)) = (resolved, Some v, nullptr))
                \<and> (st_status (states h ! q) = rejected \<longrightarrow>
                     outcome h1 (length (states h))
                       = (rejected, None, st_exception (states h ! q)))))
       \<and> (r < length (states h) \<and> \<not> is_pending h r \<longrightarrow>
            outcome (snd (resolve p' v' h)) r = outcome h r
            \<and> outcome (snd (reject p' e' h)) r = outcome h r)"
proof (intro conjI impI; (elim conjE)?)
  show "make_any_promise [] h
           = Inl (logic_error ''at least one input promise must be provided for make_any_promise'')"
    by (simp add: make_any_promise_def)
next
  assume a: "wf_heap h" "ps \<noteq> []" "\<forall>p \<in> set ps. is_pending h p" "no_handler_refers h ps"
    "p \<in> set ps"
  let ?k = "length (states h)"
  let ?h1 = "rounds (\<lambda>i. any_resolve ?k) ?k 0 ps (h\<lparr>states := states h @ [new_state]\<rparr>)"
  note s = make_any_store[OF a(2,3)]
  have "is_pending ?h1 ?k" using s(2,4) by (simp add: is_pending_def new_state_def)
  then show "\<exists>h1. make_any_promise ps h = Inr (length (states h), h1)
                \<and> is_pending h1 (length (states h))
                \<and> fst (resolve p v h1)
                \<and> outcome (snd (resolve p v h1)) (length (states h)) = (resolved, Some v, nullptr)
                \<and> fst (reject p e h1)
                \<and> outcome (snd (reject p e h1)) (length (states h)) = (rejected, None, e)"
    using s(1) make_any_first_settle(1)[OF a, where v = v] make_any_first_settle(2)[OF a, where e = e]
    by (intro exI[of _ ?h1]) simp
next
  assume a: "\<forall>p \<in> set pre. is_pending h p" "q < length (states h)"
  let ?k = "length (states h)"
  let ?h1 = "rounds (\<lambda>i. any_resolve ?k) ?k 0 (pre @ q # post)
               (h\<lparr>states := states h @ [new_state]\<rparr>)"
  note m = make_any_settled_input[OF a, where post = post]
  show "\<exists>h1. make_any_promise (pre @ q # post) h = Inr (length (states h), h1)
                \<and> (st_status (states h ! q) = resolved \<and> st_storage (states h ! q) = Some v \<longrightarrow>
                     outcome h1 (length (states h)) = (resolved, Some v, nullptr))
                \<and> (st_status (states h ! q) = rejected \<longrightarrow>
                     outcome h1 (length (states h))
                       = (rejected, None, st_exception (states h ! q)))"
    using m by (intro exI[of _ ?h1]) simp
next
  assume a: "r < length (states h)" "\<not> is_pending h r"
  show "outcome (snd (resolve p' v' h)) r = outcome h r"
    "outcome (snd (reject p' e' h)) r = outcome h r"
    using resolve_keeps_settled[OF a] by simp_all
qed

theorem make_any_first_forwarded_witness:
  "wf_heap two_promises \<and> is_pending two_promises 0 \<and> is_pending two_promises 1
   \<and> no_handler_refers two_promises [0, 1]
   \<and> (\<exists>h1. make_any_promise [0, 1] two_promises = Inr (2, h1)
         \<and> outcome (snd (resolve 1 (VAtom 7) h1)) 2 = (resolved, Some (VAtom 7), nullptr)
         \<and> outcome (snd (reject 1 (thrown ''boom'') h1)) 2 = (rejected, None, thrown ''boom''))
   \<and> (\<exists>h1. make_any_promise ([] @ 0 # [1]) settled_pair = Inr (2, h1)
         \<and> outcome h1 2 = (resolved, Some (VAtom 7), nullptr))"
proof -
  have sp: "\<forall>p \<in> set []. is_pending settled_pair p" "0 < length (states settled_pair)"
    "st_status (states settled_pair ! 0) = resolved"
    "st_storage (states settled_pair ! 0) = Some (VAtom 7)" "length (states settled_pair) = 2"
    by (simp_all add: settled_pair_eq)
  note w1 = make_any_first_forwarded[where h = two_promises and ps = "[0, 1]" and p = 1
      and v = "VAtom 7" and e = "thrown ''boom''" and pre = "[]" and q = 0 and r = 0]
  note w2 = make_any_first_forwarded[where h = settled_pair and ps = "[0, 1]" and p = 1
      and v = "VAtom 7" and e = "thrown ''boom''" and pre = "[]" and q = 0 and post = "[1]"
      and r = 0]
  have a: "\<exists>h1. make_any_promise [0, 1] two_promises = Inr (2, h1)
         \<and> outcome (snd (resolve 1 (VAtom 7) h1)) 2 = (resolved, Some (VAtom 7), nullptr)
         \<and> outcome (snd (reject 1 (thrown ''boom'') h1)) 2 = (rejected, None, thrown ''boom'')"
    using w1 two_promises_facts by auto
  have b: "\<exists>h1. make_any_promise ([] @ 0 # [1]) settled_pair = Inr (2, h1)
         \<and> outcome h1 2 = (resolved, Some (VAtom 7), nullptr)"
    using w2 sp by auto
  show ?thesis using a b two_promises_facts by simp
qed

text \<open>
  C7 as stated ("the output settles with the exact outcome of whichever input settles first")
  fails when inputs are settled before the call: promise 1 is rejected while promise 0 is still
  pending, promise 0 is resolved afterwards, and \<open>make_any_promise [0, 1]\<close> returns a placeholder
  resolved with the value of promise 0, not rejected with the error of promise 1.
\<close>

theorem make_any_first_settled_counterexample:
  "is_pending (snd (reject 1 (thrown ''boom'') two_promises)) 0
   \<and> outcome (snd (reject 1 (thrown ''boom'') two_promises)) 1 = (rejected, None, thrown ''boom'')
   \<and> outcome settled_pair 0 = (resolved, Some (VAtom 7), nullptr)
   \<and> outcome settled_pair 1 = (rejected, None, thrown ''boom'')
   \<and> make_any_promise [0, 1] settled_pair
       = Inr (2, snd (projr (make_any_promise [0, 1] settled_pair)))
   \<and> outcome (snd (projr (make_any_promise [0, 1] settled_pair))) 2
       = (resolved, Some (VAtom 7), nullptr)
   \<and> outcome (snd (projr (make_any_promise [0, 1] settled_pair))) 2 \<noteq> outcome settled_pair 1"
proof -
  have len: "length (states settled_pair) = 2" by (simp add: settled_pair_eq)
  have q: "0 < length (states settled_pair)" "st_status (states settled_pair ! 0) = resolved"
    "st_storage (states settled_pair ! 0) = Some (VAtom 7)"
    by (simp_all add: settled_pair_eq)
  have pre: "\<forall>p \<in> set []. is_pending settled_pair p" by simp
  note m1 = make_any_settled_input(1)[OF pre q(1), where post = "[1]", unfolded len]
  note m2 = make_any_settled_input(2)[OF pre q, where post = "[1]", unfolded len]
  have a: "make_any_promise [0, 1] settled_pair
       = Inr (2, snd (projr (make_any_promise [0, 1] settled_pair)))"
    using m1 by simp
  have b: "outcome (snd (projr (make_any_promise [0, 1] settled_pair))) 2
       = (resolved, Some (VAtom 7), nullptr)"
    using m1 m2 by simp
  have c: "is_pending (snd (reject 1 (thrown ''boom'') two_promises)) 0"
    "outcome (snd (reject 1 (thrown ''boom'') two_promises)) 1 = (rejected, None, thrown ''boom'')"
    "outcome settled_pair 0 = (resolved, Some (VAtom 7), nullptr)"
    "outcome settled_pair 1 = (rejected, None, thrown ''boom'')"
    unfolding rejected_second_eq settled_pair_eq
    by (simp_all add: is_pending_def outcome_def new_state_def)
  show ?thesis
    using a b c by simp
qed

subsection \<open>C6: \<open>make_all_promise\<close>\<close>

text \<open>
  C6. \<open>make_all_promise\<close> on an empty collection returns a placeholder that is already resolved
  with the empty collection. On a non-empty collection \<open>ps\<close> it returns a placeholder \<open>r\<close>.

  For every collection \<open>ps\<close> of promises of a well-formed store, each of them pending, resolved
  or rejected at the call, given once or several times, with any handlers queued on them (so an
  input may be the result of \<open>then\<close> on another promise): after any calls \<open>ops\<close> of \<open>resolve\<close>
  and \<open>reject\<close> on promises that the store held at the call, in the store \<open>hs\<close> that they leave,
  \<^item> if every input is resolved, the input at position \<open>j\<close> with \<open>ws ! j\<close>, then \<open>r\<close> is resolved
    with \<open>ws\<close>, the values by input position, whatever the order in which the inputs resolved;
  \<^item> if an input is rejected, then \<open>r\<close> is rejected with the error of a rejected input (of that
    input, when it is the only one);
  \<^item> if no input is rejected and an input is still pending, then \<open>r\<close> is pending.
  With \<open>ops\<close> empty this is the store that \<open>make_all_promise\<close> returns.

  Which error \<open>r\<close> takes when several inputs reject:
  \<^item> when the inputs are distinct and pending at the call, and none of them is held by a handler
    queued in the store (the inputs are settled by calls of \<open>resolve\<close> and \<open>reject\<close> only), let
    the inputs at the positions \<open>ord\<close> be resolved one after the other, the input at position
    \<open>i\<close> with \<open>vs ! i\<close>: every \<open>resolve\<close> leaves its input resolved with its value and the other
    inputs pending, \<open>r\<close> is resolved with \<open>vs\<close> once \<open>ord\<close> holds every position and is pending
    before, and then a \<open>reject\<close> of any input that is still pending with an error \<open>e\<close> rejects
    \<open>r\<close> with \<open>e\<close>;
  \<^item> when every input is resolved at the call, \<open>r\<close> is resolved with their values when the call
    returns; when an input \<open>q\<close> is rejected at the call and no input before it in the collection
    is, \<open>r\<close> is rejected with the error of \<open>q\<close> when the call returns.
\<close>

theorem make_all_collects:
  fixes h :: "('a, 'e) heap"
  shows "(fst (make_all_promise dflt [] h) = length (states h)
          \<and> outcome (snd (make_all_promise dflt [] h)) (length (states h))
              = (resolved, Some (VVec []), nullptr))
       \<and> (wf_heap h \<and> ps \<noteq> [] \<and> (\<forall>p \<in> set ps. p < length (states h))
            \<and> (\<forall>op \<in> set ops. fst op < length (states h))
            \<and> hs = settle_calls ops (snd (make_all_promise dflt ps h)) \<longrightarrow>
          fst (make_all_promise dflt ps h) = length (states h)
          \<and> (length ws = length ps
               \<and> (\<forall>j < length ps. st_status (states hs ! (ps ! j)) = resolved
                      \<and> st_storage (states hs ! (ps ! j)) = Some (ws ! j)) \<longrightarrow>
                outcome hs (length (states h)) = (resolved, Some (VVec ws), nullptr))
          \<and> ((\<exists>j < length ps. st_status (states hs ! (ps ! j)) = rejected) \<longrightarrow>
                st_status (states hs ! length (states h)) = rejected
                \<and> st_storage (states hs ! length (states h)) = None
                \<and> (\<exists>j < length ps. st_status (states hs ! (ps ! j)) = rejected
                      \<and> st_exception (states hs ! length (states h))
                          = st_exception (states hs ! (ps ! j))))
          \<and> ((\<forall>j < length ps. st_status (states hs ! (ps ! j)) \<noteq> rejected)
               \<and> (\<exists>j < length ps. is_pending hs (ps ! j)) \<longrightarrow>
                is_pending hs (length (states h))))
       \<and> (wf_heap h \<and> ps \<noteq> [] \<and> distinct ps \<and> (\<forall>p \<in> set ps. is_pending h p)
            \<and> no_handler_refers h ps \<and> length vs = length ps
            \<and> distinct ord \<and> set ord \<subseteq> {..< length ps}
            \<and> h2 = resolve_all ps vs ord (snd (make_all_promise dflt ps h)) \<longrightarrow>
          fst (make_all_promise dflt ps h) = length (states h)
          \<and> (\<forall>i \<in> set ord. fst (outcome h2 (ps ! i)) = resolved
                \<and> fst (snd (outcome h2 (ps ! i))) = Some (vs ! i))
          \<and> (\<forall>j < length ps. j \<notin> set ord \<longrightarrow> is_pending h2 (ps ! j))
          \<and> (set ord = {..< length ps} \<longrightarrow>
                outcome h2 (length (states h)) = (resolved, Some (VVec vs), nullptr))
          \<and> (set ord \<noteq> {..< length ps} \<longrightarrow> is_pending h2 (length (states h)))
          \<and> (\<forall>j < length ps. j \<notin> set ord \<longrightarrow>
                fst (reject (ps ! j) e h2)
                \<and> outcome (snd (reject (ps ! j) e h2)) (length (states h)) = (rejected, None, e)))
       \<and> (ps \<noteq> [] \<and> length vs = length ps
            \<and> (\<forall>j < length ps. ps ! j < length (states h)
                  \<and> st_status (states h ! (ps ! j)) = resolved
                  \<and> st_storage (states h ! (ps ! j)) = Some (vs ! j)) \<longrightarrow>
          fst (make_all_promise dflt ps h) = length (states h)
          \<and> outcome (snd (make_all_promise dflt ps h)) (length (states h))
              = (resolved, Some (VVec vs), nullptr))
       \<and> ((\<forall>p \<in> set pre. p < length (states h) \<and> st_status (states h ! p) \<noteq> rejected)
            \<and> q < length (states h) \<and> st_status (states h ! q) = rejected \<longrightarrow>
          fst (make_all_promise dflt (pre @ q # post) h) = length (states h)
          \<and> outcome (snd (make_all_promise dflt (pre @ q # post) h)) (length (states h))
              = (rejected, None, st_exception (states h ! q)))"
proof -
  have dyn: "fst (make_all_promise dflt ps h) = length (states h)
          \<and> (\<forall>i \<in> set ord. fst (outcome h2 (ps ! i)) = resolved
                \<and> fst (snd (outcome h2 (ps ! i))) = Some (vs ! i))
          \<and> (\<forall>j < length ps. j \<notin> set ord \<longrightarrow> is_pending h2 (ps ! j))
          \<and> (set ord = {..< length ps} \<longrightarrow>
                outcome h2 (length (states h)) = (resolved, Some (VVec vs), nullptr))
          \<and> (set ord \<noteq> {..< length ps} \<longrightarrow> is_pending h2 (length (states h)))
          \<and> (\<forall>j < length ps. j \<notin> set ord \<longrightarrow>
                fst (reject (ps ! j) e h2)
                \<and> outcome (snd (reject (ps ! j) e h2)) (length (states h)) = (rejected, None, e))"
    if wf: "wf_heap h" and ne: "ps \<noteq> []" and dist: "distinct ps"
      and pend: "\<forall>p \<in> set ps. is_pending h p" and indep: "no_handler_refers h ps"
      and len: "length vs = length ps" and ord: "distinct ord" "set ord \<subseteq> {..< length ps}"
      and h2: "h2 = resolve_all ps vs ord (snd (make_all_promise dflt ps h))"
  proof (intro conjI impI)
    note ini = all_inv_initial(1)[OF wf indep ne pend dist, where dflt = dflt and vs = vs]
      all_inv_initial(2)[OF wf indep ne pend dist, where dflt = dflt]
    show "fst (make_all_promise dflt ps h) = length (states h)" by (rule ini(2))
    have inv: "all_inv h dflt ps vs (set ord) h2"
      using all_inv_resolve_all[OF wf indep pend dist len ini(1) _ ord] unfolding h2 by simp
    show "\<forall>i \<in> set ord. fst (outcome h2 (ps ! i)) = resolved
                  \<and> fst (snd (outcome h2 (ps ! i))) = Some (vs ! i)"
      unfolding h2 using inputs_resolve_all[OF wf indep pend dist len ini(1) _ ord] by simp
    show "\<forall>j < length ps. j \<notin> set ord \<longrightarrow> is_pending h2 (ps ! j)"
      using all_inv_pending[OF pend inv] by simp
    show "outcome h2 (length (states h)) = (resolved, Some (VVec vs), nullptr)"
      if "set ord = {..< length ps}"
      using inv that unfolding all_inv_def by simp
    show "is_pending h2 (length (states h))" if "set ord \<noteq> {..< length ps}"
      using inv that unfolding all_inv_def by (simp add: is_pending_def new_state_def)
    show "\<forall>j < length ps. j \<notin> set ord \<longrightarrow>
                  fst (reject (ps ! j) e h2)
                  \<and> outcome (snd (reject (ps ! j) e h2)) (length (states h)) = (rejected, None, e)"
      using all_inv_reject[OF wf indep pend inv] by simp
  qed
  have a: "fst (make_all_promise dflt [] h) = length (states h)
          \<and> outcome (snd (make_all_promise dflt [] h)) (length (states h))
              = (resolved, Some (VVec []), nullptr)"
    using make_all_empty[of dflt h] by simp
  have b: "wf_heap h \<and> ps \<noteq> [] \<and> (\<forall>p \<in> set ps. p < length (states h))
            \<and> (\<forall>op \<in> set ops. fst op < length (states h))
            \<and> hs = settle_calls ops (snd (make_all_promise dflt ps h)) \<longrightarrow>
          fst (make_all_promise dflt ps h) = length (states h)
          \<and> (length ws = length ps
               \<and> (\<forall>j < length ps. st_status (states hs ! (ps ! j)) = resolved
                      \<and> st_storage (states hs ! (ps ! j)) = Some (ws ! j)) \<longrightarrow>
                outcome hs (length (states h)) = (resolved, Some (VVec ws), nullptr))
          \<and> ((\<exists>j < length ps. st_status (states hs ! (ps ! j)) = rejected) \<longrightarrow>
                st_status (states hs ! length (states h)) = rejected
                \<and> st_storage (states hs ! length (states h)) = None
                \<and> (\<exists>j < length ps. st_status (states hs ! (ps ! j)) = rejected
                      \<and> st_exception (states hs ! length (states h))
                          = st_exception (states hs ! (ps ! j))))
          \<and> ((\<forall>j < length ps. st_status (states hs ! (ps ! j)) \<noteq> rejected)
               \<and> (\<exists>j < length ps. is_pending hs (ps ! j)) \<longrightarrow>
                is_pending hs (length (states h)))"
  proof (intro impI, elim conjE)
    assume "wf_heap h" "ps \<noteq> []" "\<forall>p \<in> set ps. p < length (states h)"
      "\<forall>op \<in> set ops. fst op < length (states h)"
      "hs = settle_calls ops (snd (make_all_promise dflt ps h))"
    then show "fst (make_all_promise dflt ps h) = length (states h)
          \<and> (length ws = length ps
               \<and> (\<forall>j < length ps. st_status (states hs ! (ps ! j)) = resolved
                      \<and> st_storage (states hs ! (ps ! j)) = Some (ws ! j)) \<longrightarrow>
                outcome hs (length (states h)) = (resolved, Some (VVec ws), nullptr))
          \<and> ((\<exists>j < length ps. st_status (states hs ! (ps ! j)) = rejected) \<longrightarrow>
                st_status (states hs ! length (states h)) = rejected
                \<and> st_storage (states hs ! length (states h)) = None
                \<and> (\<exists>j < length ps. st_status (states hs ! (ps ! j)) = rejected
                      \<and> st_exception (states hs ! length (states h))
                          = st_exception (states hs ! (ps ! j))))
          \<and> ((\<forall>j < length ps. st_status (states hs ! (ps ! j)) \<noteq> rejected)
               \<and> (\<exists>j < length ps. is_pending hs (ps ! j)) \<longrightarrow>
                is_pending hs (length (states h)))"
      by (rule make_all_general)
  qed
  have c: "wf_heap h \<and> ps \<noteq> [] \<and> distinct ps \<and> (\<forall>p \<in> set ps. is_pending h p)
            \<and> no_handler_refers h ps \<and> length vs = length ps
            \<and> distinct ord \<and> set ord \<subseteq> {..< length ps}
            \<and> h2 = resolve_all ps vs ord (snd (make_all_promise dflt ps h)) \<longrightarrow>
          fst (make_all_promise dflt ps h) = length (states h)
          \<and> (\<forall>i \<in> set ord. fst (outcome h2 (ps ! i)) = resolved
                \<and> fst (snd (outcome h2 (ps ! i))) = Some (vs ! i))
          \<and> (\<forall>j < length ps. j \<notin> set ord \<longrightarrow> is_pending h2 (ps ! j))
          \<and> (set ord = {..< length ps} \<longrightarrow>
                outcome h2 (length (states h)) = (resolved, Some (VVec vs), nullptr))
          \<and> (set ord \<noteq> {..< length ps} \<longrightarrow> is_pending h2 (length (states h)))
          \<and> (\<forall>j < length ps. j \<notin> set ord \<longrightarrow>
                fst (reject (ps ! j) e h2)
                \<and> outcome (snd (reject (ps ! j) e h2)) (length (states h)) = (rejected, None, e))"
    using dyn by (intro impI, elim conjE)
  have d: "ps \<noteq> [] \<and> length vs = length ps
            \<and> (\<forall>j < length ps. ps ! j < length (states h)
                  \<and> st_status (states h ! (ps ! j)) = resolved
                  \<and> st_storage (states h ! (ps ! j)) = Some (vs ! j)) \<longrightarrow>
          fst (make_all_promise dflt ps h) = length (states h)
          \<and> outcome (snd (make_all_promise dflt ps h)) (length (states h))
              = (resolved, Some (VVec vs), nullptr)"
    using make_all_settled_inputs(1)[of ps vs h dflt] by (intro impI, elim conjE)
  have e: "(\<forall>p \<in> set pre. p < length (states h) \<and> st_status (states h ! p) \<noteq> rejected)
            \<and> q < length (states h) \<and> st_status (states h ! q) = rejected \<longrightarrow>
          fst (make_all_promise dflt (pre @ q # post) h) = length (states h)
          \<and> outcome (snd (make_all_promise dflt (pre @ q # post) h)) (length (states h))
              = (rejected, None, st_exception (states h ! q))"
    using make_all_settled_inputs(2)[of pre h q dflt post] by (intro impI, elim conjE)
  show ?thesis by (rule conjI[OF a conjI[OF b conjI[OF c conjI[OF d e]]]])
qed

theorem make_all_collects_witness:
  "wf_heap two_promises \<and> is_pending two_promises 0 \<and> is_pending two_promises 1
   \<and> no_handler_refers two_promises [0, 1]
   \<and> fst (make_all_promise (VAtom 0) [0, 1] two_promises) = 2
   \<and> outcome (resolve_all [0, 1] [VAtom 1, VAtom 2] [1, 0]
                (snd (make_all_promise (VAtom 0) [0, 1] two_promises))) 2
       = (resolved, Some (VVec [VAtom 1, VAtom 2]), nullptr)
   \<and> is_pending (resolve_all [0, 1] [VAtom 1, VAtom 2] [1]
                (snd (make_all_promise (VAtom 0) [0, 1] two_promises))) 2
   \<and> outcome (snd (reject 0 (thrown ''boom'')
                (resolve_all [0, 1] [VAtom 1, VAtom 2] [1]
                   (snd (make_all_promise (VAtom 0) [0, 1] two_promises))))) 2
       = (rejected, None, thrown ''boom'')
   \<and> outcome (snd (make_all_promise (VAtom 0) [0, 0] resolved_promise)) 1
       = (resolved, Some (VVec [VAtom 7, VAtom 7]), nullptr)
   \<and> outcome (snd (make_all_promise (VAtom 0) ([0] @ 1 # []) settled_pair)) 2
       = (rejected, None, thrown ''boom'')
   \<and> wf_heap half_settled
   \<and> outcome (settle_calls [(1, do_resolve (VAtom 8))]
                (snd (make_all_promise (VAtom 0) [0, 1] half_settled))) 2
       = (resolved, Some (VVec [VAtom 7, VAtom 8]), nullptr)
   \<and> st_status (states (settle_calls [(1, do_reject (thrown ''boom''))]
                (snd (make_all_promise (VAtom 0) [0, 1] half_settled))) ! 2) = rejected
   \<and> st_exception (states (settle_calls [(1, do_reject (thrown ''boom''))]
                (snd (make_all_promise (VAtom 0) [0, 1] half_settled))) ! 2) = thrown ''boom''
   \<and> outcome (settle_calls [(0, do_resolve (VAtom 7))]
                (snd (make_all_promise (VAtom 0) [0, 0] one_promise))) 1
       = (resolved, Some (VVec [VAtom 7, VAtom 7]), nullptr)
   \<and> wf_heap chained
   \<and> outcome (settle_calls [(0, do_resolve (VAtom 7))]
                (snd (make_all_promise (VAtom 0) [0, 1] chained))) 2
       = (resolved, Some (VVec [VAtom 7, VVec [VAtom 7]]), nullptr)"
proof -
  have s: "{..< Suc (Suc 0)} = {0, Suc 0}" by auto
  note w1 = make_all_collects[where h = two_promises and dflt = "VAtom 0" and ps = "[0, 1]"
      and vs = "[VAtom 1, VAtom 2]" and ord = "[1, 0]" and e = "thrown ''boom''"
      and ?h2.0 = "resolve_all [0, 1] [VAtom 1, VAtom 2] [1, 0]
                (snd (make_all_promise (VAtom 0) [0, 1] two_promises))", THEN conjunct2, THEN conjunct2, THEN conjunct1]
  note w2 = make_all_collects[where h = two_promises and dflt = "VAtom 0" and ps = "[0, 1]"
      and vs = "[VAtom 1, VAtom 2]" and ord = "[1]" and e = "thrown ''boom''"
      and ?h2.0 = "resolve_all [0, 1] [VAtom 1, VAtom 2] [1]
                (snd (make_all_promise (VAtom 0) [0, 1] two_promises))", THEN conjunct2, THEN conjunct2, THEN conjunct1]
  have a: "outcome (resolve_all [0, 1] [VAtom 1, VAtom 2] [1, 0]
                (snd (make_all_promise (VAtom 0) [0, 1] two_promises))) 2
       = (resolved, Some (VVec [VAtom 1, VAtom 2]), nullptr)"
    and b: "fst (make_all_promise (VAtom 0) [0, 1] two_promises) = 2"
    using w1 two_promises_facts by (auto simp: s simp del: resolve_all.simps)
  have c: "is_pending (resolve_all [0, 1] [VAtom 1, VAtom 2] [1]
                (snd (make_all_promise (VAtom 0) [0, 1] two_promises))) 2"
    and d: "outcome (snd (reject 0 (thrown ''boom'')
                (resolve_all [0, 1] [VAtom 1, VAtom 2] [1]
                   (snd (make_all_promise (VAtom 0) [0, 1] two_promises))))) 2
       = (rejected, None, thrown ''boom'')"
    using w2 two_promises_facts by (auto simp: s simp del: resolve_all.simps)
  note w3 = make_all_collects[where h = resolved_promise and dflt = "VAtom 0" and ps = "[0, 0]"
      and vs = "[VAtom 7, VAtom 7]", THEN conjunct2, THEN conjunct2, THEN conjunct2, THEN conjunct1]
  note w4 = make_all_collects[where h = settled_pair and dflt = "VAtom 0" and pre = "[0]"
      and q = 1 and post = "[]", THEN conjunct2, THEN conjunct2, THEN conjunct2, THEN conjunct2]
  have sp: "0 < length (states settled_pair)" "st_status (states settled_pair ! 0) \<noteq> rejected"
    "1 < length (states settled_pair)" "st_status (states settled_pair ! 1) = rejected"
    "st_exception (states settled_pair ! 1) = thrown ''boom''" "length (states settled_pair) = 2"
    by (simp_all add: settled_pair_eq)
  have f: "outcome (snd (make_all_promise (VAtom 0) [0, 0] resolved_promise)) 1
       = (resolved, Some (VVec [VAtom 7, VAtom 7]), nullptr)"
    using w3 example_heaps_status(3,5,6) by (simp add: less_Suc_eq)
  have g: "outcome (snd (make_all_promise (VAtom 0) ([0] @ 1 # []) settled_pair)) 2
       = (rejected, None, thrown ''boom'')"
    using w4 sp by simp
  let ?d = "VAtom 0 :: int val"
  let ?A = "settle_calls [(1, do_resolve (VAtom 8))] (snd (make_all_promise ?d [0, 1] half_settled))"
  let ?B = "settle_calls [(1, do_reject (thrown ''boom''))]
              (snd (make_all_promise ?d [0, 1] half_settled))"
  let ?C = "settle_calls [(0, do_resolve (VAtom 7))] (snd (make_all_promise ?d [0, 0] one_promise))"
  let ?E = "settle_calls [(0, do_resolve (VAtom 7))] (snd (make_all_promise ?d [0, 1] chained))"
  have wfs: "wf_heap half_settled" "wf_heap chained" by code_simp+
  have lens: "length (states half_settled) = 2" "length (states one_promise) = 1"
    "length (states chained) = 2" by code_simp+
  note gA = make_all_collects[where h = half_settled and dflt = ?d and ps = "[0, 1]"
      and ops = "[(1, do_resolve (VAtom 8))]" and hs = ?A and ws = "[VAtom 7, VAtom 8]",
      THEN conjunct2, THEN conjunct1]
  have "wf_heap half_settled \<and> [0, 1 :: nat] \<noteq> []
        \<and> (\<forall>p \<in> set [0, 1]. p < length (states half_settled))
        \<and> (\<forall>op \<in> set ([(1, do_resolve (VAtom 8))] :: (nat \<times> (int, string) action) list).
              fst op < length (states half_settled))
        \<and> ?A = ?A"
    using wfs(1) lens(1) by simp
  note gA' = mp[OF gA this, THEN conjunct2, THEN conjunct1]
  have mA: "map (\<lambda>s. (st_status s, st_storage s)) (take 2 (states ?A)) = [(resolved, Some (VAtom 7)), (resolved, Some (VAtom 8))]"
    by code_simp
  note iA = map_take_nth[OF mA, of 0, simplified] map_take_nth[OF mA, of 1, simplified]
  have "length ([VAtom 7, VAtom 8] :: int val list) = length ([0, 1] :: nat list)
        \<and> (\<forall>j < length ([0, 1] :: nat list). st_status (states ?A ! ([0, 1] ! j)) = resolved
               \<and> st_storage (states ?A ! ([0, 1] ! j)) = Some ([VAtom 7, VAtom 8] ! j))"
    using iA by (simp add: less_Suc_eq)
  note rA = mp[OF gA' this, unfolded lens]
  note gC = make_all_collects[where h = one_promise and dflt = ?d and ps = "[0, 0]"
      and ops = "[(0, do_resolve (VAtom 7))]" and hs = ?C and ws = "[VAtom 7, VAtom 7]",
      THEN conjunct2, THEN conjunct1]
  have "wf_heap one_promise \<and> [0, 0 :: nat] \<noteq> []
        \<and> (\<forall>p \<in> set [0, 0]. p < length (states one_promise))
        \<and> (\<forall>op \<in> set ([(0, do_resolve (VAtom 7))] :: (nat \<times> (int, string) action) list).
              fst op < length (states one_promise))
        \<and> ?C = ?C"
    using example_heaps_wf(1) lens(2) by simp
  note gC' = mp[OF gC this, THEN conjunct2, THEN conjunct1]
  have mC: "map (\<lambda>s. (st_status s, st_storage s)) (take 2 (states ?C)) = [(resolved, Some (VAtom 7)), (resolved, Some (VVec [VAtom 7, VAtom 7]))]"
    by code_simp
  note iC = map_take_nth[OF mC, of 0, simplified] map_take_nth[OF mC, of 1, simplified]
  have "length ([VAtom 7, VAtom 7] :: int val list) = length ([0, 0] :: nat list)
        \<and> (\<forall>j < length ([0, 0] :: nat list). st_status (states ?C ! ([0, 0] ! j)) = resolved
               \<and> st_storage (states ?C ! ([0, 0] ! j)) = Some ([VAtom 7, VAtom 7] ! j))"
    using iC by (simp add: less_Suc_eq)
  note rC = mp[OF gC' this, unfolded lens]
  note gE = make_all_collects[where h = chained and dflt = ?d and ps = "[0, 1]"
      and ops = "[(0, do_resolve (VAtom 7))]" and hs = ?E and ws = "[VAtom 7, VVec [VAtom 7]]",
      THEN conjunct2, THEN conjunct1]
  have "wf_heap chained \<and> [0, 1 :: nat] \<noteq> []
        \<and> (\<forall>p \<in> set [0, 1]. p < length (states chained))
        \<and> (\<forall>op \<in> set ([(0, do_resolve (VAtom 7))] :: (nat \<times> (int, string) action) list).
              fst op < length (states chained))
        \<and> ?E = ?E"
    using wfs(2) lens(3) by simp
  note gE' = mp[OF gE this, THEN conjunct2, THEN conjunct1]
  have mE: "map (\<lambda>s. (st_status s, st_storage s)) (take 2 (states ?E)) = [(resolved, Some (VAtom 7)), (resolved, Some (VVec [VAtom 7]))]"
    by code_simp
  note iE = map_take_nth[OF mE, of 0, simplified] map_take_nth[OF mE, of 1, simplified]
  have "length ([VAtom 7, VVec [VAtom 7]] :: int val list) = length ([0, 1] :: nat list)
        \<and> (\<forall>j < length ([0, 1] :: nat list). st_status (states ?E ! ([0, 1] ! j)) = resolved
               \<and> st_storage (states ?E ! ([0, 1] ! j)) = Some ([VAtom 7, VVec [VAtom 7]] ! j))"
    using iE by (simp add: less_Suc_eq)
  note rE = mp[OF gE' this, unfolded lens]
  note gB = make_all_collects[where h = half_settled and dflt = ?d and ps = "[0, 1]"
      and ops = "[(1, do_reject (thrown ''boom''))]" and hs = ?B,
      THEN conjunct2, THEN conjunct1]
  have "wf_heap half_settled \<and> [0, 1 :: nat] \<noteq> []
        \<and> (\<forall>p \<in> set [0, 1]. p < length (states half_settled))
        \<and> (\<forall>op \<in> set [(1, do_reject (thrown ''boom'') :: (int, string) action)].
              fst op < length (states half_settled))
        \<and> ?B = ?B"
    using wfs(1) lens(1) by simp
  note gB' = mp[OF gB this, THEN conjunct2, THEN conjunct2, THEN conjunct1]
  have mB: "map (\<lambda>s. (st_status s, st_exception s)) (take 2 (states ?B))
              = [(resolved, nullptr), (rejected, thrown ''boom'')]"
    by code_simp
  note iB = map_take_nth[OF mB, of 0, simplified] map_take_nth[OF mB, of 1, simplified]
  have "\<exists>j < length [0, 1 :: nat]. st_status (states ?B ! ([0, 1] ! j)) = rejected"
    using iB by (intro exI[of _ 1]) simp
  note rB0 = mp[OF gB' this, unfolded lens]
  have rB: "st_status (states ?B ! 2) = rejected" "st_exception (states ?B ! 2) = thrown ''boom''"
    using rB0 iB by (auto simp: less_Suc_eq)
  have old: "wf_heap two_promises \<and> is_pending two_promises 0 \<and> is_pending two_promises 1
     \<and> no_handler_refers two_promises [0, 1]"
    using two_promises_facts by simp
  show ?thesis
    using old a b c d f g wfs rA rB rC rE
    by (simp del: settle_calls.simps resolve_all.simps)
qed

end
